(* ===== verification/Sys_Prelude.thy ===== *)
theory Sys_Prelude
  imports Complex_Main "HOL-Library.Word"
begin

text \<open>
  Shared vocabulary of the development: the machine types of the C++ sources, byte-addressed
  memory with \<open>memcpy\<close>, little-endian encodings of integers (the layout the x86-64 sources
  read and write through \<open>reinterpret_cast\<close>), the standard-library searches
  \<open>std::lower_bound\<close> and \<open>std::binary_search\<close>, and the word lemmas on power-of-two masks.
\<close>

unbundle bit_operations_syntax

type_synonym u8 = "8 word"
type_synonym u16 = "16 word"
type_synonym u32 = "32 word"
type_synonym u64 = "64 word"
type_synonym bytes = "8 word list"
type_synonym memory = "nat \<Rightarrow> 8 word"

named_theorems mem_simps \<open>reads of memory after writes\<close>
named_theorems word_nat \<open>words seen as natural numbers\<close>

subsection \<open>Words seen as natural numbers\<close>

lemma unat_mask_pow2 [word_nat]:
  fixes w :: "'a::len word"
  shows "unat (w AND mask k) = unat w mod 2 ^ k"
proof -
  have "unat (w AND mask k) = take_bit k (unat w)"
    by (simp flip: take_bit_eq_mask add: unsigned_take_bit_eq)
  then show ?thesis by (simp add: take_bit_eq_mod)
qed

lemma mod_pow2_mod_pow2:
  assumes "k \<le> n"
  shows "(m mod 2 ^ n) mod 2 ^ k = m mod (2 ^ k :: nat)"
  using assms by (simp add: mod_mod_cancel le_imp_power_dvd)

lemma unat_add_mask_pow2:
  fixes w :: "'a::len word"
  assumes "k \<le> LENGTH('a)"
  shows "unat ((w + of_nat i) AND mask k) = (unat w + i) mod 2 ^ k"
proof -
  have "unat ((w + of_nat i) AND mask k) = unat (w + of_nat i) mod 2 ^ k"
    by (rule unat_mask_pow2)
  also have "unat (w + of_nat i) = (unat w + i mod 2 ^ LENGTH('a)) mod 2 ^ LENGTH('a)"
    by (simp add: unat_word_ariths unat_of_nat)
  also have "\<dots> = (unat w + i) mod 2 ^ LENGTH('a)"
    by (simp add: mod_simps)
  also have "\<dots> mod 2 ^ k = (unat w + i) mod 2 ^ k"
    using assms by (rule mod_pow2_mod_pow2)
  finally show ?thesis .
qed

lemma mask_eq_minus_1 [word_nat]: "mask k = (2 ^ k - 1 :: 'a::len word)"
  by (simp add: mask_eq_exp_minus_1)

lemma unat_Suc_diff:
  fixes r w :: "'a::len word"
  assumes "unat (w - r) < n" "n < 2 ^ LENGTH('a)"
  shows "unat (w + 1 - r) = Suc (unat (w - r))"
proof -
  have "w + 1 - r = 1 + (w - r)" by simp
  then have "unat (w + 1 - r) = (1 + unat (w - r)) mod 2 ^ LENGTH('a)"
    by (simp only: unat_word_ariths) simp
  with assms show ?thesis by simp
qed

lemma unat_pred_diff:
  fixes r w :: "'a::len word"
  assumes "r \<noteq> w"
  shows "unat (w - r) = Suc (unat (w - (r + 1)))"
proof -
  have ne: "w - r \<noteq> 0" using assms by auto
  have "w - (r + 1) = (w - r) - 1" by (rule diff_diff_eq [symmetric])
  then have "unat (w - (r + 1)) = unat (w - r) - 1"
    using unat_minus_one [OF ne] by (simp only:)
  then show ?thesis using ne by (simp add: unat_gt_0)
qed

lemma unat_u16_less: "unat (w :: u16) < 65536"
proof -
  have "unat w < 2 ^ LENGTH(16)" by (rule unsigned_less)
  then show ?thesis by simp
qed

lemma unat_of_nat_u16: "n < 65536 \<Longrightarrow> unat (of_nat n :: u16) = n"
  by (simp add: unat_of_nat)

lemma unat_Suc_u16: "unat (w :: u16) < 65535 \<Longrightarrow> unat (w + 1) = Suc (unat w)"
  using unat_of_nat_u16 [of "Suc (unat w)"] by (simp add: add.commute)

lemma unat_of_nat_u32: "n < 4294967296 \<Longrightarrow> unat (of_nat n :: u32) = n"
  by (simp add: unat_of_nat)

lemma unat_of_nat_u64: "n < 18446744073709551616 \<Longrightarrow> unat (of_nat n :: u64) = n"
  by (simp add: unat_of_nat)

lemma unat_Suc_u64: "Suc (unat (w :: u64)) < 2 ^ 64 \<Longrightarrow> unat (w + 1) = Suc (unat w)"
  using unat_of_nat_u64 [of "Suc (unat w)"] by (simp add: add.commute)

lemma unat_u32_less: "unat (w :: u32) < 4294967296"
proof -
  have "unat w < 2 ^ LENGTH(32)" by (rule unsigned_less)
  then show ?thesis by simp
qed

lemma unat_u64_less: "unat (w :: u64) < 18446744073709551616"
proof -
  have "unat w < 2 ^ LENGTH(64)" by (rule unsigned_less)
  then show ?thesis by simp
qed

subsection \<open>Byte-addressed memory\<close>

definition mem_write :: "(nat \<Rightarrow> 'b) \<Rightarrow> nat \<Rightarrow> 'b list \<Rightarrow> nat \<Rightarrow> 'b" where
  "mem_write m a bs = (\<lambda>i. if a \<le> i \<and> i < a + length bs then bs ! (i - a) else m i)"

definition mem_read :: "(nat \<Rightarrow> 'b) \<Rightarrow> nat \<Rightarrow> nat \<Rightarrow> 'b list" where
  "mem_read m a n = map m [a..<a + n]"

lemma length_mem_read [simp]: "length (mem_read m a n) = n"
  by (simp add: mem_read_def)

lemma mem_read_0 [simp]: "mem_read m a 0 = []"
  by (simp add: mem_read_def)

lemma mem_write_Nil [simp]: "mem_write m a [] = m"
  by (rule ext) (auto simp: mem_write_def)

lemma nth_mem_read [simp]: "i < n \<Longrightarrow> mem_read m a n ! i = m (a + i)"
  by (simp add: mem_read_def)

lemma mem_read_cong:
  "(\<And>i. a \<le> i \<Longrightarrow> i < a + n \<Longrightarrow> m i = m' i) \<Longrightarrow> mem_read m a n = mem_read m' a n"
  by (auto simp: mem_read_def)

lemma mem_read_zero: "(\<And>i. a \<le> i \<Longrightarrow> i < a + n \<Longrightarrow> m i = 0) \<Longrightarrow> mem_read m a n = replicate n 0"
  by (rule nth_equalityI) auto

lemma mem_write_out [mem_simps]: "i < a \<or> a + length bs \<le> i \<Longrightarrow> mem_write m a bs i = m i"
  by (auto simp: mem_write_def)

lemma mem_write_in [mem_simps]: "i < length bs \<Longrightarrow> mem_write m a bs (a + i) = bs ! i"
  by (auto simp: mem_write_def)

lemma mem_read_write_same [mem_simps]: "n = length bs \<Longrightarrow> mem_read (mem_write m a bs) a n = bs"
  by (rule nth_equalityI) (auto simp: mem_write_in)

lemma mem_read_write_prefix [mem_simps]:
  "n \<le> length bs \<Longrightarrow> mem_read (mem_write m a bs) a n = take n bs"
  by (rule nth_equalityI) (auto simp: mem_write_in)

lemma mem_read_write_disjoint [mem_simps]:
  "a' + n \<le> a \<or> a + length bs \<le> a' \<Longrightarrow> mem_read (mem_write m a bs) a' n = mem_read m a' n"
  by (rule mem_read_cong) (auto simp: mem_write_def)

subsection \<open>Little-endian integers\<close>

fun le_bytes :: "nat \<Rightarrow> nat \<Rightarrow> bytes" where
  "le_bytes 0 n = []"
| "le_bytes (Suc k) n = of_nat (n mod 256) # le_bytes k (n div 256)"

fun le_nat :: "bytes \<Rightarrow> nat" where
  "le_nat [] = 0"
| "le_nat (b # bs) = unat b + 256 * le_nat bs"

lemma length_le_bytes [simp]: "length (le_bytes k n) = k"
  by (induction k arbitrary: n) auto

lemma le_nat_le_bytes: "le_nat (le_bytes k n) = n mod 256 ^ k"
proof (induction k arbitrary: n)
  case 0
  then show ?case by simp
next
  case (Suc k)
  have "n mod 256 + 256 * (n div 256 mod 256 ^ k) = n mod (256 * 256 ^ k)"
    by (simp add: mod_mult2_eq)
  then show ?case by (simp add: Suc.IH unat_of_nat)
qed

lemma le_bytes_le_nat: "length bs = k \<Longrightarrow> le_bytes k (le_nat bs) = bs"
proof (induction bs arbitrary: k)
  case Nil
  then show ?case by simp
next
  case (Cons b bs)
  have "unat b < 256" using unsigned_less [of b] by simp
  then show ?case using Cons by (auto simp: mod_mult_self2)
qed

lemma le_nat_le_bytes_word:
  fixes w :: "'a::len word"
  assumes "LENGTH('a) \<le> 8 * k"
  shows "(of_nat (le_nat (le_bytes k (unat w))) :: 'a word) = w"
proof -
  have "(256::nat) ^ k = 2 ^ (8 * k)" by (simp add: power_mult)
  moreover have "unat w < 2 ^ LENGTH('a)" by (rule unsigned_less)
  moreover have "(2::nat) ^ LENGTH('a) \<le> 2 ^ (8 * k)" using assms by simp
  ultimately have "unat w mod 256 ^ k = unat w" by (metis less_le_trans mod_less)
  then show ?thesis by (simp add: le_nat_le_bytes)
qed

lemma le_nat_le_bytes_u16 [simp]: "(of_nat (le_nat (le_bytes 2 (unat (w::u16)))) :: u16) = w"
  by (rule le_nat_le_bytes_word) simp

lemma le_nat_le_bytes_u32 [simp]: "(of_nat (le_nat (le_bytes 4 (unat (w::u32)))) :: u32) = w"
  by (rule le_nat_le_bytes_word) simp

lemma le_nat_le_bytes_u64 [simp]: "(of_nat (le_nat (le_bytes 8 (unat (w::u64)))) :: u64) = w"
  by (rule le_nat_le_bytes_word) simp

text \<open>Integer fields of a structure in memory, read and written through a cast pointer.\<close>

definition rd16 :: "memory \<Rightarrow> nat \<Rightarrow> u16" where
  "rd16 p a = of_nat (le_nat (mem_read p a 2))"

definition wr16 :: "memory \<Rightarrow> nat \<Rightarrow> u16 \<Rightarrow> memory" where
  "wr16 p a w = mem_write p a (le_bytes 2 (unat w))"

definition rd32 :: "memory \<Rightarrow> nat \<Rightarrow> u32" where
  "rd32 p a = of_nat (le_nat (mem_read p a 4))"

definition wr32 :: "memory \<Rightarrow> nat \<Rightarrow> u32 \<Rightarrow> memory" where
  "wr32 p a w = mem_write p a (le_bytes 4 (unat w))"

definition rd64 :: "memory \<Rightarrow> nat \<Rightarrow> u64" where
  "rd64 p a = of_nat (le_nat (mem_read p a 8))"

definition wr64 :: "memory \<Rightarrow> nat \<Rightarrow> u64 \<Rightarrow> memory" where
  "wr64 p a w = mem_write p a (le_bytes 8 (unat w))"

lemma rd64_wr64 [simp]: "rd64 (wr64 m a w) a = w"
  by (simp add: rd64_def wr64_def mem_read_write_same)

lemma rd64_disjoint [mem_simps]: "a + 8 \<le> b \<or> b + length bs \<le> a \<Longrightarrow> rd64 (mem_write m b bs) a = rd64 m a"
  by (simp add: rd64_def mem_read_write_disjoint)

subsection \<open>Rounding up to a power of two\<close>

lemma unat_align_down:
  fixes w :: "'a::len word"
  assumes "k < LENGTH('a)"
  shows "unat (w AND NOT (2 ^ k - 1)) = 2 ^ k * (unat w div 2 ^ k)"
proof -
  have "w AND NOT (2 ^ k - 1) = push_bit k (drop_bit k w)"
    by (simp flip: mask_eq_minus_1 add: bit_eq_iff bit_simps, auto)
  moreover have d: "unat (drop_bit k w) = unat w div 2 ^ k"
    by (simp only: unat_drop_bit_eq) (simp add: drop_bit_eq_div)
  moreover have "unat (push_bit k (drop_bit k w)) = 2 ^ k * unat (drop_bit k w)"
  proof -
    have "2 ^ k * (unat w div 2 ^ k) < 2 ^ LENGTH('a)"
      by (meson le_less_trans times_div_less_eq_dividend unsigned_less)
    then show ?thesis
      using d unat_of_nat [of "2 ^ k", where 'a = 'a] assms
      by (simp only: push_bit_eq_mult unat_word_ariths) (simp add: mult.commute)
  qed
  ultimately show ?thesis by simp
qed

lemma unat_align_up:
  fixes w :: "'a::len word"
  assumes "k < LENGTH('a)" "unat w + 2 ^ k \<le> 2 ^ LENGTH('a)"
  shows "unat ((w + (2 ^ k - 1)) AND NOT (2 ^ k - 1)) = 2 ^ k * ((unat w + 2 ^ k - 1) div 2 ^ k)"
proof -
  have "unat (2 ^ k - 1 :: 'a word) = 2 ^ k - 1"
    using assms(1) unat_of_nat [of "2 ^ k - 1", where 'a = 'a] power_strict_increasing [of k "LENGTH('a)" "2::nat"]
    by (simp add: of_nat_diff less_imp_diff_less)
  then have "unat (w + (2 ^ k - 1)) = unat w + 2 ^ k - 1"
    using assms by (simp add: unat_word_ariths le_imp_less_Suc mod_less less_le_trans [of _ "unat w + 2 ^ k"])
  then show ?thesis by (simp only: unat_align_down [OF assms(1)])
qed

subsection \<open>Tables of equal width\<close>

lemma concat_slice:
  assumes "\<And>x. length (f x) = w" "i < length xs"
  shows "take w (drop (w * i) (concat (map f xs) @ t)) = f (xs ! i)"
  using assms(2)
proof (induction xs arbitrary: i)
  case Nil
  then show ?case by simp
next
  case (Cons x xs)
  then show ?case by (cases i) (simp_all add: assms(1))
qed

lemma length_concat_uniform: "(\<And>x. length (f x) = w) \<Longrightarrow> length (concat (map f xs)) = w * length xs"
  by (induction xs) simp_all

subsection \<open>Searches of the standard library on sorted ranges\<close>

text \<open>
  \<open>std::lower_bound\<close> returns the first position of a partitioned range whose element does
  not satisfy \<open>less\<close>; \<open>std::binary_search\<close> asks whether that position holds an equivalent
  element.
\<close>

definition lower_bound :: "('a \<Rightarrow> bool) \<Rightarrow> 'a list \<Rightarrow> nat" where
  "lower_bound p xs = length (takeWhile p xs)"

definition binary_search :: "'a::linorder list \<Rightarrow> 'a \<Rightarrow> bool" where
  "binary_search xs k =
     (let i = lower_bound (\<lambda>x. x < k) xs in i < length xs \<and> \<not> k < xs ! i)"

lemma lower_bound_le [simp]: "lower_bound p xs \<le> length xs"
  by (simp add: lower_bound_def length_takeWhile_le)

lemma lower_bound_before: "i < lower_bound p xs \<Longrightarrow> p (xs ! i)"
  unfolding lower_bound_def by (metis nth_mem set_takeWhileD takeWhile_nth)

lemma lower_bound_at: "lower_bound p xs < length xs \<Longrightarrow> \<not> p (xs ! lower_bound p xs)"
  unfolding lower_bound_def by (rule nth_length_takeWhile)

lemma binary_search_sorted:
  assumes "sorted xs"
  shows "binary_search xs k \<longleftrightarrow> k \<in> set xs"
proof
  assume "binary_search xs k"
  then have lt: "lower_bound (\<lambda>x. x < k) xs < length xs"
    and "\<not> k < xs ! lower_bound (\<lambda>x. x < k) xs"
    by (auto simp: binary_search_def Let_def)
  with lower_bound_at [OF lt] have "xs ! lower_bound (\<lambda>x. x < k) xs = k" by simp
  with lt show "k \<in> set xs" using nth_mem by metis
next
  assume "k \<in> set xs"
  then obtain j where j: "j < length xs" "xs ! j = k" by (auto simp: in_set_conv_nth)
  let ?i = "lower_bound (\<lambda>x. x < k) xs"
  have "?i \<le> j"
    using lower_bound_before [of j "\<lambda>x. x < k" xs] j by (meson less_irrefl not_le)
  then have "?i < length xs" "xs ! ?i \<le> k"
    using j assms by (auto simp: sorted_nth_mono intro: sorted_nth_mono [of xs ?i j, simplified j])
  then show "binary_search xs k" by (simp add: binary_search_def Let_def)
qed

subsection \<open>Lists\<close>

lemma take_min_length [simp]: "take (min (length xs) n) xs = take n xs"
  by (simp add: min_def)

lemma list_all_update: "list_all P xs \<Longrightarrow> P x \<Longrightarrow> list_all P (xs[i := x])"
  by (auto simp: list_all_iff dest!: set_update_subset_insert [THEN subsetD])

end
