(* ===== verification/Ring_Fifo.thy ===== *)
theory Ring_Fifo
  imports Sys_Prelude
begin

text \<open>
  What the ring buffers of the repository share. The SPSC queue, the shared-memory market
  feed, the shared-memory IPC bus and the logger all keep two free-running 64-bit counters and
  find a slot by masking a counter with \<open>capacity - 1\<close>. \<open>ring_contents\<close> is the list of
  messages such a ring holds; the lemmas say how a store at the write counter and a step of
  the read counter change it, across the wrap-around of the counters.

  The interface \<open>bounded_fifo\<close> is what a producer and a consumer rely on: a push is accepted
  exactly when the queue is not full, a pop returns the oldest message. The client lemma, the
  FIFO order of whole runs, is proved once and instantiated for every ring.
\<close>

subsection \<open>Free-running counters\<close>

lemma unat_of_nat_diff:
  assumes "h \<le> t" "t - h < 2 ^ 64"
  shows "unat ((of_nat t :: u64) - of_nat h) = t - h"
proof -
  have "(of_nat t :: u64) - of_nat h = of_nat (t - h)" using assms(1) by simp
  then show ?thesis using assms(2) by (simp add: unat_of_nat)
qed

lemma of_nat_eq_iff_close:
  assumes "h \<le> t" "t - h < 2 ^ 64"
  shows "(of_nat h :: u64) = of_nat t \<longleftrightarrow> h = t"
proof
  assume "(of_nat h :: u64) = of_nat t"
  then have "unat ((of_nat t :: u64) - of_nat h) = 0" by simp
  with unat_of_nat_diff [OF assms] assms(1) show "h = t" by simp
qed simp

lemma pow2_less_word: "k < 64 \<Longrightarrow> (2::nat) ^ k < 2 ^ 64"
  by (rule power_strict_increasing) simp_all

lemma capacity_word: "k < 64 \<Longrightarrow> unat ((2::u64) ^ k) = 2 ^ k"
  using pow2_less_word [of k] unat_of_nat [of "2 ^ k", where ?'a = 64] by simp

lemma full_test:
  assumes "k < 64" "h \<le> t" "t - h \<le> 2 ^ k"
  shows "(2::u64) ^ k \<le> of_nat t - of_nat h \<longleftrightarrow> t - h = 2 ^ k"
proof -
  have "t - h < 2 ^ 64" using assms(3) pow2_less_word [OF assms(1)] by (rule le_less_trans)
  then show ?thesis
    using unat_of_nat_diff [OF assms(2)] assms(3)
    by (simp only: word_le_nat_alt capacity_word [OF assms(1)]) linarith
qed

subsection \<open>Masked ring indices\<close>

definition ring_contents :: "'a list \<Rightarrow> u64 \<Rightarrow> u64 \<Rightarrow> u64 \<Rightarrow> 'a list" where
  "ring_contents ring m r w = map (\<lambda>i. ring ! unat ((r + of_nat i) AND m)) [0..<unat (w - r)]"

lemma length_ring_contents [simp]: "length (ring_contents ring m r w) = unat (w - r)"
  by (simp add: ring_contents_def)

lemma ring_contents_empty [simp]: "ring_contents ring m r r = []"
  by (simp add: ring_contents_def)

lemma ring_contents_pop:
  assumes "r \<noteq> w"
  shows "ring_contents ring m r w = ring ! unat (r AND m) # ring_contents ring m (r + 1) w"
  by (simp add: ring_contents_def unat_pred_diff [OF assms] upt_conv_Cons map_Suc_upt [symmetric]
      comp_def ac_simps del: upt_Suc)

lemma mask_index_less:
  fixes w :: u64
  shows "unat (w AND mask k) < 2 ^ k"
  by (simp add: unat_mask_pow2)

lemma add_mod_neq:
  fixes a i n c :: nat
  assumes "i < n" "n - i < c"
  shows "(a + i) mod c \<noteq> (a + n) mod c"
proof
  assume "(a + i) mod c = (a + n) mod c"
  then have "(a + n) mod c = (a + i) mod c" by simp
  then have "c dvd (a + n) - (a + i)"
    using assms(1) by (intro mod_eq_dvd_iff_nat [THEN iffD1]) auto
  then have "c dvd n - i" using assms(1) by simp
  with assms show False by (auto dest: dvd_imp_le)
qed

lemma window_mod_inj:
  fixes i j h c :: nat
  assumes "h \<le> i" "i < h + c" "h \<le> j" "j < h + c"
  shows "i mod c = j mod c \<longleftrightarrow> i = j"
proof
  assume eq: "i mod c = j mod c"
  show "i = j"
  proof (rule ccontr)
    assume "i \<noteq> j"
    then consider "i < j" | "j < i" by linarith
    then show False
    proof cases
      case 1
      moreover have "j - i < c" using assms by linarith
      ultimately show False using add_mod_neq [of i j c 0] eq by simp
    next
      case 2
      moreover have "i - j < c" using assms by linarith
      ultimately show False using add_mod_neq [of j i c 0] eq by simp
    qed
  qed
qed simp

lemma window_mod_surj:
  fixes j h c :: nat
  assumes "j < c"
  obtains i where "h \<le> i" "i < h + c" "i mod c = j"
proof -
  let ?i = "h + (j + c - h mod c) mod c"
  have "h mod c + (j + c - h mod c) = j + c"
    using assms mod_less_divisor [of c h] by linarith
  then have "?i mod c = j"
    using assms by (metis add.commute mod_add_left_eq mod_add_right_eq mod_add_self2 mod_less)
  moreover have "?i < h + c" using assms by simp
  ultimately show ?thesis using that [of ?i] by simp
qed

lemma ring_contents_push:
  assumes k: "k < 64" and len: "length ring = 2 ^ k" and room: "unat (w - r) < 2 ^ k"
  shows "ring_contents (ring[unat (w AND mask k) := x]) (mask k) r (w + 1)
       = ring_contents ring (mask k) r w @ [x]"
proof -
  let ?n = "unat (w - r)"
  have pow: "(2::nat) ^ k < 2 ^ 64" using k by (intro power_strict_increasing) simp_all
  have suc: "unat (w + 1 - r) = Suc ?n"
    using room pow by (intro unat_Suc_diff [where n = "2 ^ k"]) simp_all
  have w: "w = r + of_nat ?n" by simp
  have idx_w: "unat (w AND mask k) = (unat r + ?n) mod 2 ^ k"
    using unat_add_mask_pow2 [of k r ?n] k by simp
  have idx_i: "unat ((r + of_nat i) AND mask k) = (unat r + i) mod 2 ^ k" for i
    using unat_add_mask_pow2 [of k r i] k by simp
  have other: "(unat r + ?n) mod 2 ^ k \<noteq> (unat r + i) mod 2 ^ k" if "i < ?n" for i
    using that room by (intro add_mod_neq [symmetric]) auto
  have lt: "(unat r + ?n) mod 2 ^ k < length ring" by (simp add: len)
  show ?thesis
    using lt other
    by (auto simp: ring_contents_def suc idx_i idx_w nth_append intro!: nth_equalityI)
qed

lemma ring_contents_clear:
  assumes k: "k < 64" and ne: "r \<noteq> w" and room: "unat (w - r) \<le> 2 ^ k"
  shows "ring_contents (ring[unat (r AND mask k) := x]) (mask k) (r + 1) w
       = ring_contents ring (mask k) (r + 1) w"
proof -
  have idx: "unat ((r + 1 + of_nat i) AND mask k) = (unat r + Suc i) mod 2 ^ k" for i
    using unat_add_mask_pow2 [of k r "Suc i"] k by (simp add: ac_simps)
  have idx_r: "unat (r AND mask k) = (unat r + 0) mod 2 ^ k" by (simp add: unat_mask_pow2)
  have "(unat r + 0) mod 2 ^ k \<noteq> (unat r + Suc i) mod 2 ^ k" if "i < unat (w - (r + 1))" for i
    using that room unat_pred_diff [OF ne] by (intro add_mod_neq) auto
  then show ?thesis by (auto simp: ring_contents_def idx idx_r)
qed

subsection \<open>The interface of a bounded queue\<close>

datatype 'm fifo_op = Push 'm | Pop

datatype 'a fifo_res = Accepted bool | Received "'a option"

text \<open>The results of a sequence of operations, in order.\<close>

fun fifo_trace :: "('m \<Rightarrow> 's \<Rightarrow> bool \<times> 's) \<Rightarrow> ('s \<Rightarrow> 'a option \<times> 's) \<Rightarrow> 'm fifo_op list \<Rightarrow> 's
    \<Rightarrow> 'a fifo_res list" where
  "fifo_trace push pop [] s = []"
| "fifo_trace push pop (Push m # ops) s =
     (let (ok, s') = push m s in Accepted ok # fifo_trace push pop ops s')"
| "fifo_trace push pop (Pop # ops) s =
     (let (out, s') = pop s in Received out # fifo_trace push pop ops s')"

text \<open>
  The specification: a list of at most \<open>cap\<close> elements that refuses a push when it is full and
  gives the oldest element to a pop.
\<close>

definition queue_push :: "nat \<Rightarrow> ('m \<Rightarrow> 'a) \<Rightarrow> 'm \<Rightarrow> 'a list \<Rightarrow> bool \<times> 'a list" where
  "queue_push cap deliver m q = (if length q < cap then (True, q @ [deliver m]) else (False, q))"

fun queue_pop :: "'a list \<Rightarrow> 'a option \<times> 'a list" where
  "queue_pop [] = (None, [])"
| "queue_pop (x # q) = (Some x, q)"

locale bounded_fifo =
  fixes push :: "'m \<Rightarrow> 's \<Rightarrow> bool \<times> 's"
    and pop :: "'s \<Rightarrow> 'a option \<times> 's"
    and contents :: "'s \<Rightarrow> 'a list"
    and deliver :: "'m \<Rightarrow> 'a"
    and room :: "'s \<Rightarrow> nat"
    and inv :: "'s \<Rightarrow> bool"
  assumes push_inv: "inv s \<Longrightarrow> push m s = (ok, s') \<Longrightarrow> inv s'"
    and push_ok: "inv s \<Longrightarrow> push m s = (ok, s') \<Longrightarrow> ok \<longleftrightarrow> length (contents s) < room s"
    and push_contents: "inv s \<Longrightarrow> push m s = (ok, s') \<Longrightarrow>
          contents s' = (if ok then contents s @ [deliver m] else contents s)"
    and push_room: "inv s \<Longrightarrow> push m s = (ok, s') \<Longrightarrow> room s' = room s"
    and pop_inv: "inv s \<Longrightarrow> pop s = (out, s') \<Longrightarrow> inv s'"
    and pop_out: "inv s \<Longrightarrow> pop s = (out, s') \<Longrightarrow>
          contents s = (case out of None \<Rightarrow> [] | Some a \<Rightarrow> a # contents s')"
    and pop_none: "inv s \<Longrightarrow> pop s = (None, s') \<Longrightarrow> contents s' = []"
    and pop_room: "inv s \<Longrightarrow> pop s = (out, s') \<Longrightarrow> room s' = room s"
begin

lemma push_refines:
  assumes "inv s" "push m s = (ok, s')"
  shows "queue_push (room s) deliver m (contents s) = (ok, contents s')"
  using push_ok [OF assms] push_contents [OF assms] by (simp add: queue_push_def)

lemma pop_refines:
  assumes "inv s" "pop s = (out, s')"
  shows "queue_pop (contents s) = (out, contents s')"
  using pop_out [OF assms] pop_none [OF assms(1)] assms(2) by (auto split: option.splits)

lemma trace_refines:
  "inv s \<Longrightarrow> fifo_trace push pop ops s = fifo_trace (queue_push (room s) deliver) queue_pop ops (contents s)"
proof (induction ops arbitrary: s)
  case (Cons op ops)
  show ?case
  proof (cases op)
    case (Push m)
    obtain ok s' where p: "push m s = (ok, s')" by fastforce
    show ?thesis
      using Cons.IH [OF push_inv [OF Cons.prems p]] push_refines [OF Cons.prems p] push_room [OF Cons.prems p]
        p Push by simp
  next
    case Pop
    obtain out s' where p: "pop s = (out, s')" by fastforce
    show ?thesis
      using Cons.IH [OF pop_inv [OF Cons.prems p]] pop_refines [OF Cons.prems p] pop_room [OF Cons.prems p]
        p Pop by simp
  qed
qed simp

end

end
