(* ===== verification/Spsc_Queue.thy ===== *)
theory Spsc_Queue
  imports Ring_Fifo
begin

text \<open>
  The wait-free single-producer single-consumer queue of
  \<^verbatim>\<open>04-hardware-sync-and-lock-free-internals/projects/lockfree_ring_buffers/spsc_queue.hpp\<close>.
  A slot of \<open>storage_\<close> is \<open>None\<close> while it is raw storage and \<open>Some v\<close> while a \<open>T\<close> lives in it:
  placement new makes it \<open>Some\<close>, the explicit destructor call makes it \<open>None\<close>. A pop that read
  raw storage would return \<open>Some None\<close>.

  Two views are modelled. \<open>emplace\<close> and \<open>pop\<close> are the member functions run without
  interference. \<open>spsc_step\<close> cuts both into their accesses to shared memory, so that a schedule
  interleaves a producer thread and a consumer thread; the atomics are sequentially
  consistent there, which the release/acquire pairs of the source give for this pattern.
\<close>

subsection \<open>State and member functions\<close>

record 'a spsc =
  spsc_tail :: u64
  spsc_cached_head :: u64
  spsc_head :: u64
  spsc_cached_tail :: u64
  spsc_storage :: "'a option list"

definition spsc_init :: "u64 \<Rightarrow> 'a spsc" where
  "spsc_init Capacity = \<lparr>spsc_tail = 0, spsc_cached_head = 0, spsc_head = 0, spsc_cached_tail = 0,
     spsc_storage = replicate (unat Capacity) None\<rparr>"

definition spsc_slot :: "u64 \<Rightarrow> u64 \<Rightarrow> nat" where
  "spsc_slot Capacity pos = unat (pos AND (Capacity - 1))"

definition spsc_construct :: "u64 \<Rightarrow> u64 \<Rightarrow> 'a \<Rightarrow> 'a spsc \<Rightarrow> 'a spsc" where
  "spsc_construct Capacity tail v q =
     q\<lparr>spsc_storage := (spsc_storage q)[spsc_slot Capacity tail := Some v], spsc_tail := tail + 1\<rparr>"

definition emplace :: "u64 \<Rightarrow> 'a \<Rightarrow> 'a spsc \<Rightarrow> bool \<times> 'a spsc" where
  "emplace Capacity v q =
     (let tail = spsc_tail q in
      if tail - spsc_cached_head q \<ge> Capacity then
        let q1 = q\<lparr>spsc_cached_head := spsc_head q\<rparr> in
        if tail - spsc_cached_head q1 \<ge> Capacity then (False, q1)
        else (True, spsc_construct Capacity tail v q1)
      else (True, spsc_construct Capacity tail v q))"

definition spsc_take :: "u64 \<Rightarrow> u64 \<Rightarrow> 'a spsc \<Rightarrow> 'a option \<times> 'a spsc" where
  "spsc_take Capacity head q =
     (let i = spsc_slot Capacity head; out = spsc_storage q ! i in
      (out, q\<lparr>spsc_storage := (spsc_storage q)[i := None], spsc_head := head + 1\<rparr>))"

definition pop :: "u64 \<Rightarrow> 'a spsc \<Rightarrow> 'a option option \<times> 'a spsc" where
  "pop Capacity q =
     (let head = spsc_head q in
      if head = spsc_cached_tail q then
        let q1 = q\<lparr>spsc_cached_tail := spsc_tail q\<rparr> in
        if head = spsc_cached_tail q1 then (None, q1)
        else (let (out, q2) = spsc_take Capacity head q1 in (Some out, q2))
      else (let (out, q2) = spsc_take Capacity head q in (Some out, q2)))"

definition spsc_empty :: "'a spsc \<Rightarrow> bool" where
  "spsc_empty q = (spsc_head q = spsc_tail q)"

definition spsc_size :: "'a spsc \<Rightarrow> u64" where
  "spsc_size q = (let head = spsc_head q; tail = spsc_tail q in
     if tail \<ge> head then tail - head else 0)"

text \<open>The destructor pops until the queue is empty.\<close>

partial_function (option) spsc_destroy :: "u64 \<Rightarrow> 'a spsc \<Rightarrow> 'a spsc option" where
  "spsc_destroy Capacity q =
     (case pop Capacity q of
        (None, q') \<Rightarrow> Some q'
      | (Some _, q') \<Rightarrow> spsc_destroy Capacity q')"

subsection \<open>Indices of the ring\<close>

lemma spsc_slot_of_nat:
  assumes "k < 64"
  shows "spsc_slot (2 ^ k) (of_nat i) = i mod 2 ^ k"
  using unat_add_mask_pow2 [of k "0 :: u64" i] assms
  by (simp add: spsc_slot_def mask_eq_minus_1)

subsection \<open>The queue run by one thread\<close>

definition spsc_contents :: "nat \<Rightarrow> 'a spsc \<Rightarrow> 'a option list" where
  "spsc_contents k q = ring_contents (spsc_storage q) (mask k) (spsc_head q) (spsc_tail q)"

text \<open>
  The counters are images of unbounded ones, the cached copies lag behind, and exactly the
  slots between head and tail hold a live object.
\<close>

definition spsc_inv :: "nat \<Rightarrow> 'a spsc \<Rightarrow> bool" where
  "spsc_inv k q \<longleftrightarrow> k < 64 \<and> length (spsc_storage q) = 2 ^ k \<and>
     (\<exists>ch h ct t. ch \<le> h \<and> h \<le> ct \<and> ct \<le> t \<and> t - ch \<le> 2 ^ k \<and>
        spsc_cached_head q = of_nat ch \<and> spsc_head q = of_nat h \<and>
        spsc_cached_tail q = of_nat ct \<and> spsc_tail q = of_nat t \<and>
        (\<forall>i. h \<le> i \<and> i < h + 2 ^ k \<longrightarrow> (spsc_storage q ! (i mod 2 ^ k) \<noteq> None \<longleftrightarrow> i < t)))"

lemma spsc_invE:
  assumes "spsc_inv k q"
  obtains ch h ct t where "k < 64" "length (spsc_storage q) = 2 ^ k"
    "ch \<le> h" "h \<le> ct" "ct \<le> t" "t - ch \<le> 2 ^ k"
    "spsc_cached_head q = of_nat ch" "spsc_head q = of_nat h"
    "spsc_cached_tail q = of_nat ct" "spsc_tail q = of_nat t"
    "\<forall>i. h \<le> i \<and> i < h + 2 ^ k \<longrightarrow> (spsc_storage q ! (i mod 2 ^ k) \<noteq> None \<longleftrightarrow> i < t)"
  using assms unfolding spsc_inv_def by blast

lemma spsc_invI:
  assumes "k < 64" "length (spsc_storage q) = 2 ^ k"
    "ch \<le> h" "h \<le> ct" "ct \<le> t" "t - ch \<le> 2 ^ k"
    "spsc_cached_head q = of_nat ch" "spsc_head q = of_nat h"
    "spsc_cached_tail q = of_nat ct" "spsc_tail q = of_nat t"
    "\<And>i. h \<le> i \<Longrightarrow> i < h + 2 ^ k \<Longrightarrow> spsc_storage q ! (i mod 2 ^ k) \<noteq> None \<longleftrightarrow> i < t"
  shows "spsc_inv k q"
  using assms unfolding spsc_inv_def by blast

lemma spsc_inv_init: "k < 64 \<Longrightarrow> spsc_inv k (spsc_init (2 ^ k))"
  unfolding spsc_inv_def
  by (intro conjI exI [of _ 0]) (auto simp: spsc_init_def capacity_word)

lemma spsc_contents_init: "spsc_contents k (spsc_init c) = []"
  by (simp add: spsc_contents_def spsc_init_def)

lemma spsc_construct_inv:
  assumes k: "k < 64" and len: "length (spsc_storage q) = 2 ^ k"
    and ord: "ch \<le> h" "h \<le> ct" "ct \<le> t" and room: "t - ch < 2 ^ k"
    and fields: "spsc_cached_head q = of_nat ch" "spsc_head q = of_nat h"
      "spsc_cached_tail q = of_nat ct" "spsc_tail q = of_nat t"
    and live: "\<forall>i. h \<le> i \<and> i < h + 2 ^ k \<longrightarrow> (spsc_storage q ! (i mod 2 ^ k) \<noteq> None \<longleftrightarrow> i < t)"
  shows "spsc_inv k (spsc_construct (2 ^ k) (of_nat t) v q)"
    and "spsc_contents k (spsc_construct (2 ^ k) (of_nat t) v q) = spsc_contents k q @ [Some v]"
    and "length (spsc_contents k q) < 2 ^ k"
proof -
  have th: "t < h + 2 ^ k" using ord room by linarith
  have slot: "spsc_slot (2 ^ k) (of_nat t) = t mod 2 ^ k" using k by (rule spsc_slot_of_nat)
  have "(spsc_storage q)[t mod 2 ^ k := Some v] ! (i mod 2 ^ k) \<noteq> None \<longleftrightarrow> i < t + 1"
    if "h \<le> i \<and> i < h + 2 ^ k" for i
    using that live th ord window_mod_inj [of h i "2 ^ k" t] len
    by (cases "i = t") (auto simp: nth_list_update)
  then show "spsc_inv k (spsc_construct (2 ^ k) (of_nat t) v q)"
    using k len ord room fields
    by (intro spsc_invI [of k _ ch h ct "t + 1"]) (simp_all add: spsc_construct_def slot)
  have "t - h < 2 ^ 64" using th pow2_less_word [OF k] by linarith
  then have diff: "unat (spsc_tail q - spsc_head q) = t - h"
    using ord by (simp only: fields) (rule unat_of_nat_diff, simp_all)
  then show "length (spsc_contents k q) < 2 ^ k"
    using th ord by (simp add: spsc_contents_def)
  show "spsc_contents k (spsc_construct (2 ^ k) (of_nat t) v q) = spsc_contents k q @ [Some v]"
    using ring_contents_push [of k "spsc_storage q" "spsc_tail q" "spsc_head q" "Some v",
        OF k len] diff th ord fields(4)
    by (simp add: spsc_contents_def spsc_construct_def spsc_slot_def mask_eq_minus_1)
qed

lemma emplace_laws:
  assumes inv: "spsc_inv k q" and e: "emplace (2 ^ k) v q = (ok, q')"
  shows "spsc_inv k q'"
    and "ok \<longleftrightarrow> length (spsc_contents k q) < 2 ^ k"
    and "spsc_contents k q' = (if ok then spsc_contents k q @ [Some v] else spsc_contents k q)"
proof -
  from inv obtain ch h ct t where I: "k < 64" "length (spsc_storage q) = 2 ^ k"
    "ch \<le> h" "h \<le> ct" "ct \<le> t" "t - ch \<le> 2 ^ k"
    "spsc_cached_head q = of_nat ch" "spsc_head q = of_nat h"
    "spsc_cached_tail q = of_nat ct" "spsc_tail q = of_nat t"
    "\<forall>i. h \<le> i \<and> i < h + 2 ^ k \<longrightarrow> (spsc_storage q ! (i mod 2 ^ k) \<noteq> None \<longleftrightarrow> i < t)"
    by (rule spsc_invE)
  let ?q1 = "q\<lparr>spsc_cached_head := of_nat h\<rparr>"
  have c1: "spsc_contents k ?q1 = spsc_contents k q" by (simp add: spsc_contents_def)
  have len: "length (spsc_contents k q) = t - h"
    using I pow2_less_word [of k] unat_of_nat_diff [of h t] by (simp add: spsc_contents_def)
  have full1: "(2::u64) ^ k \<le> of_nat t - of_nat ch \<longleftrightarrow> t - ch = 2 ^ k"
    using I by (intro full_test) simp_all
  have full2: "(2::u64) ^ k \<le> of_nat t - of_nat h \<longleftrightarrow> t - h = 2 ^ k"
    using I by (intro full_test) simp_all
  consider (full) "t - ch = 2 ^ k" "t - h = 2 ^ k" | (refresh) "t - ch = 2 ^ k" "t - h < 2 ^ k"
    | (room) "t - ch < 2 ^ k"
    using I(3-6) by linarith
  then have "spsc_inv k q' \<and> (ok \<longleftrightarrow> length (spsc_contents k q) < 2 ^ k) \<and>
    spsc_contents k q' = (if ok then spsc_contents k q @ [Some v] else spsc_contents k q)"
  proof cases
    case full
    then have "ok = False" "q' = ?q1"
      using e full1 full2 I(7,8,10) by (simp_all add: emplace_def Let_def)
    moreover have "spsc_inv k ?q1"
      using I full by (intro spsc_invI [of k _ h h ct t]) simp_all
    ultimately show ?thesis using c1 len full by simp
  next
    case refresh
    then have "ok" "q' = spsc_construct (2 ^ k) (of_nat t) v ?q1"
      using e full1 full2 I(7,8,10) by (simp_all add: emplace_def Let_def)
    then show ?thesis
      using spsc_construct_inv(1,2) [of k ?q1 h h ct t v] spsc_construct_inv(3) [of k ?q1 h h ct t]
        I refresh c1
      by simp
  next
    case room
    then have "ok" "q' = spsc_construct (2 ^ k) (of_nat t) v q"
      using e full1 I(7,8,10) by (simp_all add: emplace_def Let_def)
    then show ?thesis
      using spsc_construct_inv(1,2) [of k q ch h ct t v] spsc_construct_inv(3) [of k q ch h ct t]
        I room
      by simp
  qed
  then show "spsc_inv k q'" "ok \<longleftrightarrow> length (spsc_contents k q) < 2 ^ k"
    "spsc_contents k q' = (if ok then spsc_contents k q @ [Some v] else spsc_contents k q)"
    by blast+
qed

lemma spsc_take_laws:
  assumes k: "k < 64" and len: "length (spsc_storage q) = 2 ^ k"
    and ord: "ch \<le> h" "h < ct" "ct \<le> t" and room: "t - ch \<le> 2 ^ k"
    and fields: "spsc_cached_head q = of_nat ch" "spsc_head q = of_nat h"
      "spsc_cached_tail q = of_nat ct" "spsc_tail q = of_nat t"
    and live: "\<forall>i. h \<le> i \<and> i < h + 2 ^ k \<longrightarrow> (spsc_storage q ! (i mod 2 ^ k) \<noteq> None \<longleftrightarrow> i < t)"
    and take: "spsc_take (2 ^ k) (of_nat h) q = (out, q')"
  shows "spsc_inv k q'" and "spsc_contents k q = out # spsc_contents k q'"
proof -
  have slot: "spsc_slot (2 ^ k) (of_nat h) = h mod 2 ^ k" using k by (rule spsc_slot_of_nat)
  have q': "q' = q\<lparr>spsc_storage := (spsc_storage q)[h mod 2 ^ k := None], spsc_head := of_nat h + 1\<rparr>"
    and out: "out = spsc_storage q ! (h mod 2 ^ k)"
    using take by (simp_all add: spsc_take_def slot Let_def)
  have "(spsc_storage q)[h mod 2 ^ k := None] ! (i mod 2 ^ k) \<noteq> None \<longleftrightarrow> i < t"
    if i: "h + 1 \<le> i" "i < h + 1 + 2 ^ k" for i
  proof (cases "i = h + 2 ^ k")
    case True
    then show ?thesis using ord room len by simp
  next
    case False
    then show ?thesis
      using i live window_mod_inj [of h i "2 ^ k" h] len by (auto simp: nth_list_update)
  qed
  then show "spsc_inv k q'"
    using k len ord room fields q'
    by (intro spsc_invI [of k _ ch "h + 1" ct t]) (simp_all add: ac_simps)
  have diff: "unat (spsc_tail q - spsc_head q) = t - h"
    using ord room pow2_less_word [OF k]
    by (simp only: fields) (rule unat_of_nat_diff, simp_all)
  have "spsc_head q \<noteq> spsc_tail q"
    using diff ord by auto
  then show "spsc_contents k q = out # spsc_contents k q'"
    using ring_contents_pop [of "spsc_head q" "spsc_tail q" "spsc_storage q" "mask k"]
      ring_contents_clear [of k "spsc_head q" "spsc_tail q" "spsc_storage q" None]
      k diff ord room fields slot
    by (simp add: spsc_contents_def q' out spsc_slot_def mask_eq_minus_1)
qed

lemma pop_laws:
  assumes inv: "spsc_inv k q" and p: "pop (2 ^ k) q = (out, q')"
  shows "spsc_inv k q'"
    and "spsc_contents k q = (case out of None \<Rightarrow> [] | Some a \<Rightarrow> a # spsc_contents k q')"
    and "out = None \<Longrightarrow> spsc_contents k q' = []"
proof -
  from inv obtain ch h ct t where I: "k < 64" "length (spsc_storage q) = 2 ^ k"
    "ch \<le> h" "h \<le> ct" "ct \<le> t" "t - ch \<le> 2 ^ k"
    "spsc_cached_head q = of_nat ch" "spsc_head q = of_nat h"
    "spsc_cached_tail q = of_nat ct" "spsc_tail q = of_nat t"
    "\<forall>i. h \<le> i \<and> i < h + 2 ^ k \<longrightarrow> (spsc_storage q ! (i mod 2 ^ k) \<noteq> None \<longleftrightarrow> i < t)"
    by (rule spsc_invE)
  let ?q1 = "q\<lparr>spsc_cached_tail := of_nat t\<rparr>"
  have eq1: "(of_nat h :: u64) = of_nat ct \<longleftrightarrow> h = ct"
    using I(3-6) pow2_less_word [OF I(1)] by (intro of_nat_eq_iff_close) simp_all
  have eq2: "(of_nat h :: u64) = of_nat t \<longleftrightarrow> h = t"
    using I(3-6) pow2_less_word [OF I(1)] by (intro of_nat_eq_iff_close) simp_all
  consider (empty) "h = ct" "h = t" | (refresh) "h = ct" "h < t" | (cached) "h < ct"
    using I(3-6) by linarith
  then have "spsc_inv k q' \<and>
    spsc_contents k q = (case out of None \<Rightarrow> [] | Some a \<Rightarrow> a # spsc_contents k q') \<and>
    (out = None \<longrightarrow> spsc_contents k q' = [])"
  proof cases
    case empty
    then have "out = None" "q' = ?q1" using p I(8-10) by (simp_all add: pop_def Let_def)
    moreover have "spsc_inv k ?q1" using I empty by (intro spsc_invI [of k _ ch h t t]) simp_all
    ultimately show ?thesis using empty I(8,10) by (simp add: spsc_contents_def)
  next
    case refresh
    obtain a q2 where take: "spsc_take (2 ^ k) (of_nat h) ?q1 = (a, q2)" by fastforce
    then have "out = Some a" "q' = q2"
      using p I(8-10) refresh eq2 by (simp_all add: pop_def Let_def split: prod.splits)
    moreover have "spsc_contents k ?q1 = spsc_contents k q" by (simp add: spsc_contents_def)
    ultimately show ?thesis
      using spsc_take_laws [of k ?q1 ch h t t a q2] take I refresh by simp
  next
    case cached
    obtain a q2 where take: "spsc_take (2 ^ k) (of_nat h) q = (a, q2)" by fastforce
    then have "out = Some a" "q' = q2"
      using p I(8-10) cached eq1 by (simp_all add: pop_def Let_def split: prod.splits)
    then show ?thesis
      using spsc_take_laws [of k q ch h ct t a q2] take I cached by simp
  qed
  then show "spsc_inv k q'"
    "spsc_contents k q = (case out of None \<Rightarrow> [] | Some a \<Rightarrow> a # spsc_contents k q')"
    "out = None \<Longrightarrow> spsc_contents k q' = []"
    by blast+
qed

lemma spsc_contents_bounded: "spsc_inv k q \<Longrightarrow> length (spsc_contents k q) \<le> 2 ^ k"
proof (erule spsc_invE)
  fix ch h ct t :: nat
  assume A: "k < 64" "ch \<le> h" "h \<le> ct" "ct \<le> t" "t - ch \<le> 2 ^ k"
    "spsc_head q = of_nat h" "spsc_tail q = of_nat t"
  then have "t - h < 2 ^ 64" using pow2_less_word [of k] by linarith
  then show ?thesis using A unat_of_nat_diff [of h t] by (simp add: spsc_contents_def)
qed

interpretation spsc: bounded_fifo "emplace (2 ^ k)" "pop (2 ^ k)" "spsc_contents k" Some
  "\<lambda>_. 2 ^ k" "spsc_inv k" for k
proof (unfold_locales, goal_cases)
  case 1 then show ?case by (rule emplace_laws(1))
next
  case 2 then show ?case by (rule emplace_laws(2))
next
  case 3 then show ?case by (rule emplace_laws(3))
next
  case 5 then show ?case by (rule pop_laws(1))
next
  case 6 then show ?case by (rule pop_laws(2))
next
  case 7 then show ?case by (rule pop_laws(3)) simp
qed simp_all

text \<open>
  Any sequence of push and pop calls on a fresh queue of capacity \<open>2 ^ k\<close> gives the results of
  the bounded FIFO of that capacity: a push is refused exactly when \<open>2 ^ k\<close> elements are queued, a
  pop returns the oldest element and always reads a live object (\<open>Some v\<close>). The 64-bit
  counters may wrap any number of times.
\<close>

theorem spsc_fifo_order:
  assumes "k < 64"
  shows "fifo_trace (emplace (2 ^ k)) (pop (2 ^ k)) ops (spsc_init (2 ^ k)) =
    fifo_trace (queue_push (2 ^ k) Some) queue_pop ops []"
  using spsc.trace_refines [OF spsc_inv_init [OF assms]] by (simp add: spsc_contents_init)

theorem spsc_fifo_order_witness:
  "(1::nat) < 64 \<and>
   fifo_trace (emplace (2 ^ 1)) (pop (2 ^ 1)) [Push (7::nat), Push 8, Push 9, Pop, Pop, Pop] (spsc_init (2 ^ 1)) =
   [Accepted True, Accepted True, Accepted False, Received (Some (Some 7)), Received (Some (Some 8)), Received None]"
  using spsc_fifo_order [of 1 "[Push (7::nat), Push 8, Push 9, Pop, Pop, Pop]"] by (simp add: queue_push_def)

lemma spsc_all_dead:
  assumes "spsc_inv k q" "spsc_contents k q = []"
  shows "list_all (\<lambda>c. c = None) (spsc_storage q)"
  using assms(1)
proof (rule spsc_invE)
  fix ch h ct t :: nat
  assume A: "k < 64" "ch \<le> h" "h \<le> ct" "ct \<le> t" "t - ch \<le> 2 ^ k" "length (spsc_storage q) = 2 ^ k"
    "spsc_head q = of_nat h" "spsc_tail q = of_nat t"
    and live: "\<forall>i. h \<le> i \<and> i < h + 2 ^ k \<longrightarrow> (spsc_storage q ! (i mod 2 ^ k) \<noteq> None \<longleftrightarrow> i < t)"
  have "t - h < 2 ^ 64" using A(2-5) pow2_less_word [OF A(1)] by linarith
  moreover have "unat (spsc_tail q - spsc_head q) = 0"
    using assms(2) by (metis length_ring_contents list.size(3) spsc_contents_def)
  ultimately have "t = h" using A(2-4,7,8) unat_of_nat_diff [of h t] by simp
  then have "spsc_storage q ! j = None" if "j < 2 ^ k" for j
    using window_mod_surj [OF that, of h] live by (metis less_le_not_le)
  then show ?thesis using A(6) by (simp add: list_all_length)
qed

text \<open>
  The destructor terminates on every state the queue can be in and leaves no live object
  in the ring: every element that was still queued is destroyed.
\<close>

theorem spsc_destroy_no_leak:
  assumes "spsc_inv k q"
  shows "\<exists>q'. spsc_destroy (2 ^ k) q = Some q' \<and> list_all (\<lambda>c. c = None) (spsc_storage q')"
  using assms
proof (induction "length (spsc_contents k q)" arbitrary: q rule: less_induct)
  case less
  obtain out q' where p: "pop (2 ^ k) q = (out, q')" by fastforce
  note laws = pop_laws [OF less.prems p]
  show ?case
  proof (cases out)
    case None
    then show ?thesis
      using spsc_all_dead [OF laws(1) laws(3)] p by (simp add: spsc_destroy.simps [of "2 ^ k" q])
  next
    case (Some a)
    then have "length (spsc_contents k q') < length (spsc_contents k q)" using laws(2) by simp
    from less.hyps [OF this laws(1)] show ?thesis
      using p Some by (simp add: spsc_destroy.simps [of "2 ^ k" q])
  qed
qed

theorem spsc_destroy_no_leak_witness:
  "spsc_inv 1 (snd (emplace (2 ^ 1) (5::nat) (spsc_init (2 ^ 1)))) \<and>
   (\<exists>q'. spsc_destroy (2 ^ 1) (snd (emplace (2 ^ 1) (5::nat) (spsc_init (2 ^ 1)))) = Some q' \<and>
     list_all (\<lambda>c. c = None) (spsc_storage q'))"
proof -
  have "spsc_inv 1 (snd (emplace (2 ^ 1) (5::nat) (spsc_init (2 ^ 1))))"
    by (rule emplace_laws(1) [OF spsc_inv_init prod.collapse [symmetric]]) simp
  with spsc_destroy_no_leak [OF this] show ?thesis by blast
qed

subsection \<open>A producer thread and a consumer thread\<close>

text \<open>
  One step is one access to shared memory together with the thread-private tests that follow
  it. \<open>spsc_sent\<close> and \<open>spsc_rcvd\<close> record the values of the completed calls that returned true.
\<close>

datatype 'a prod_pc = PIdle | PRefresh 'a u64 | PWrite 'a u64 | PPublish 'a u64

datatype 'a cons_pc =
  CIdle | CRefresh u64 | CRead u64 | CDestroy u64 "'a option" | CPublish u64 "'a option"

record 'a spsc_sys =
  spsc_queue :: "'a spsc"
  spsc_prod :: "'a prod_pc"
  spsc_cons :: "'a cons_pc"
  spsc_sent :: "'a list"
  spsc_rcvd :: "'a option list"

definition producer_step :: "u64 \<Rightarrow> 'a \<Rightarrow> 'a spsc_sys \<Rightarrow> 'a spsc_sys" where
  "producer_step Capacity x s = (let q = spsc_queue s in case spsc_prod s of
      PIdle \<Rightarrow> (let tail = spsc_tail q in
        s\<lparr>spsc_prod := if tail - spsc_cached_head q \<ge> Capacity then PRefresh x tail else PWrite x tail\<rparr>)
    | PRefresh v tail \<Rightarrow> (let h = spsc_head q in
        s\<lparr>spsc_queue := q\<lparr>spsc_cached_head := h\<rparr>,
          spsc_prod := if tail - h \<ge> Capacity then PIdle else PWrite v tail\<rparr>)
    | PWrite v tail \<Rightarrow>
        s\<lparr>spsc_queue := q\<lparr>spsc_storage := (spsc_storage q)[spsc_slot Capacity tail := Some v]\<rparr>,
          spsc_prod := PPublish v tail\<rparr>
    | PPublish v tail \<Rightarrow>
        s\<lparr>spsc_queue := q\<lparr>spsc_tail := tail + 1\<rparr>, spsc_prod := PIdle,
          spsc_sent := spsc_sent s @ [v]\<rparr>)"

definition consumer_step :: "u64 \<Rightarrow> 'a spsc_sys \<Rightarrow> 'a spsc_sys" where
  "consumer_step Capacity s = (let q = spsc_queue s in case spsc_cons s of
      CIdle \<Rightarrow> (let head = spsc_head q in
        s\<lparr>spsc_cons := if head = spsc_cached_tail q then CRefresh head else CRead head\<rparr>)
    | CRefresh head \<Rightarrow> (let t = spsc_tail q in
        s\<lparr>spsc_queue := q\<lparr>spsc_cached_tail := t\<rparr>,
          spsc_cons := if head = t then CIdle else CRead head\<rparr>)
    | CRead head \<Rightarrow> s\<lparr>spsc_cons := CDestroy head (spsc_storage q ! spsc_slot Capacity head)\<rparr>
    | CDestroy head out \<Rightarrow>
        s\<lparr>spsc_queue := q\<lparr>spsc_storage := (spsc_storage q)[spsc_slot Capacity head := None]\<rparr>,
          spsc_cons := CPublish head out\<rparr>
    | CPublish head out \<Rightarrow>
        s\<lparr>spsc_queue := q\<lparr>spsc_head := head + 1\<rparr>, spsc_cons := CIdle,
          spsc_rcvd := spsc_rcvd s @ [out]\<rparr>)"

datatype 'a spsc_event = Producer 'a | Consumer

fun spsc_step :: "u64 \<Rightarrow> 'a spsc_event \<Rightarrow> 'a spsc_sys \<Rightarrow> 'a spsc_sys" where
  "spsc_step Capacity (Producer x) s = producer_step Capacity x s"
| "spsc_step Capacity Consumer s = consumer_step Capacity s"

definition spsc_sys_init :: "u64 \<Rightarrow> 'a spsc_sys" where
  "spsc_sys_init Capacity = \<lparr>spsc_queue = spsc_init Capacity, spsc_prod = PIdle, spsc_cons = CIdle,
     spsc_sent = [], spsc_rcvd = []\<rparr>"

definition spsc_exec :: "u64 \<Rightarrow> 'a spsc_event list \<Rightarrow> 'a spsc_sys" where
  "spsc_exec Capacity es = fold (spsc_step Capacity) es (spsc_sys_init Capacity)"

text \<open>What slot number \<open>i\<close> of the window of the next \<open>2 ^ k\<close> positions holds.\<close>

definition slot_expect :: "'a spsc_sys \<Rightarrow> nat \<Rightarrow> 'a option" where
  "slot_expect s i =
     (if i < length (spsc_sent s) then
        (if i = length (spsc_rcvd s) \<and> (\<exists>hd out. spsc_cons s = CPublish hd out) then None
         else Some (spsc_sent s ! i))
      else if i = length (spsc_sent s) then
        (case spsc_prod s of PPublish v _ \<Rightarrow> Some v | _ \<Rightarrow> None)
      else None)"

definition prod_ok :: "nat \<Rightarrow> nat \<Rightarrow> 'a spsc_sys \<Rightarrow> bool" where
  "prod_ok k ch s = (let t = length (spsc_sent s) in case spsc_prod s of
      PIdle \<Rightarrow> True
    | PRefresh v tail \<Rightarrow> tail = of_nat t
    | PWrite v tail \<Rightarrow> tail = of_nat t \<and> t < ch + 2 ^ k
    | PPublish v tail \<Rightarrow> tail = of_nat t \<and> t < ch + 2 ^ k)"

definition cons_ok :: "nat \<Rightarrow> 'a spsc_sys \<Rightarrow> bool" where
  "cons_ok ct s = (let h = length (spsc_rcvd s) in case spsc_cons s of
      CIdle \<Rightarrow> True
    | CRefresh head \<Rightarrow> head = of_nat h
    | CRead head \<Rightarrow> head = of_nat h \<and> h < ct
    | CDestroy head out \<Rightarrow> head = of_nat h \<and> h < ct \<and> out = Some (spsc_sent s ! h)
    | CPublish head out \<Rightarrow> head = of_nat h \<and> h < ct \<and> out = Some (spsc_sent s ! h))"

definition conc_inv :: "nat \<Rightarrow> nat \<Rightarrow> nat \<Rightarrow> 'a spsc_sys \<Rightarrow> bool" where
  "conc_inv k ch ct s = (let q = spsc_queue s; h = length (spsc_rcvd s); t = length (spsc_sent s) in
     k < 64 \<and> length (spsc_storage q) = 2 ^ k \<and>
     ch \<le> h \<and> h \<le> ct \<and> ct \<le> t \<and> t \<le> ch + 2 ^ k \<and>
     spsc_cached_head q = of_nat ch \<and> spsc_head q = of_nat h \<and>
     spsc_cached_tail q = of_nat ct \<and> spsc_tail q = of_nat t \<and>
     spsc_rcvd s = map Some (take h (spsc_sent s)) \<and>
     (\<forall>i. h \<le> i \<and> i < h + 2 ^ k \<longrightarrow> spsc_storage q ! (i mod 2 ^ k) = slot_expect s i) \<and>
     prod_ok k ch s \<and> cons_ok ct s)"

lemma conc_inv_init: "k < 64 \<Longrightarrow> conc_inv k 0 0 (spsc_sys_init (2 ^ k))"
  by (simp add: conc_inv_def spsc_sys_init_def spsc_init_def prod_ok_def cons_ok_def
      slot_expect_def capacity_word)

lemma conc_full_test:
  assumes "conc_inv k ch ct s" "c \<le> length (spsc_rcvd s)" "ch \<le> c"
  shows "(2::u64) ^ k \<le> of_nat (length (spsc_sent s)) - of_nat c \<longleftrightarrow>
         \<not> length (spsc_sent s) < c + 2 ^ k"
proof -
  have "k < 64" "c \<le> length (spsc_sent s)" "length (spsc_sent s) - c \<le> 2 ^ k"
    using assms by (auto simp: conc_inv_def Let_def)
  from full_test [OF this] this show ?thesis by linarith
qed

lemma conc_empty_test:
  assumes "conc_inv k ch ct s" "length (spsc_rcvd s) \<le> c" "c \<le> length (spsc_sent s)"
  shows "(of_nat (length (spsc_rcvd s)) :: u64) = of_nat c \<longleftrightarrow> length (spsc_rcvd s) = c"
proof (rule of_nat_eq_iff_close)
  have "k < 64" "length (spsc_sent s) \<le> ch + 2 ^ k" "ch \<le> length (spsc_rcvd s)"
    using assms by (auto simp: conc_inv_def Let_def)
  then show "c - length (spsc_rcvd s) < 2 ^ 64" using pow2_less_word [of k] assms(3) by linarith
qed (rule assms(2))

lemma producer_step_inv:
  assumes inv: "conc_inv k ch ct s"
  shows "\<exists>ch'. conc_inv k ch' ct (producer_step (2 ^ k) x s)"
proof (cases "spsc_prod s")
  case PIdle
  have "conc_inv k ch ct (producer_step (2 ^ k) x s)"
    using inv PIdle conc_full_test [OF inv, of ch]
    by (auto simp: conc_inv_def producer_step_def prod_ok_def cons_ok_def slot_expect_def Let_def
        split: cons_pc.splits)
  then show ?thesis ..
next
  case (PRefresh v tail)
  have "conc_inv k (length (spsc_rcvd s)) ct (producer_step (2 ^ k) x s)"
    using inv PRefresh conc_full_test [OF inv, of "length (spsc_rcvd s)"]
    by (auto simp: conc_inv_def producer_step_def prod_ok_def cons_ok_def slot_expect_def Let_def
        split: cons_pc.splits)
  then show ?thesis ..
next
  case (PWrite v tail)
  let ?t = "length (spsc_sent s)" and ?h = "length (spsc_rcvd s)"
  have t: "k < 64" "tail = of_nat ?t" "?h \<le> ?t" "?t < ?h + 2 ^ k"
    using inv PWrite by (auto simp: conc_inv_def prod_ok_def Let_def)
  have slot: "spsc_slot (2 ^ k) tail = ?t mod 2 ^ k"
    using t(1,2) by (simp add: spsc_slot_of_nat)
  let ?s' = "producer_step (2 ^ k) x s"
  have "spsc_storage (spsc_queue ?s') ! (i mod 2 ^ k) = slot_expect ?s' i"
    if i: "?h \<le> i" "i < ?h + 2 ^ k" for i
  proof (cases "i = ?t")
    case True
    then show ?thesis
      using inv PWrite slot
      by (simp add: conc_inv_def producer_step_def slot_expect_def Let_def)
  next
    case False
    then have "?t mod 2 ^ k \<noteq> i mod 2 ^ k"
      using window_mod_inj [of ?h ?t "2 ^ k" i] i t(3,4) by simp
    then show ?thesis
      using inv PWrite slot False i
      by (simp add: conc_inv_def producer_step_def slot_expect_def Let_def)
  qed
  then have "conc_inv k ch ct ?s'"
    using inv PWrite
    by (simp add: conc_inv_def producer_step_def prod_ok_def cons_ok_def Let_def
        cong: cons_pc.case_cong)
  then show ?thesis ..
next
  case (PPublish v tail)
  have "conc_inv k ch ct (producer_step (2 ^ k) x s)"
    using inv PPublish
    by (auto simp: conc_inv_def producer_step_def prod_ok_def cons_ok_def slot_expect_def Let_def
        nth_append ac_simps split: cons_pc.splits)
  then show ?thesis ..
qed

lemma conc_invD:
  assumes "conc_inv k ch ct s"
  shows "k < 64" "ch \<le> length (spsc_rcvd s)" "length (spsc_rcvd s) \<le> ct" "ct \<le> length (spsc_sent s)"
    "length (spsc_sent s) \<le> ch + 2 ^ k" "length (spsc_storage (spsc_queue s)) = 2 ^ k"
  using assms by (simp_all add: conc_inv_def Let_def)

lemma conc_slots:
  assumes "conc_inv k ch ct s" "length (spsc_rcvd s) \<le> i" "i < length (spsc_rcvd s) + 2 ^ k"
  shows "spsc_storage (spsc_queue s) ! (i mod 2 ^ k) = slot_expect s i"
  using assms by (simp add: conc_inv_def Let_def)

lemmas conc_step_defs = conc_inv_def consumer_step_def prod_ok_def cons_ok_def Let_def

lemma consumer_read_inv:
  assumes inv: "conc_inv k ch ct s" and pc: "spsc_cons s = CRead head"
  shows "conc_inv k ch ct (consumer_step (2 ^ k) s)"
proof -
  let ?h = "length (spsc_rcvd s)"
  have h: "head = of_nat ?h" "?h < ct" using inv pc by (simp_all add: conc_inv_def cons_ok_def Let_def)
  then have "spsc_storage (spsc_queue s) ! spsc_slot (2 ^ k) head = Some (spsc_sent s ! ?h)"
    using conc_slots [OF inv, of ?h] pc conc_invD [OF inv]
    by (simp add: spsc_slot_of_nat slot_expect_def)
  then show ?thesis
    using inv pc by (auto simp: conc_step_defs slot_expect_def split: prod_pc.splits)
qed

lemma consumer_destroy_inv:
  assumes inv: "conc_inv k ch ct s" and pc: "spsc_cons s = CDestroy head out"
  shows "conc_inv k ch ct (consumer_step (2 ^ k) s)"
proof -
  let ?h = "length (spsc_rcvd s)" and ?s' = "consumer_step (2 ^ k) s"
  have h: "head = of_nat ?h" "?h < ct" using inv pc by (simp_all add: conc_inv_def cons_ok_def Let_def)
  have slot: "spsc_slot (2 ^ k) head = ?h mod 2 ^ k"
    using conc_invD(1) [OF inv] h(1) by (simp add: spsc_slot_of_nat)
  have "spsc_storage (spsc_queue ?s') ! (i mod 2 ^ k) = slot_expect ?s' i"
    if i: "?h \<le> i" "i < ?h + 2 ^ k" for i
  proof (cases "i = ?h")
    case True
    then show ?thesis
      using pc slot conc_invD [OF inv] h by (simp add: consumer_step_def slot_expect_def Let_def)
  next
    case False
    then have "?h mod 2 ^ k \<noteq> i mod 2 ^ k"
      using window_mod_inj [of ?h ?h "2 ^ k" i] i by simp
    then show ?thesis
      using pc slot False conc_slots [OF inv i]
      by (simp add: consumer_step_def slot_expect_def Let_def)
  qed
  then show ?thesis
    using inv pc by (simp add: conc_step_defs cong: prod_pc.case_cong)
qed

lemma consumer_publish_inv:
  assumes inv: "conc_inv k ch ct s" and pc: "spsc_cons s = CPublish head out"
  shows "conc_inv k ch ct (consumer_step (2 ^ k) s)"
proof -
  let ?t = "length (spsc_sent s)" and ?h = "length (spsc_rcvd s)" and ?s' = "consumer_step (2 ^ k) s"
  have h: "head = of_nat ?h" "?h < ct" "out = Some (spsc_sent s ! ?h)"
    using inv pc by (simp_all add: conc_inv_def cons_ok_def Let_def)
  note I = conc_invD [OF inv]
  have "spsc_storage (spsc_queue ?s') ! (i mod 2 ^ k) = slot_expect ?s' i"
    if i: "Suc ?h \<le> i" "i < Suc ?h + 2 ^ k" for i
  proof (cases "i = ?h + 2 ^ k")
    case True
    have "spsc_storage (spsc_queue s) ! (?h mod 2 ^ k) = None"
      using conc_slots [OF inv, of ?h] pc h I by (simp add: slot_expect_def)
    moreover have "spsc_prod s = PPublish v tl \<Longrightarrow> ?t < ch + 2 ^ k" for v tl
      using inv by (simp add: conc_inv_def prod_ok_def Let_def)
    ultimately show ?thesis
      using True pc I(2,5)
      by (auto simp: consumer_step_def slot_expect_def Let_def split: prod_pc.splits)
  next
    case False
    then show ?thesis
      using i conc_slots [OF inv, of i] pc by (simp add: consumer_step_def slot_expect_def Let_def)
  qed
  then show ?thesis
    using inv pc h I
    by (simp add: conc_step_defs take_Suc_conv_app_nth ac_simps cong: prod_pc.case_cong)
qed

lemma consumer_step_inv:
  assumes inv: "conc_inv k ch ct s"
  shows "\<exists>ct'. conc_inv k ch ct' (consumer_step (2 ^ k) s)"
proof (cases "spsc_cons s")
  case CIdle
  have "conc_inv k ch ct (consumer_step (2 ^ k) s)"
    using inv CIdle conc_empty_test [OF inv, of ct]
    by (auto simp: conc_step_defs slot_expect_def split: prod_pc.splits)
  then show ?thesis ..
next
  case (CRefresh head)
  have "conc_inv k ch (length (spsc_sent s)) (consumer_step (2 ^ k) s)"
    using inv CRefresh conc_empty_test [OF inv, of "length (spsc_sent s)"]
    by (auto simp: conc_step_defs slot_expect_def split: prod_pc.splits)
  then show ?thesis ..
qed (use consumer_read_inv consumer_destroy_inv consumer_publish_inv inv in blast)+

lemma spsc_exec_inv: "k < 64 \<Longrightarrow> \<exists>ch ct. conc_inv k ch ct (spsc_exec (2 ^ k) es)"
proof (induction es rule: rev_induct)
  case Nil
  then show ?case using conc_inv_init by (auto simp: spsc_exec_def)
next
  case (snoc e es)
  then obtain ch ct where "conc_inv k ch ct (spsc_exec (2 ^ k) es)" by blast
  then show ?case
    using producer_step_inv consumer_step_inv by (cases e) (fastforce simp: spsc_exec_def)+
qed

text \<open>
  C12: under every interleaving of the producer's and the consumer's memory accesses, the values
  received so far are a prefix of the values sent so far, each read while it was alive, and at
  most \<open>2 ^ k\<close> values are in flight.
\<close>

theorem spsc_concurrent_fifo:
  assumes "k < 64"
  shows "let s = spsc_exec (2 ^ k) es in
    spsc_rcvd s = map Some (take (length (spsc_rcvd s)) (spsc_sent s)) \<and>
    length (spsc_rcvd s) \<le> length (spsc_sent s) \<and>
    length (spsc_sent s) \<le> length (spsc_rcvd s) + 2 ^ k"
  using spsc_exec_inv [OF assms, of es] by (auto simp: conc_inv_def Let_def)

theorem spsc_concurrent_fifo_witness:
  "(1::nat) < 64 \<and> (let s = spsc_exec (2 ^ 1)
      [Producer (4::nat), Consumer, Producer 0, Producer 0, Consumer, Consumer, Producer 6, Consumer, Consumer] in
    spsc_rcvd s = map Some (take (length (spsc_rcvd s)) (spsc_sent s)) \<and>
    length (spsc_rcvd s) \<le> length (spsc_sent s) \<and>
    length (spsc_sent s) \<le> length (spsc_rcvd s) + 2 ^ 1) \<and>
   spsc_rcvd (spsc_exec 2
      [Producer (4::nat), Consumer, Producer 0, Producer 0, Consumer, Consumer, Producer 6, Consumer, Consumer])
     = [Some 4]"
proof (intro conjI)
  show "(1::nat) < 64" by simp
  then show "let s = spsc_exec (2 ^ 1)
      [Producer (4::nat), Consumer, Producer 0, Producer 0, Consumer, Consumer, Producer 6, Consumer, Consumer] in
    spsc_rcvd s = map Some (take (length (spsc_rcvd s)) (spsc_sent s)) \<and>
    length (spsc_rcvd s) \<le> length (spsc_sent s) \<and>
    length (spsc_sent s) \<le> length (spsc_rcvd s) + 2 ^ 1"
    by (rule spsc_concurrent_fifo)
qed (simp add: spsc_exec_def spsc_sys_init_def spsc_init_def producer_step_def consumer_step_def
    spsc_slot_def word_le_nat_alt Let_def)

text \<open>
  The two threads never touch the same slot: whenever the producer is about to construct an
  element and the consumer is about to read or destroy one, the slots differ.
\<close>

theorem spsc_no_slot_race:
  assumes "k < 64" and "spsc_prod (spsc_exec (2 ^ k) es) = PWrite v tail"
    and "spsc_cons (spsc_exec (2 ^ k) es) = CRead head \<or>
         spsc_cons (spsc_exec (2 ^ k) es) = CDestroy head out"
  shows "spsc_slot (2 ^ k) tail \<noteq> spsc_slot (2 ^ k) head"
proof -
  let ?s = "spsc_exec (2 ^ k) es"
  from spsc_exec_inv [OF assms(1)] obtain ch ct where inv: "conc_inv k ch ct ?s" by blast
  have t: "tail = of_nat (length (spsc_sent ?s))" "length (spsc_sent ?s) < ch + 2 ^ k"
    using inv assms(2) by (simp_all add: conc_inv_def prod_ok_def Let_def)
  have h: "head = of_nat (length (spsc_rcvd ?s))" "length (spsc_rcvd ?s) < ct"
    using inv assms(3) by (auto simp: conc_inv_def cons_ok_def Let_def)
  show ?thesis
    using conc_invD [OF inv] t h
      window_mod_inj [of "length (spsc_rcvd ?s)" "length (spsc_sent ?s)" "2 ^ k" "length (spsc_rcvd ?s)"]
    by (simp add: spsc_slot_of_nat)
qed

lemmas spsc_exec_eval = spsc_exec_def spsc_sys_init_def spsc_init_def producer_step_def
  consumer_step_def spsc_slot_def word_le_nat_alt Let_def

theorem spsc_no_slot_race_witness:
  "spsc_prod (spsc_exec (2 ^ 1) [Producer (4::nat), Producer 0, Producer 0, Producer 5, Consumer, Consumer])
     = PWrite 5 1 \<and>
   spsc_cons (spsc_exec (2 ^ 1) [Producer (4::nat), Producer 0, Producer 0, Producer 5, Consumer, Consumer])
     = CRead 0 \<and>
   spsc_slot (2 ^ 1) 1 \<noteq> spsc_slot (2 ^ 1) 0"
proof -
  have p: "spsc_prod (spsc_exec (2 ^ 1) [Producer (4::nat), Producer 0, Producer 0, Producer 5, Consumer, Consumer])
     = PWrite 5 1" by (simp add: spsc_exec_eval)
  have c: "spsc_cons (spsc_exec (2 ^ 1) [Producer (4::nat), Producer 0, Producer 0, Producer 5, Consumer, Consumer])
     = CRead 0" by (simp add: spsc_exec_eval)
  from spsc_no_slot_race [OF _ p disjI1 [OF c]] p c show ?thesis by simp
qed

subsection \<open>Wait-freedom\<close>

fun prod_rank :: "'a prod_pc \<Rightarrow> nat" where
  "prod_rank PIdle = 0"
| "prod_rank (PPublish v t) = 1"
| "prod_rank (PWrite v t) = 2"
| "prod_rank (PRefresh v t) = 3"

fun cons_rank :: "'a cons_pc \<Rightarrow> nat" where
  "cons_rank CIdle = 0"
| "cons_rank (CPublish h x) = 1"
| "cons_rank (CDestroy h x) = 2"
| "cons_rank (CRead h) = 3"
| "cons_rank (CRefresh h) = 4"

lemma producer_step_rank:
  "spsc_prod s \<noteq> PIdle \<Longrightarrow> prod_rank (spsc_prod (producer_step c x s)) < prod_rank (spsc_prod s)"
  by (cases "spsc_prod s") (auto simp: producer_step_def Let_def)

lemma consumer_step_rank:
  "spsc_cons s \<noteq> CIdle \<Longrightarrow> cons_rank (spsc_cons (consumer_step c s)) < cons_rank (spsc_cons s)"
  by (cases "spsc_cons s") (auto simp: consumer_step_def Let_def)

lemma consumer_step_prod [simp]: "spsc_prod (consumer_step c s) = spsc_prod s"
  by (cases "spsc_cons s") (simp_all add: consumer_step_def Let_def)

lemma producer_step_cons [simp]: "spsc_cons (producer_step c x s) = spsc_cons s"
  by (cases "spsc_prod s") (simp_all add: producer_step_def Let_def)

lemma producer_finishes:
  assumes "prod_rank (spsc_prod s) \<le> length (filter (\<lambda>e. e \<noteq> Consumer) es)"
  shows "\<exists>n \<le> length es. spsc_prod (fold (spsc_step c) (take n es) s) = PIdle"
  using assms
proof (induction es arbitrary: s)
  case Nil
  then show ?case by (cases "spsc_prod s") auto
next
  case (Cons e es)
  show ?case
  proof (cases "spsc_prod s = PIdle")
    case True
    then show ?thesis by (intro exI [of _ 0]) simp
  next
    case False
    have "prod_rank (spsc_prod (spsc_step c e s)) \<le> length (filter (\<lambda>e. e \<noteq> Consumer) es)"
      using Cons.prems producer_step_rank [OF False, of c]
      by (cases e) (auto, metis less_Suc_eq_le less_le_trans)
    from Cons.IH [OF this] obtain n where "n \<le> length es"
      "spsc_prod (fold (spsc_step c) (take n es) (spsc_step c e s)) = PIdle" by blast
    then show ?thesis by (intro exI [of _ "Suc n"]) simp
  qed
qed

lemma consumer_finishes:
  assumes "cons_rank (spsc_cons s) \<le> length (filter (\<lambda>e. e = Consumer) es)"
  shows "\<exists>n \<le> length es. spsc_cons (fold (spsc_step c) (take n es) s) = CIdle"
  using assms
proof (induction es arbitrary: s)
  case Nil
  then show ?case by (cases "spsc_cons s") auto
next
  case (Cons e es)
  show ?case
  proof (cases "spsc_cons s = CIdle")
    case True
    then show ?thesis by (intro exI [of _ 0]) simp
  next
    case False
    have "cons_rank (spsc_cons (spsc_step c e s)) \<le> length (filter (\<lambda>e. e = Consumer) es)"
      using Cons.prems consumer_step_rank [OF False, of c] by (cases e) auto
    from Cons.IH [OF this] obtain n where "n \<le> length es"
      "spsc_cons (fold (spsc_step c) (take n es) (spsc_step c e s)) = CIdle" by blast
    then show ?thesis by (intro exI [of _ "Suc n"]) simp
  qed
qed

text \<open>
  C40: push and pop are wait-free: whatever the other thread does, a call in progress has returned
  once its own thread has been scheduled for three (push) or four (pop) further steps.
\<close>

theorem spsc_wait_free:
  "(3 \<le> length (filter (\<lambda>e. e \<noteq> Consumer) es) \<longrightarrow>
     (\<exists>n \<le> length es. spsc_prod (fold (spsc_step Capacity) (take n es) s) = PIdle)) \<and>
   (4 \<le> length (filter (\<lambda>e. e = Consumer) es) \<longrightarrow>
     (\<exists>n \<le> length es. spsc_cons (fold (spsc_step Capacity) (take n es) s) = CIdle))"
proof (intro conjI impI)
  have "prod_rank (spsc_prod s) \<le> 3" by (cases "spsc_prod s") auto
  also assume "3 \<le> length (filter (\<lambda>e. e \<noteq> Consumer) es)"
  finally show "\<exists>n \<le> length es. spsc_prod (fold (spsc_step Capacity) (take n es) s) = PIdle"
    by (rule producer_finishes)
next
  have "cons_rank (spsc_cons s) \<le> 4" by (cases "spsc_cons s") auto
  also assume "4 \<le> length (filter (\<lambda>e. e = Consumer) es)"
  finally show "\<exists>n \<le> length es. spsc_cons (fold (spsc_step Capacity) (take n es) s) = CIdle"
    by (rule consumer_finishes)
qed

theorem spsc_wait_free_witness:
  "(\<exists>n \<le> 5. spsc_prod (fold (spsc_step 2)
     (take n [Producer (1::nat), Consumer, Producer 1, Consumer, Producer 1]) (spsc_exec 2 [Producer 9])) = PIdle) \<and>
   (\<exists>n \<le> 4. spsc_cons (fold (spsc_step 2)
     (take n [Consumer, Consumer, Consumer, Consumer]) (spsc_exec 2 [Producer (9::nat), Consumer])) = CIdle)"
  using spsc_wait_free [of "[Producer (1::nat), Consumer, Producer 1, Consumer, Producer 1]" 2 "spsc_exec 2 [Producer 9]"]
    spsc_wait_free [of "[Consumer, Consumer, Consumer, Consumer]" 2 "spsc_exec 2 [Producer (9::nat), Consumer]"]
  by (simp add: eval_nat_numeral)

end
