(* ===== verification/Order_Book.thy ===== *)
theory Order_Book
  imports Sys_Prelude
begin

text \<open>
  The fixed-size level-2 order book of \<^verbatim>\<open>12-capstone-systems/01-shm-orderbook-feed/orderbook.hpp\<close>.
  Each side is an array of \<open>MAX_DEPTH\<close> levels with a count, searched and shifted by index loops.
  Prices are \<open>double\<close>s in the code and reals here: they are only copied and compared, except in
  \<open>mid_price\<close> and \<open>spread\<close>, whose rounding is not modelled; NaN prices are outside the model.

  The reference is a map from prices to quantity and order count. The loops are first shown to
  compute list functions, and those to implement the map as long as a side never has more than
  \<open>MAX_DEPTH\<close> live prices.
\<close>

subsection \<open>The code\<close>

datatype Side = BUY | SELL

record PriceLevel =
  lvl_price :: real
  lvl_qty :: u32
  lvl_count :: u32

definition MAX_DEPTH :: nat where
  "MAX_DEPTH = 32"

record L2OrderBook =
  bids :: "PriceLevel list"
  asks :: "PriceLevel list"
  bid_count :: nat
  ask_count :: nat

definition empty_level :: PriceLevel where
  "empty_level = \<lparr>lvl_price = 0, lvl_qty = 0, lvl_count = 0\<rparr>"

definition book_init :: L2OrderBook where
  "book_init = \<lparr>bids = replicate MAX_DEPTH empty_level, asks = replicate MAX_DEPTH empty_level,
     bid_count = 0, ask_count = 0\<rparr>"

function find_level :: "PriceLevel list \<Rightarrow> nat \<Rightarrow> real \<Rightarrow> nat \<Rightarrow> nat option" where
  "find_level levels count price i =
     (if i < count then
        if lvl_price (levels ! i) = price then Some i else find_level levels count price (i + 1)
      else None)"
  by pat_completeness auto
termination by (relation "measure (\<lambda>(_, count, _, i). count - i)") auto

function shift_down :: "PriceLevel list \<Rightarrow> nat \<Rightarrow> nat \<Rightarrow> PriceLevel list" where
  "shift_down levels count j =
     (if j + 1 < count then shift_down (levels[j := levels ! (j + 1)]) count (j + 1) else levels)"
  by pat_completeness auto
termination by (relation "measure (\<lambda>(_, count, j). count - j)") auto

function find_insert_pos :: "(real \<Rightarrow> real \<Rightarrow> bool) \<Rightarrow> PriceLevel list \<Rightarrow> nat \<Rightarrow> real \<Rightarrow> nat \<Rightarrow> nat" where
  "find_insert_pos cmp levels count price i =
     (if i < count then
        if cmp price (lvl_price (levels ! i)) then i else find_insert_pos cmp levels count price (i + 1)
      else count)"
  by pat_completeness auto
termination by (relation "measure (\<lambda>(_, _, count, _, i). count - i)") auto

fun shift_up :: "PriceLevel list \<Rightarrow> nat \<Rightarrow> nat \<Rightarrow> PriceLevel list" where
  "shift_up levels pos 0 = levels"
| "shift_up levels pos (Suc j) =
     (if Suc j > pos then shift_up (levels[Suc j := levels ! j]) pos j else levels)"

declare find_level.simps [simp del] shift_down.simps [simp del] find_insert_pos.simps [simp del]

definition update_side :: "(real \<Rightarrow> real \<Rightarrow> bool) \<Rightarrow> PriceLevel list \<Rightarrow> nat \<Rightarrow> real \<Rightarrow> u32 \<Rightarrow> u32
    \<Rightarrow> PriceLevel list \<times> nat" where
  "update_side cmp levels count price qty order_count =
     (case find_level levels count price 0 of
        Some i \<Rightarrow>
          if qty = 0 then (shift_down levels count i, count - 1)
          else (levels[i := (levels ! i)\<lparr>lvl_qty := qty, lvl_count := order_count\<rparr>], count)
      | None \<Rightarrow>
          if qty = 0 then (levels, count)
          else
            let insert_pos = find_insert_pos cmp levels count price 0 in
            if insert_pos < MAX_DEPTH then
              let limit = min (count + 1) MAX_DEPTH;
                  levels1 = shift_up levels insert_pos (limit - 1)
              in (levels1[insert_pos := \<lparr>lvl_price = price, lvl_qty = qty, lvl_count = order_count\<rparr>],
                  if count < MAX_DEPTH then count + 1 else count)
            else (levels, count))"

definition update_level :: "Side \<Rightarrow> real \<Rightarrow> u32 \<Rightarrow> u32 \<Rightarrow> L2OrderBook \<Rightarrow> L2OrderBook" where
  "update_level side price qty count b =
     (case side of
        BUY \<Rightarrow> (let (l, c) = update_side (\<lambda>x y. x > y) (bids b) (bid_count b) price qty count
                in b\<lparr>bids := l, bid_count := c\<rparr>)
      | SELL \<Rightarrow> (let (l, c) = update_side (\<lambda>x y. x < y) (asks b) (ask_count b) price qty count
                in b\<lparr>asks := l, ask_count := c\<rparr>))"

definition best_bid :: "L2OrderBook \<Rightarrow> PriceLevel option" where
  "best_bid b = (if bid_count b = 0 then None else Some (bids b ! 0))"

definition best_ask :: "L2OrderBook \<Rightarrow> PriceLevel option" where
  "best_ask b = (if ask_count b = 0 then None else Some (asks b ! 0))"

definition mid_price :: "L2OrderBook \<Rightarrow> real" where
  "mid_price b =
     (if bid_count b > 0 \<and> ask_count b > 0 then (lvl_price (bids b ! 0) + lvl_price (asks b ! 0)) * (1 / 2)
      else if bid_count b > 0 then lvl_price (bids b ! 0)
      else if ask_count b > 0 then lvl_price (asks b ! 0)
      else 0)"

definition spread :: "L2OrderBook \<Rightarrow> real" where
  "spread b =
     (if bid_count b > 0 \<and> ask_count b > 0 then lvl_price (asks b ! 0) - lvl_price (bids b ! 0) else 0)"

definition bid_depth :: "L2OrderBook \<Rightarrow> nat" where
  "bid_depth b = bid_count b"

definition ask_depth :: "L2OrderBook \<Rightarrow> nat" where
  "ask_depth b = ask_count b"

definition book_clear :: "L2OrderBook \<Rightarrow> L2OrderBook" where
  "book_clear b = b\<lparr>bid_count := 0, ask_count := 0\<rparr>"

subsection \<open>The loops as list functions\<close>

lemma find_level_None:
  "find_level levels count price i = None \<longleftrightarrow> (\<forall>j. i \<le> j \<and> j < count \<longrightarrow> lvl_price (levels ! j) \<noteq> price)"
proof (induction levels count price i rule: find_level.induct)
  case (1 levels count price i)
  show ?case
  proof (cases "i < count \<and> lvl_price (levels ! i) \<noteq> price")
    case True
    then have "find_level levels count price i = find_level levels count price (i + 1)"
      by (simp add: find_level.simps [of levels count price i])
    moreover have "(i \<le> j \<and> j < count) \<longleftrightarrow> (j = i \<or> i + 1 \<le> j \<and> j < count)" for j using True by auto
    ultimately show ?thesis using 1 True by auto
  next
    case False
    then show ?thesis by (auto simp: find_level.simps [of levels count price i])
  qed
qed

lemma find_level_Some:
  "find_level levels count price i = Some k \<Longrightarrow> i \<le> k \<and> k < count \<and> lvl_price (levels ! k) = price"
  by (induction levels count price i rule: find_level.induct)
    (subst (asm) (2) find_level.simps, auto split: if_splits)

lemma shift_down_nth:
  "count \<le> length levels \<Longrightarrow> length (shift_down levels count j) = length levels \<and>
    (\<forall>i < length levels. shift_down levels count j ! i =
       (if j \<le> i \<and> i + 1 < count then levels ! (i + 1) else levels ! i))"
proof (induction levels count j rule: shift_down.induct)
  case (1 levels count j)
  show ?case
  proof (cases "j + 1 < count")
    case True
    with 1 have IH: "length (shift_down levels count j) = length levels"
      "\<And>i. i < length levels \<Longrightarrow> shift_down levels count j ! i =
        (if j + 1 \<le> i \<and> i + 1 < count then levels[j := levels ! (j + 1)] ! (i + 1)
         else levels[j := levels ! (j + 1)] ! i)"
      by (simp_all add: shift_down.simps [of levels count j])
    then show ?thesis using True 1(2) by (auto simp: nth_list_update)
  next
    case False
    then show ?thesis by (auto simp: shift_down.simps [of levels count j])
  qed
qed

lemma shift_up_nth:
  "j < length levels \<Longrightarrow> length (shift_up levels pos j) = length levels \<and>
    (\<forall>i < length levels. shift_up levels pos j ! i =
       (if pos < i \<and> i \<le> j then levels ! (i - 1) else levels ! i))"
proof (induction levels pos j rule: shift_up.induct)
  case (2 levels pos j)
  show ?case
  proof (cases "Suc j > pos")
    case True
    with 2 show ?thesis by (auto simp: nth_list_update le_Suc_eq)
  next
    case False
    then show ?thesis by auto
  qed
qed auto

lemma length_shift_up [simp]: "length (shift_up levels pos j) = length levels"
  by (induction levels pos j rule: shift_up.induct) auto

lemma find_insert_pos_eq:
  assumes "count \<le> length levels" "i \<le> count"
  shows "find_insert_pos cmp levels count price i =
     i + length (takeWhile (\<lambda>l. \<not> cmp price (lvl_price l)) (drop i (take count levels)))"
  using assms
proof (induction cmp levels count price i rule: find_insert_pos.induct)
  case (1 cmp levels count price i)
  show ?case
  proof (cases "i < count")
    case True
    then have "drop i (take count levels) = levels ! i # drop (Suc i) (take count levels)"
      using 1(2) by (subst Cons_nth_drop_Suc [symmetric]) auto
    then show ?thesis using 1 True by (simp add: find_insert_pos.simps [of cmp levels count price i])
  next
    case False
    then show ?thesis using 1(3) by (simp add: find_insert_pos.simps [of cmp levels count price count])
  qed
qed

lemma take_shift_down:
  assumes "j < count" "count \<le> length levels"
  shows "take (count - 1) (shift_down levels count j) = take j levels @ drop (Suc j) (take count levels)"
  using assms shift_down_nth [OF assms(2), of j]
  by (intro nth_equalityI) (auto simp: nth_append)

lemma take_shift_up:
  assumes "pos \<le> count" "count < length levels"
  shows "take (Suc count) ((shift_up levels pos count)[pos := x]) =
    take pos levels @ x # drop pos (take count levels)"
  using assms shift_up_nth [OF assms(2), of pos]
  by (intro nth_equalityI)
    (auto simp: nth_append nth_Cons nth_list_update split: nat.split intro!: arg_cong [where f = "(!) levels"])

subsection \<open>One side against the specification\<close>

text \<open>The list specification: replace the level of that price, keep the best \<open>MAX_DEPTH\<close>.\<close>

definition insert_level :: "(real \<Rightarrow> real \<Rightarrow> bool) \<Rightarrow> PriceLevel \<Rightarrow> PriceLevel list \<Rightarrow> PriceLevel list" where
  "insert_level cmp x ls =
     takeWhile (\<lambda>l. \<not> cmp (lvl_price x) (lvl_price l)) ls @ x # dropWhile (\<lambda>l. \<not> cmp (lvl_price x) (lvl_price l)) ls"

lemma length_insert_level [simp]: "length (insert_level cmp x ls) = Suc (length ls)"
  by (induction ls) (auto simp: insert_level_def)

lemma set_insert_level [simp]: "set (insert_level cmp x ls) = insert x (set ls)"
  unfolding insert_level_def by (metis set_append list.simps(15) Un_insert_right takeWhile_dropWhile_id)

definition spec_side :: "(real \<Rightarrow> real \<Rightarrow> bool) \<Rightarrow> real \<Rightarrow> u32 \<Rightarrow> u32 \<Rightarrow> PriceLevel list \<Rightarrow> PriceLevel list" where
  "spec_side cmp price qty count ls =
     (let rest = filter (\<lambda>l. lvl_price l \<noteq> price) ls in
      if qty = 0 then rest
      else take MAX_DEPTH (insert_level cmp \<lparr>lvl_price = price, lvl_qty = qty, lvl_count = count\<rparr> rest))"

definition side_inv :: "(real \<Rightarrow> real \<Rightarrow> bool) \<Rightarrow> PriceLevel list \<Rightarrow> nat \<Rightarrow> bool" where
  "side_inv cmp levels count \<longleftrightarrow> length levels = MAX_DEPTH \<and> count \<le> MAX_DEPTH \<and>
     sorted_wrt (\<lambda>x y. cmp (lvl_price x) (lvl_price y)) (take count levels) \<and>
     (\<forall>l \<in> set (take count levels). lvl_qty l \<noteq> 0)"

text \<open>A side as a finite map, and the map operation an update stands for.\<close>

definition side_map :: "PriceLevel list \<Rightarrow> real \<rightharpoonup> u32 \<times> u32" where
  "side_map ls = map_of (map (\<lambda>l. (lvl_price l, (lvl_qty l, lvl_count l))) ls)"

definition map_update :: "real \<Rightarrow> u32 \<Rightarrow> u32 \<Rightarrow> (real \<rightharpoonup> u32 \<times> u32) \<Rightarrow> real \<rightharpoonup> u32 \<times> u32" where
  "map_update price qty count m = (if qty = 0 then m(price := None) else m(price \<mapsto> (qty, count)))"

lemma side_map_simps [simp]:
  "side_map [] = Map.empty" "side_map (l # ls) = (side_map ls)(lvl_price l \<mapsto> (lvl_qty l, lvl_count l))"
  by (simp_all add: side_map_def)

lemma dom_side_map: "dom (side_map ls) = lvl_price ` set ls"
  by (simp add: side_map_def dom_map_of_conv_image_fst image_image)

lemma finite_dom_side_map [simp]: "finite (dom (side_map ls))"
  by (simp add: dom_side_map)

lemma side_map_filter: "side_map (filter (\<lambda>l. lvl_price l \<noteq> p) ls) = (side_map ls)(p := None)"
  by (induction ls) (auto simp: fun_eq_iff)

lemma side_map_insert:
  "\<forall>l \<in> set ls. lvl_price l \<noteq> lvl_price x \<Longrightarrow>
   side_map (insert_level cmp x ls) = (side_map ls)(lvl_price x \<mapsto> (lvl_qty x, lvl_count x))"
  by (induction ls) (auto simp: insert_level_def fun_upd_twist)

text \<open>The order a comparator gives to the prices: what both lambdas of \<open>update_level\<close> satisfy.\<close>

locale price_order =
  fixes cmp :: "real \<Rightarrow> real \<Rightarrow> bool"
  assumes irrefl: "\<not> cmp x x"
    and trans: "cmp x y \<Longrightarrow> cmp y z \<Longrightarrow> cmp x z"
    and total: "x \<noteq> y \<Longrightarrow> cmp x y \<or> cmp y x"
begin

abbreviation ordered :: "PriceLevel list \<Rightarrow> bool" where
  "ordered \<equiv> sorted_wrt (\<lambda>x y. cmp (lvl_price x) (lvl_price y))"

lemma ordered_split_unique:
  assumes "ordered (xs @ x # ys)"
  shows "filter (\<lambda>l. lvl_price l \<noteq> lvl_price x) (xs @ x # ys) = xs @ ys"
proof -
  have "\<forall>l \<in> set xs. lvl_price l \<noteq> lvl_price x" "\<forall>l \<in> set ys. lvl_price l \<noteq> lvl_price x"
    using assms irrefl by (auto simp: sorted_wrt_append)
  then show ?thesis by simp
qed

lemma insert_ordered:
  assumes "ordered ls" "\<forall>l \<in> set ls. lvl_price l \<noteq> lvl_price x"
  shows "ordered (insert_level cmp x ls)"
  using assms
proof (induction ls)
  case (Cons l ls)
  then have "cmp (lvl_price x) (lvl_price l) \<or> cmp (lvl_price l) (lvl_price x)" using total by simp
  moreover have "set (takeWhile (\<lambda>l. \<not> cmp (lvl_price x) (lvl_price l)) ls @
      x # dropWhile (\<lambda>l. \<not> cmp (lvl_price x) (lvl_price l)) ls) = insert x (set ls)"
    using set_insert_level [of cmp x ls] by (simp add: insert_level_def)
  ultimately show ?case
    using Cons trans [of "lvl_price x" "lvl_price l"] by (auto simp: insert_level_def)
qed (simp add: insert_level_def)

lemma insert_at_replaced:
  assumes "ordered (xs @ x # ys)" "lvl_price y = lvl_price x"
  shows "insert_level cmp y (xs @ ys) = xs @ y # ys"
proof -
  have "\<forall>l \<in> set xs. \<not> cmp (lvl_price y) (lvl_price l)"
  proof (intro ballI notI)
    fix l assume l: "l \<in> set xs" and c: "cmp (lvl_price y) (lvl_price l)"
    have "cmp (lvl_price l) (lvl_price x)" using assms(1) l by (simp add: sorted_wrt_append)
    with c have "cmp (lvl_price y) (lvl_price x)" by (rule trans)
    then show False using irrefl assms(2) by simp
  qed
  moreover have "takeWhile (\<lambda>l. \<not> cmp (lvl_price y) (lvl_price l)) ys = []"
    "dropWhile (\<lambda>l. \<not> cmp (lvl_price y) (lvl_price l)) ys = ys"
    using assms by (cases ys; simp add: sorted_wrt_append)+
  ultimately show ?thesis by (simp add: insert_level_def)
qed

lemma insert_level_nth:
  "insert_level cmp x ls = (let p = length (takeWhile (\<lambda>l. \<not> cmp (lvl_price x) (lvl_price l)) ls)
     in take p ls @ x # drop p ls)"
  by (simp add: insert_level_def Let_def takeWhile_eq_take [symmetric] dropWhile_eq_drop [symmetric])

lemma side_invI:
  assumes "length levels = MAX_DEPTH" "count \<le> MAX_DEPTH" "take count levels = ls" "ordered ls"
    "\<forall>l \<in> set ls. lvl_qty l \<noteq> 0"
  shows "side_inv cmp levels count"
  using assms by (simp add: side_inv_def)

lemma update_side_found:
  assumes inv: "side_inv cmp levels count" and f: "find_level levels count price 0 = Some i"
    and u: "update_side cmp levels count price qty oc = (levels', count')"
  shows "take count' levels' = spec_side cmp price qty oc (take count levels)"
    "length levels' = MAX_DEPTH" "count' \<le> MAX_DEPTH"
proof -
  let ?ls = "take count levels"
  have i: "i < count" "lvl_price (levels ! i) = price" using find_level_Some [OF f] by auto
  have len: "length levels = MAX_DEPTH" "count \<le> MAX_DEPTH" and ord: "ordered ?ls"
    using inv by (auto simp: side_inv_def)
  have sp: "?ls = take i levels @ levels ! i # drop (Suc i) ?ls"
    using id_take_nth_drop [of i ?ls] i len by (simp add: min_absorb2)
  have rest: "filter (\<lambda>l. lvl_price l \<noteq> price) ?ls = take i levels @ drop (Suc i) ?ls"
    using ordered_split_unique [of "take i levels" "levels ! i" "drop (Suc i) ?ls"] ord sp i(2) by metis
  show "length levels' = MAX_DEPTH" "count' \<le> MAX_DEPTH"
    using u f len shift_down_nth [of count levels i] by (auto simp: update_side_def split: if_splits)
  show "take count' levels' = spec_side cmp price qty oc ?ls"
  proof (cases "qty = 0")
    case True
    then show ?thesis
      using u f i len rest take_shift_down [of i count levels]
      by (auto simp: update_side_def spec_side_def Let_def)
  next
    case False
    let ?new = "\<lparr>lvl_price = price, lvl_qty = qty, lvl_count = oc\<rparr>"
    have e: "(levels ! i)\<lparr>lvl_qty := qty, lvl_count := oc\<rparr> = ?new" using i(2) by simp
    have "take count' levels' = ?ls[i := ?new]"
      using u f False e by (auto simp: update_side_def take_update_swap)
    also have "\<dots> = take i levels @ ?new # drop (Suc i) ?ls"
      using i len by (simp add: upd_conv_take_nth_drop min_absorb2)
    also have "\<dots> = insert_level cmp ?new (take i levels @ drop (Suc i) ?ls)"
      using insert_at_replaced [of "take i levels" "levels ! i" "drop (Suc i) ?ls" ?new] ord sp i(2) by simp
    finally show ?thesis
      using False rest len i by (simp add: spec_side_def Let_def)
  qed
qed

lemma update_side_insert:
  assumes inv: "side_inv cmp levels count" and f: "find_level levels count price 0 = None"
    and u: "update_side cmp levels count price qty oc = (levels', count')"
  shows "take count' levels' = spec_side cmp price qty oc (take count levels)"
    "length levels' = MAX_DEPTH" "count' \<le> MAX_DEPTH"
proof -
  let ?ls = "take count levels"
  let ?new = "\<lparr>lvl_price = price, lvl_qty = qty, lvl_count = oc\<rparr>"
  define pos where "pos = length (takeWhile (\<lambda>l. \<not> cmp price (lvl_price l)) ?ls)"
  have len: "length levels = MAX_DEPTH" "count \<le> MAX_DEPTH" using inv by (auto simp: side_inv_def)
  have rest: "filter (\<lambda>l. lvl_price l \<noteq> price) ?ls = ?ls"
  proof (rule filter_True, rule ballI)
    fix l assume "l \<in> set ?ls"
    then obtain j where "j < count" "l = levels ! j" using len by (auto simp: in_set_conv_nth)
    then show "lvl_price l \<noteq> price" using f find_level_None [of levels count price 0] by simp
  qed
  have pos: "find_insert_pos cmp levels count price 0 = pos" "pos \<le> count"
    using find_insert_pos_eq [of count levels 0 cmp price] length_takeWhile_le [of _ ?ls] len by (auto simp: pos_def)
  have spec: "qty \<noteq> 0 \<Longrightarrow> spec_side cmp price qty oc ?ls = take MAX_DEPTH (take pos ?ls @ ?new # drop pos ?ls)"
    using rest insert_level_nth [of ?new ?ls] by (simp add: spec_side_def Let_def pos_def)
  show "length levels' = MAX_DEPTH" "count' \<le> MAX_DEPTH"
    using u f len by (auto simp: update_side_def Let_def MAX_DEPTH_def split: if_splits)
  show "take count' levels' = spec_side cmp price qty oc ?ls"
  proof (cases "qty = 0")
    case True
    then show ?thesis using u f rest by (simp add: update_side_def spec_side_def Let_def)
  next
    case nz: False
    show ?thesis
    proof (cases "pos < MAX_DEPTH")
      case False
      then have "pos = MAX_DEPTH" "count = MAX_DEPTH" using pos(2) len(2) by auto
      then show ?thesis using u f nz pos(1) len spec [OF nz] by (simp add: update_side_def)
    next
      case True
      let ?n = "min (count + 1) MAX_DEPTH - 1"
      have "take count' levels' = take (Suc ?n) ((shift_up levels pos ?n)[pos := ?new])"
        using u f nz pos(1) True len by (auto simp: update_side_def Let_def min_def split: if_splits)
      also have "\<dots> = take pos levels @ ?new # drop pos (take ?n levels)"
        using True pos(2) len by (intro take_shift_up) (auto simp: min_def)
      finally have e: "take count' levels' = take pos levels @ ?new # drop pos (take ?n levels)" .
      show ?thesis
      proof (cases "count < MAX_DEPTH")
        case True
        then show ?thesis using e spec [OF nz] pos(2) len by (simp add: min_absorb1 min_absorb2)
      next
        case False
        then have "count = MAX_DEPTH" using len(2) by simp
        then show ?thesis
          using e spec [OF nz] pos(2) len True by (simp add: min_absorb1 take_Cons' take_drop)
      qed
    qed
  qed
qed

lemma update_side_spec:
  assumes "side_inv cmp levels count" "update_side cmp levels count price qty oc = (levels', count')"
  shows "take count' levels' = spec_side cmp price qty oc (take count levels)"
    "length levels' = MAX_DEPTH" "count' \<le> MAX_DEPTH"
  using update_side_found [OF assms(1) _ assms(2)] update_side_insert [OF assms(1) _ assms(2)]
  by (cases "find_level levels count price 0"; blast)+

lemma spec_side_inv:
  assumes "ordered ls" "\<forall>l \<in> set ls. lvl_qty l \<noteq> 0"
  shows "ordered (spec_side cmp price qty oc ls)" "\<forall>l \<in> set (spec_side cmp price qty oc ls). lvl_qty l \<noteq> 0"
proof -
  have "ordered (filter (\<lambda>l. lvl_price l \<noteq> price) ls)" using assms(1) by (rule sorted_wrt_filter)
  moreover from this have "ordered (insert_level cmp \<lparr>lvl_price = price, lvl_qty = qty, lvl_count = oc\<rparr>
      (filter (\<lambda>l. lvl_price l \<noteq> price) ls))"
    by (rule insert_ordered) simp
  ultimately show "ordered (spec_side cmp price qty oc ls)"
    by (simp add: spec_side_def Let_def sorted_wrt_take)
  show "\<forall>l \<in> set (spec_side cmp price qty oc ls). lvl_qty l \<noteq> 0"
  proof
    fix l assume "l \<in> set (spec_side cmp price qty oc ls)"
    then have "l \<in> set ls \<or> qty \<noteq> 0 \<and> l = \<lparr>lvl_price = price, lvl_qty = qty, lvl_count = oc\<rparr>"
      by (auto simp: spec_side_def Let_def split: if_splits dest: in_set_takeD)
    then show "lvl_qty l \<noteq> 0" using assms(2) by auto
  qed
qed

lemma update_side_inv:
  assumes "side_inv cmp levels count" "update_side cmp levels count price qty oc = (levels', count')"
  shows "side_inv cmp levels' count'"
proof -
  have "ordered (take count levels)" "\<forall>l \<in> set (take count levels). lvl_qty l \<noteq> 0"
    using assms(1) by (simp_all add: side_inv_def)
  from spec_side_inv [OF this] show ?thesis
    by (rule side_invI [OF update_side_spec(2,3,1) [OF assms]])
qed

lemma ordered_distinct: "ordered ls \<Longrightarrow> distinct (map lvl_price ls)"
  by (induction ls) (auto simp: irrefl)

lemma ordered_card: "ordered ls \<Longrightarrow> card (dom (side_map ls)) = length ls"
  using distinct_card [of "map lvl_price ls"] by (simp add: ordered_distinct dom_side_map)

lemma spec_side_map:
  assumes ord: "ordered ls" and small: "card (dom (map_update price qty oc (side_map ls))) \<le> MAX_DEPTH"
  shows "side_map (spec_side cmp price qty oc ls) = map_update price qty oc (side_map ls)"
proof (cases "qty = 0")
  case True
  then show ?thesis by (simp add: spec_side_def side_map_filter map_update_def)
next
  case False
  let ?rest = "filter (\<lambda>l. lvl_price l \<noteq> price) ls"
  let ?all = "insert_level cmp \<lparr>lvl_price = price, lvl_qty = qty, lvl_count = oc\<rparr> ?rest"
  have m: "side_map ?all = map_update price qty oc (side_map ls)"
    using False side_map_insert [of ?rest "\<lparr>lvl_price = price, lvl_qty = qty, lvl_count = oc\<rparr>" cmp]
    by (simp add: side_map_filter map_update_def)
  have "ordered ?all" using sorted_wrt_filter [OF ord] by (intro insert_ordered) auto
  from ordered_card [OF this] have "length ?all \<le> MAX_DEPTH" using small m by simp
  then have "spec_side cmp price qty oc ls = ?all" using False unfolding spec_side_def Let_def by simp
  with m show ?thesis by simp
qed

lemma update_side_map:
  assumes "side_inv cmp levels count" "update_side cmp levels count price qty oc = (levels', count')"
    "card (dom (map_update price qty oc (side_map (take count levels)))) \<le> MAX_DEPTH"
  shows "side_map (take count' levels') = map_update price qty oc (side_map (take count levels))"
  unfolding update_side_spec(1) [OF assms(1,2)]
  using assms(1,3) by (intro spec_side_map) (simp_all add: side_inv_def)

text \<open>The front level has the best price of the side.\<close>

lemma front_is_best:
  assumes "side_inv cmp levels count" "count \<noteq> 0"
  shows "side_map (take count levels) (lvl_price (levels ! 0)) = Some (lvl_qty (levels ! 0), lvl_count (levels ! 0))"
    and "\<forall>p \<in> dom (side_map (take count levels)). p = lvl_price (levels ! 0) \<or> cmp (lvl_price (levels ! 0)) p"
proof -
  obtain l ls where ls: "take count levels = l # ls"
    using assms by (cases "take count levels") (auto simp: side_inv_def MAX_DEPTH_def)
  moreover have "levels ! 0 = l" using ls assms(2) by (metis neq0_conv nth_Cons_0 nth_take)
  ultimately show "side_map (take count levels) (lvl_price (levels ! 0)) = Some (lvl_qty (levels ! 0), lvl_count (levels ! 0))"
    "\<forall>p \<in> dom (side_map (take count levels)). p = lvl_price (levels ! 0) \<or> cmp (lvl_price (levels ! 0)) p"
    using assms(1) by (auto simp: side_inv_def dom_side_map)
qed

end

interpretation bid_side: price_order "\<lambda>x y. x > y"
  by unfold_locales auto

interpretation ask_side: price_order "\<lambda>x y. x < y"
  by unfold_locales auto

subsection \<open>The book\<close>

definition book_inv :: "L2OrderBook \<Rightarrow> bool" where
  "book_inv b \<longleftrightarrow> side_inv (\<lambda>x y. x > y) (bids b) (bid_count b) \<and> side_inv (\<lambda>x y. x < y) (asks b) (ask_count b)"

definition bid_map :: "L2OrderBook \<Rightarrow> real \<rightharpoonup> u32 \<times> u32" where
  "bid_map b = side_map (take (bid_count b) (bids b))"

definition ask_map :: "L2OrderBook \<Rightarrow> real \<rightharpoonup> u32 \<times> u32" where
  "ask_map b = side_map (take (ask_count b) (asks b))"

datatype book_op = Update Side real u32 u32 | Clear

fun book_step :: "L2OrderBook \<Rightarrow> book_op \<Rightarrow> L2OrderBook" where
  "book_step b (Update side price qty count) = update_level side price qty count b"
| "book_step b Clear = book_clear b"

fun ref_step :: "(real \<rightharpoonup> u32 \<times> u32) \<times> (real \<rightharpoonup> u32 \<times> u32) \<Rightarrow> book_op
    \<Rightarrow> (real \<rightharpoonup> u32 \<times> u32) \<times> (real \<rightharpoonup> u32 \<times> u32)" where
  "ref_step (mb, ma) (Update BUY price qty count) = (map_update price qty count mb, ma)"
| "ref_step (mb, ma) (Update SELL price qty count) = (mb, map_update price qty count ma)"
| "ref_step (mb, ma) Clear = (Map.empty, Map.empty)"

abbreviation book_run :: "book_op list \<Rightarrow> L2OrderBook" where
  "book_run ops \<equiv> foldl book_step book_init ops"

abbreviation ref_run :: "book_op list \<Rightarrow> (real \<rightharpoonup> u32 \<times> u32) \<times> (real \<rightharpoonup> u32 \<times> u32)" where
  "ref_run ops \<equiv> foldl ref_step (Map.empty, Map.empty) ops"

text \<open>At no point of the run does a side of the reference hold more than \<open>MAX_DEPTH\<close> prices.\<close>

definition fits :: "book_op list \<Rightarrow> bool" where
  "fits ops \<longleftrightarrow> (\<forall>n \<le> length ops. card (dom (fst (ref_run (take n ops)))) \<le> MAX_DEPTH \<and>
     card (dom (snd (ref_run (take n ops)))) \<le> MAX_DEPTH)"

lemma book_inv_init: "book_inv book_init"
  by (simp add: book_inv_def side_inv_def book_init_def)

lemma side_inv_clear: "side_inv cmp levels count \<Longrightarrow> side_inv cmp levels 0"
  by (simp add: side_inv_def)

lemma book_step_inv: "book_inv b \<Longrightarrow> book_inv (book_step b op)"
  by (cases op) (auto simp: book_inv_def update_level_def book_clear_def
      dest: side_inv_clear bid_side.update_side_inv ask_side.update_side_inv split: Side.split prod.split)

lemma book_step_map:
  assumes inv: "book_inv b" and ref: "ref_step (bid_map b, ask_map b) op = (mb, ma)"
    and small: "card (dom mb) \<le> MAX_DEPTH" "card (dom ma) \<le> MAX_DEPTH"
  shows "bid_map (book_step b op) = mb \<and> ask_map (book_step b op) = ma"
proof (cases op)
  case (Update side price qty count)
  show ?thesis
  proof (cases side)
    case BUY
    obtain l c where u: "update_side (\<lambda>x y. x > y) (bids b) (bid_count b) price qty count = (l, c)" by fastforce
    show ?thesis
      using bid_side.update_side_map [OF _ u] inv ref small Update BUY u
      by (auto simp: book_inv_def bid_map_def ask_map_def update_level_def)
  next
    case SELL
    obtain l c where u: "update_side (\<lambda>x y. x < y) (asks b) (ask_count b) price qty count = (l, c)" by fastforce
    show ?thesis
      using ask_side.update_side_map [OF _ u] inv ref small Update SELL u
      by (auto simp: book_inv_def bid_map_def ask_map_def update_level_def)
  qed
next
  case Clear
  then show ?thesis using ref by (auto simp: bid_map_def ask_map_def book_clear_def)
qed

lemma book_run_inv: "book_inv (book_run ops)"
  by (induction ops rule: rev_induct) (simp_all add: book_inv_init book_step_inv)

lemma fits_snocD: "fits (ops @ [op]) \<Longrightarrow> fits ops"
  unfolding fits_def
proof (intro allI impI)
  fix n
  assume f: "\<forall>n \<le> length (ops @ [op]). card (dom (fst (ref_run (take n (ops @ [op]))))) \<le> MAX_DEPTH \<and>
     card (dom (snd (ref_run (take n (ops @ [op]))))) \<le> MAX_DEPTH" and n: "n \<le> length ops"
  have "take n (ops @ [op]) = take n ops" using n by simp
  moreover have "n \<le> length (ops @ [op])" using n by simp
  ultimately show "card (dom (fst (ref_run (take n ops)))) \<le> MAX_DEPTH \<and> card (dom (snd (ref_run (take n ops)))) \<le> MAX_DEPTH"
    using f by metis
qed

lemma fits_last: "fits ops \<Longrightarrow> card (dom (fst (ref_run ops))) \<le> MAX_DEPTH \<and> card (dom (snd (ref_run ops))) \<le> MAX_DEPTH"
  by (auto simp: fits_def dest: spec [of _ "length ops"])

lemma book_run_map: "fits ops \<Longrightarrow> (bid_map (book_run ops), ask_map (book_run ops)) = ref_run ops"
proof (induction ops rule: rev_induct)
  case Nil
  then show ?case by (simp add: bid_map_def ask_map_def book_init_def)
next
  case (snoc op ops)
  have IH: "(bid_map (book_run ops), ask_map (book_run ops)) = ref_run ops"
    using snoc fits_snocD by blast
  obtain mb ma where r: "ref_run (ops @ [op]) = (mb, ma)" by fastforce
  then show ?case
    using book_step_map [OF book_run_inv, of ops op mb ma] fits_last [OF snoc.prems] IH by simp
qed

definition level_of :: "(real \<rightharpoonup> u32 \<times> u32) \<Rightarrow> real \<Rightarrow> PriceLevel option" where
  "level_of m p = map_option (\<lambda>(q, c). \<lparr>lvl_price = p, lvl_qty = q, lvl_count = c\<rparr>) (m p)"

lemma side_map_empty_iff: "side_map ls = Map.empty \<longleftrightarrow> ls = []"
  by (cases ls) auto

lemma best_bid_map:
  assumes "book_inv b"
  shows "best_bid b = (if bid_map b = Map.empty then None else level_of (bid_map b) (Max (dom (bid_map b))))"
proof (cases "bid_count b = 0")
  case True
  then show ?thesis by (simp add: best_bid_def bid_map_def)
next
  case False
  have inv: "side_inv (\<lambda>x y. x > y) (bids b) (bid_count b)" using assms by (simp add: book_inv_def)
  note f = bid_side.front_is_best [OF inv False, folded bid_map_def]
  have "Max (dom (bid_map b)) = lvl_price (bids b ! 0)"
  proof (rule Max_eqI)
    show "finite (dom (bid_map b))" by (simp add: bid_map_def)
    show "y \<le> lvl_price (bids b ! 0)" if "y \<in> dom (bid_map b)" for y using bspec [OF f(2) that] by auto
  qed (use f(1) in auto)
  then show ?thesis using f(1) False by (auto simp: best_bid_def level_of_def)
qed

lemma best_ask_map:
  assumes "book_inv b"
  shows "best_ask b = (if ask_map b = Map.empty then None else level_of (ask_map b) (Min (dom (ask_map b))))"
proof (cases "ask_count b = 0")
  case True
  then show ?thesis by (simp add: best_ask_def ask_map_def)
next
  case False
  have inv: "side_inv (\<lambda>x y. x < y) (asks b) (ask_count b)" using assms by (simp add: book_inv_def)
  note f = ask_side.front_is_best [OF inv False, folded ask_map_def]
  have "Min (dom (ask_map b)) = lvl_price (asks b ! 0)"
  proof (rule Min_eqI)
    show "finite (dom (ask_map b))" by (simp add: ask_map_def)
    show "lvl_price (asks b ! 0) \<le> y" if "y \<in> dom (ask_map b)" for y using bspec [OF f(2) that] by auto
  qed (use f(1) in auto)
  then show ?thesis using f(1) False by (auto simp: best_ask_def level_of_def)
qed

text \<open>
  After every update and clear the bid side is strictly decreasing and the ask side strictly
  increasing in price, no stored level has quantity 0, and an update of one side replaces the
  level of its price, inserts a new one in order, drops what falls behind rank \<open>MAX_DEPTH\<close>, and
  leaves the other side alone.
\<close>

theorem order_book_update_correct:
  "let b = book_run ops; b' = update_level side price qty count b in
   book_inv b' \<and>
   take (bid_count b') (bids b') = (case side of
      BUY \<Rightarrow> spec_side (\<lambda>x y. x > y) price qty count (take (bid_count b) (bids b))
    | SELL \<Rightarrow> take (bid_count b) (bids b)) \<and>
   take (ask_count b') (asks b') = (case side of
      SELL \<Rightarrow> spec_side (\<lambda>x y. x < y) price qty count (take (ask_count b) (asks b))
    | BUY \<Rightarrow> take (ask_count b) (asks b))"
  using book_run_inv [of ops] book_step_inv [OF book_run_inv [of ops], of "Update side price qty count"]
    bid_side.update_side_spec(1) [of "bids (book_run ops)" "bid_count (book_run ops)" price qty count]
    ask_side.update_side_spec(1) [of "asks (book_run ops)" "ask_count (book_run ops)" price qty count]
  by (auto simp: Let_def book_inv_def update_level_def split: Side.split prod.split)

text \<open>
  C26: as long as no side ever has more than \<open>MAX_DEPTH\<close> live prices, the book is the map from
  prices to their last quantity and order count, and the best bid and ask are the levels of the
  greatest bid price and the least ask price of that map.
\<close>

theorem order_book_refines_map:
  assumes "fits ops"
  shows "case ref_run ops of (mb, ma) \<Rightarrow> let b = book_run ops in
    bid_map b = mb \<and> ask_map b = ma \<and>
    best_bid b = (if mb = Map.empty then None else level_of mb (Max (dom mb))) \<and>
    best_ask b = (if ma = Map.empty then None else level_of ma (Min (dom ma)))"
  using book_run_map [OF assms] best_bid_map [OF book_run_inv [of ops]] best_ask_map [OF book_run_inv [of ops]]
  by (auto simp: Let_def split: prod.split)

theorem order_book_refines_map_witness:
  "let ops = [Update BUY 10 5 1, Update BUY 11 7 2, Update SELL 12 3 1, Update BUY 11 0 0] in
   fits ops \<and> best_bid (book_run ops) = Some \<lparr>lvl_price = 10, lvl_qty = 5, lvl_count = 1\<rparr> \<and>
   best_ask (book_run ops) = Some \<lparr>lvl_price = 12, lvl_qty = 3, lvl_count = 1\<rparr>"
proof -
  let ?ops = "[Update BUY 10 5 1, Update BUY 11 7 2, Update SELL 12 3 1, Update BUY 11 0 0]"
  have "fits ?ops"
    unfolding fits_def
  proof (intro allI impI)
    fix n assume "n \<le> length ?ops"
    then have "n = 0 \<or> n = 1 \<or> n = 2 \<or> n = 3 \<or> n = 4" by auto
    then show "card (dom (fst (ref_run (take n ?ops)))) \<le> MAX_DEPTH \<and>
        card (dom (snd (ref_run (take n ?ops)))) \<le> MAX_DEPTH"
      by (elim disjE) (simp_all add: map_update_def MAX_DEPTH_def)
  qed
  then show ?thesis
    using order_book_refines_map [of ?ops] by (simp add: map_update_def level_of_def fun_upd_twist Let_def)
qed

end
