(* ===== verification/Shm_Ipc_Bus.thy ===== *)
theory Shm_Ipc_Bus
  imports Ring_Fifo
begin

text \<open>
  The shared-memory message bus of
  \<^verbatim>\<open>06-systems-ipc-and-shared-memory/projects/low_latency_shm_ipc_bus/shm_ipc_bus.hpp\<close>:
  creation and attachment (the results of \<open>shm_open\<close>, \<open>ftruncate\<close> and \<open>mmap\<close> are arguments),
  \<open>publish\<close> and \<open>consume\<close> on the mapped ring, and the ownership of the mapping through moves
  and destruction.
\<close>

subsection \<open>Messages and the mapped region\<close>

definition MAX_PAYLOAD :: nat where
  "MAX_PAYLOAD = 104"

record IpcMessage =
  msg_id :: u64
  timestamp_ns :: u64
  msg_length :: u32
  payload :: bytes

record shm_ring =
  write_index :: u64
  read_index :: u64
  capacity :: u64
  ring_mask :: u64
  ring_slots :: "IpcMessage list"

definition sizeof_ShmRingHeader :: u64 where
  "sizeof_ShmRingHeader = 128"

definition sizeof_IpcMessage :: u64 where
  "sizeof_IpcMessage = 128"

definition calculate_shm_size :: "u64 \<Rightarrow> u64" where
  "calculate_shm_size cap = sizeof_ShmRingHeader + cap * sizeof_IpcMessage"

subsection \<open>Creating and attaching\<close>

datatype shm_error = ShmOpenFailed string | FtruncateFailed string | MmapFailed string

text \<open>
  What the operating system answers: the descriptor of \<open>shm_open\<close>, the result of
  \<open>ftruncate\<close>, and the mapping, \<open>None\<close> for \<open>MAP_FAILED\<close>.
\<close>

record shm_os =
  os_shm_open :: int
  os_ftruncate :: int
  os_mmap :: "shm_ring option"

text \<open>The C++ object: name, mapped base (\<open>None\<close> for null), size, and the creator flag.\<close>

record shm_handle =
  shm_name :: string
  mapped_base :: "nat option"
  total_size :: u64
  is_creator :: bool

definition ipc_create :: "shm_os \<Rightarrow> string \<Rightarrow> u64 \<Rightarrow> nat \<Rightarrow> shm_error + (shm_handle \<times> shm_ring)" where
  "ipc_create os name cap base =
     (let sz = calculate_shm_size cap in
      if os_shm_open os < 0 then Inl (ShmOpenFailed name)
      else if os_ftruncate os < 0 then Inl (FtruncateFailed name)
      else case os_mmap os of
        None \<Rightarrow> Inl (MmapFailed name)
      | Some r \<Rightarrow> Inr (\<lparr>shm_name = name, mapped_base = Some base, total_size = sz, is_creator = True\<rparr>,
          r\<lparr>write_index := 0, read_index := 0, capacity := cap, ring_mask := cap - 1\<rparr>))"

definition ipc_attach :: "shm_os \<Rightarrow> string \<Rightarrow> u64 \<Rightarrow> nat \<Rightarrow> shm_error + (shm_handle \<times> shm_ring)" where
  "ipc_attach os name cap base =
     (let sz = calculate_shm_size cap in
      if os_shm_open os < 0 then Inl (ShmOpenFailed name)
      else case os_mmap os of
        None \<Rightarrow> Inl (MmapFailed name)
      | Some r \<Rightarrow> Inr (\<lparr>shm_name = name, mapped_base = Some base, total_size = sz, is_creator = False\<rparr>, r))"

subsection \<open>Publish and consume\<close>

definition ipc_publish :: "u64 \<Rightarrow> u64 \<Rightarrow> bytes \<Rightarrow> shm_ring \<Rightarrow> bool \<times> shm_ring" where
  "ipc_publish mid ts_ns pl s =
     (let w = write_index s; r = read_index s in
      if w - r \<ge> capacity s then (False, s)
      else
        let i = unat (w AND ring_mask s);
            slot = ring_slots s ! i;
            len = min (length pl) MAX_PAYLOAD;
            slot' = slot\<lparr>msg_id := mid, timestamp_ns := ts_ns, msg_length := of_nat len,
                      payload := take len pl @ drop len (payload slot)\<rparr>
        in (True, s\<lparr>ring_slots := (ring_slots s)[i := slot'], write_index := w + 1\<rparr>))"

definition ipc_consume :: "shm_ring \<Rightarrow> IpcMessage option \<times> shm_ring" where
  "ipc_consume s =
     (let r = read_index s; w = write_index s in
      if r = w then (None, s)
      else (Some (ring_slots s ! unat (r AND ring_mask s)), s\<lparr>read_index := r + 1\<rparr>))"

text \<open>What a receiver sees of a message: the identifier, the timestamp and the first \<open>length\<close> bytes.\<close>

definition ipc_view :: "IpcMessage \<Rightarrow> u64 \<times> u64 \<times> bytes" where
  "ipc_view m = (msg_id m, timestamp_ns m, take (unat (msg_length m)) (payload m))"

abbreviation ipc_push :: "u64 \<times> u64 \<times> bytes \<Rightarrow> shm_ring \<Rightarrow> bool \<times> shm_ring" where
  "ipc_push m s \<equiv> (case m of (i, t, p) \<Rightarrow> ipc_publish i t p s)"

abbreviation ipc_pop :: "shm_ring \<Rightarrow> (u64 \<times> u64 \<times> bytes) option \<times> shm_ring" where
  "ipc_pop s \<equiv> (case ipc_consume s of (out, s') \<Rightarrow> (map_option ipc_view out, s'))"

abbreviation ipc_deliver :: "u64 \<times> u64 \<times> bytes \<Rightarrow> u64 \<times> u64 \<times> bytes" where
  "ipc_deliver m \<equiv> (case m of (i, t, p) \<Rightarrow> (i, t, take MAX_PAYLOAD p))"

subsection \<open>The bus as a bounded queue\<close>

definition ipc_contents :: "shm_ring \<Rightarrow> (u64 \<times> u64 \<times> bytes) list" where
  "ipc_contents s = map ipc_view (ring_contents (ring_slots s) (ring_mask s) (read_index s) (write_index s))"

definition ipc_inv :: "nat \<Rightarrow> shm_ring \<Rightarrow> bool" where
  "ipc_inv k s \<longleftrightarrow> k < 64 \<and> capacity s = 2 ^ k \<and> ring_mask s = mask k \<and> length (ring_slots s) = 2 ^ k \<and>
     (\<forall>m \<in> set (ring_slots s). length (payload m) = MAX_PAYLOAD) \<and>
     unat (write_index s - read_index s) \<le> 2 ^ k"

lemma ipc_full_iff:
  "ipc_inv k s \<Longrightarrow> write_index s - read_index s \<ge> capacity s \<longleftrightarrow> \<not> length (ipc_contents s) < 2 ^ k"
  by (auto simp: ipc_inv_def ipc_contents_def word_le_nat_alt capacity_word)

lemma ipc_publish_laws:
  assumes inv: "ipc_inv k s" and p: "ipc_publish i t p s = (ok, s')"
  shows "ipc_inv k s'"
    and "ok \<longleftrightarrow> length (ipc_contents s) < 2 ^ k"
    and "ipc_contents s' = (if ok then ipc_contents s @ [(i, t, take MAX_PAYLOAD p)] else ipc_contents s)"
proof -
  let ?j = "unat (write_index s AND ring_mask s)"
  let ?len = "min (length p) MAX_PAYLOAD"
  let ?slot = "ring_slots s ! ?j"
  let ?slot' = "?slot\<lparr>msg_id := i, timestamp_ns := t, msg_length := of_nat ?len,
     payload := take ?len p @ drop ?len (payload ?slot)\<rparr>"
  let ?s' = "s\<lparr>ring_slots := (ring_slots s)[?j := ?slot'], write_index := write_index s + 1\<rparr>"
  have I: "k < 64" "ring_mask s = mask k" "length (ring_slots s) = 2 ^ k"
    "\<And>m. m \<in> set (ring_slots s) \<Longrightarrow> length (payload m) = MAX_PAYLOAD"
    using inv by (auto simp: ipc_inv_def)
  have j: "?j < length (ring_slots s)" by (simp add: I mask_index_less)
  have view: "ipc_view ?slot' = (i, t, take MAX_PAYLOAD p)"
    by (simp add: ipc_view_def unat_of_nat MAX_PAYLOAD_def)
  have "ipc_inv k s' \<and> (ok \<longleftrightarrow> length (ipc_contents s) < 2 ^ k) \<and>
    ipc_contents s' = (if ok then ipc_contents s @ [(i, t, take MAX_PAYLOAD p)] else ipc_contents s)"
  proof (cases "write_index s - read_index s \<ge> capacity s")
    case True
    then have "ok = False" "s' = s" using p by (simp_all add: ipc_publish_def Let_def)
    then show ?thesis using inv True ipc_full_iff [OF inv] by simp
  next
    case False
    then have s': "ok" "s' = ?s'" using p by (simp_all add: ipc_publish_def Let_def)
    have room: "unat (write_index s - read_index s) < 2 ^ k"
      using False ipc_full_iff [OF inv] by (simp add: ipc_contents_def)
    have suc: "unat (write_index s + 1 - read_index s) = Suc (unat (write_index s - read_index s))"
      using room pow2_less_word [OF I(1)] by (intro unat_Suc_diff) simp_all
    have "length (payload ?slot') = MAX_PAYLOAD" using I(4) [OF nth_mem [OF j]] by simp
    then have "ipc_inv k ?s'"
      using inv room suc by (auto simp: ipc_inv_def dest!: set_update_subset_insert [THEN subsetD])
    moreover have "ipc_contents ?s' = ipc_contents s @ [(i, t, take MAX_PAYLOAD p)]"
      using ring_contents_push [OF I(1,3) room, of ?slot'] view I(2) by (simp add: ipc_contents_def)
    ultimately show ?thesis using s' False ipc_full_iff [OF inv] by simp
  qed
  then show "ipc_inv k s'" "ok \<longleftrightarrow> length (ipc_contents s) < 2 ^ k"
    "ipc_contents s' = (if ok then ipc_contents s @ [(i, t, take MAX_PAYLOAD p)] else ipc_contents s)"
    by blast+
qed

lemma ipc_consume_laws:
  assumes inv: "ipc_inv k s" and c: "ipc_consume s = (out, s')"
  shows "ipc_inv k s'"
    and "ipc_contents s = (case out of None \<Rightarrow> [] | Some m \<Rightarrow> ipc_view m # ipc_contents s')"
    and "out = None \<Longrightarrow> s' = s"
proof -
  have ne: "unat (write_index s - (read_index s + 1)) \<le> 2 ^ k" if "read_index s \<noteq> write_index s"
    using inv unat_pred_diff [OF that] by (simp add: ipc_inv_def)
  show "ipc_inv k s'" "out = None \<Longrightarrow> s' = s"
    using inv c ne by (auto simp: ipc_consume_def ipc_inv_def Let_def split: if_splits)
  show "ipc_contents s = (case out of None \<Rightarrow> [] | Some m \<Rightarrow> ipc_view m # ipc_contents s')"
    using c ring_contents_pop [of "read_index s" "write_index s" "ring_slots s" "ring_mask s"]
    by (auto simp: ipc_consume_def ipc_contents_def Let_def split: if_splits)
qed

lemma ipc_contents_bounded: "ipc_inv k s \<Longrightarrow> length (ipc_contents s) \<le> 2 ^ k"
  by (simp add: ipc_inv_def ipc_contents_def)

interpretation ipc: bounded_fifo ipc_push ipc_pop ipc_contents ipc_deliver "\<lambda>_. 2 ^ k" "ipc_inv k" for k
proof (unfold_locales, goal_cases)
  case (1 s m ok s')
  then show ?case by (cases m) (auto dest: ipc_publish_laws(1))
next
  case (2 s m ok s')
  then show ?case by (cases m) (auto dest: ipc_publish_laws(2))
next
  case (3 s m ok s')
  then show ?case using ipc_publish_laws(3) [of k s] by (cases m) simp
next
  case (5 s out s')
  then show ?case using ipc_consume_laws(1) [of k s] by (auto split: prod.splits)
next
  case (6 s out s')
  then show ?case using ipc_consume_laws(2) [of k s] by (cases "ipc_consume s") (auto simp: ipc_view_def split: option.split)
next
  case (7 s s')
  then show ?case using ipc_consume_laws(2,3) [of k s] by (auto split: prod.splits)
qed simp_all

lemma ipc_inv_create:
  assumes "k < 64" "ipc_create os name (2 ^ k) base = Inr (h, s)"
    "os_mmap os = Some r" "length (ring_slots r) = 2 ^ k"
    "\<forall>m \<in> set (ring_slots r). length (payload m) = MAX_PAYLOAD"
  shows "ipc_inv k s" "ipc_contents s = []"
  using assms
  by (auto simp: ipc_create_def ipc_inv_def ipc_contents_def mask_eq_minus_1 Let_def split: if_splits)

text \<open>
  C22: on a bus that \<open>create\<close> made with capacity \<open>2 ^ k\<close>, any sequence of publish and consume calls
  gives the results of the bounded FIFO of that capacity: a message is refused exactly when the
  ring is full, and received in order with its id, its time stamp and its payload cut at
  \<open>MAX_PAYLOAD\<close> bytes.
\<close>

theorem ipc_fifo_order:
  assumes "k < 64" "ipc_create os name (2 ^ k) base = Inr (h, s)"
    "os_mmap os = Some r" "length (ring_slots r) = 2 ^ k"
    "\<forall>m \<in> set (ring_slots r). length (payload m) = MAX_PAYLOAD"
  shows "fifo_trace ipc_push ipc_pop ops s = fifo_trace (queue_push (2 ^ k) ipc_deliver) queue_pop ops []"
  using ipc.trace_refines [OF ipc_inv_create(1) [OF assms]] by (simp add: ipc_inv_create(2) [OF assms])

definition zero_message :: IpcMessage where
  "zero_message = \<lparr>msg_id = 0, timestamp_ns = 0, msg_length = 0, payload = replicate 104 0\<rparr>"

definition zero_region :: "nat \<Rightarrow> shm_ring" where
  "zero_region n = \<lparr>write_index = 0, read_index = 0, capacity = 0, ring_mask = 0,
     ring_slots = replicate n zero_message\<rparr>"

theorem ipc_fifo_order_witness:
  "let os = \<lparr>os_shm_open = 3, os_ftruncate = 0, os_mmap = Some (zero_region 2)\<rparr>;
       s = (zero_region 2)\<lparr>capacity := 2, ring_mask := 1\<rparr> in
   ipc_create os ''bus'' (2 ^ 1) 4096 = Inr (\<lparr>shm_name = ''bus'', mapped_base = Some 4096,
     total_size = calculate_shm_size (2 ^ 1), is_creator = True\<rparr>, s) \<and>
   fifo_trace ipc_push ipc_pop [Push (1, 10, [7, 8]), Push (2, 11, [9]), Push (3, 12, []), Pop] s =
     [Accepted True, Accepted True, Accepted False, Received (Some (1, 10, [7, 8]))]"
proof -
  let ?os = "\<lparr>os_shm_open = 3, os_ftruncate = 0, os_mmap = Some (zero_region 2)\<rparr>"
  let ?s = "(zero_region 2)\<lparr>capacity := 2, ring_mask := 1\<rparr>"
  let ?h = "\<lparr>shm_name = ''bus'', mapped_base = Some 4096, total_size = calculate_shm_size (2 ^ 1),
    is_creator = True\<rparr>"
  let ?ops = "[Push (1, 10, [7, 8]), Push (2, 11, [9]), Push (3, 12, []), Pop]"
  have c: "ipc_create ?os ''bus'' (2 ^ 1) 4096 = Inr (?h, ?s)"
    by (simp add: ipc_create_def zero_region_def)
  have m: "os_mmap ?os = Some (zero_region 2)" by simp
  have "fifo_trace ipc_push ipc_pop ?ops ?s = fifo_trace (queue_push (2 ^ 1) ipc_deliver) queue_pop ?ops []"
    by (rule ipc_fifo_order [OF _ c m]) (simp_all add: zero_region_def zero_message_def MAX_PAYLOAD_def)
  with c show ?thesis by (simp add: Let_def queue_push_def MAX_PAYLOAD_def)
qed

subsection \<open>A capacity that is not a power of two\<close>

text \<open>
  Nothing in \<open>create\<close> checks that the capacity is a power of two. With capacity 3 the mask is 2,
  positions 0 and 1 share slot 0, and the second accepted message overwrites the first: the
  receiver gets the second message twice.
\<close>

theorem ipc_non_pow2_loses_message:
  "let s0 = (zero_region 3)\<lparr>capacity := 3, ring_mask := 3 - 1\<rparr>;
       (ok1, s1) = ipc_publish 1 0 [] s0; (ok2, s2) = ipc_publish 2 0 [] s1;
       (out1, s3) = ipc_consume s2; (out2, s4) = ipc_consume s3 in
   ok1 \<and> ok2 \<and> map_option msg_id out1 = Some 2 \<and> map_option msg_id out2 = Some 2"
proof -
  have "zero_region 3 = \<lparr>write_index = 0, read_index = 0, capacity = 0, ring_mask = 0,
     ring_slots = [zero_message, zero_message, zero_message]\<rparr>"
    by (simp add: zero_region_def numeral_3_eq_3)
  then show ?thesis
    by (simp add: ipc_publish_def ipc_consume_def Let_def word_le_nat_alt)
qed

subsection \<open>Ownership of the mapping\<close>

datatype shm_call = Munmap nat u64 | ShmUnlink string

definition ipc_destroy :: "shm_handle \<Rightarrow> shm_call list" where
  "ipc_destroy h = (case mapped_base h of
      None \<Rightarrow> []
    | Some b \<Rightarrow> Munmap b (total_size h) # (if is_creator h then [ShmUnlink (shm_name h)] else []))"

text \<open>
  The move constructor: the new object and what is left of the old one. A moved-from string is
  valid but unspecified, so its value is an argument.
\<close>

definition ipc_move :: "string \<Rightarrow> shm_handle \<Rightarrow> shm_handle \<times> shm_handle" where
  "ipc_move left other = (other, other\<lparr>shm_name := left, mapped_base := None\<rparr>)"

definition ipc_move_assign :: "string \<Rightarrow> shm_handle \<Rightarrow> shm_handle \<Rightarrow> shm_call list \<times> shm_handle \<times> shm_handle" where
  "ipc_move_assign left this other =
     (case mapped_base this of
        None \<Rightarrow> []
      | Some b \<Rightarrow> Munmap b (total_size this) # (if is_creator this then [ShmUnlink (shm_name this)] else []),
      this\<lparr>shm_name := shm_name other, mapped_base := mapped_base other,
        total_size := total_size other, is_creator := is_creator other\<rparr>,
      other\<lparr>shm_name := left, mapped_base := None\<rparr>)"

text \<open>A program over bus objects, named by numbers: an operation on a missing object does nothing.\<close>

datatype handle_op = MoveCtor nat nat | MoveAssign nat nat | Destroy nat

fun handle_step :: "handle_op \<Rightarrow> (nat \<rightharpoonup> shm_handle) \<Rightarrow> shm_call list \<times> (nat \<rightharpoonup> shm_handle)" where
  "handle_step (MoveCtor dst src) st =
     (case (st dst, st src) of
        (None, Some h) \<Rightarrow> (let (n, old) = ipc_move [] h in ([], st(src \<mapsto> old, dst \<mapsto> n)))
      | _ \<Rightarrow> ([], st))"
| "handle_step (MoveAssign dst src) st =
     (case (st dst, st src) of
        (Some this, Some other) \<Rightarrow>
          (if dst = src then ([], st)
           else let (calls, n, old) = ipc_move_assign [] this other in (calls, st(src \<mapsto> old, dst \<mapsto> n)))
      | _ \<Rightarrow> ([], st))"
| "handle_step (Destroy i) st =
     (case st i of None \<Rightarrow> ([], st) | Some h \<Rightarrow> (ipc_destroy h, st(i := None)))"

fun handle_run :: "handle_op list \<Rightarrow> (nat \<rightharpoonup> shm_handle) \<Rightarrow> shm_call list \<times> (nat \<rightharpoonup> shm_handle)" where
  "handle_run [] st = ([], st)"
| "handle_run (op # ops) st =
     (let (c, st1) = handle_step op st; (cs, st2) = handle_run ops st1 in (c @ cs, st2))"

definition unmapped :: "shm_call list \<Rightarrow> nat list" where
  "unmapped cs = concat (map (\<lambda>c. case c of Munmap b _ \<Rightarrow> [b] | ShmUnlink _ \<Rightarrow> []) cs)"

definition base_of :: "(nat \<rightharpoonup> shm_handle) \<Rightarrow> nat \<rightharpoonup> nat" where
  "base_of st i = Option.bind (st i) mapped_base"

definition unique_owners :: "(nat \<rightharpoonup> shm_handle) \<Rightarrow> bool" where
  "unique_owners st \<longleftrightarrow> inj_on (base_of st) (dom (base_of st))"

lemma unmapped_append [simp]: "unmapped (xs @ ys) = unmapped xs @ unmapped ys"
  by (simp add: unmapped_def)

lemma unmapped_simps [simp]:
  "unmapped (Munmap b n # cs) = b # unmapped cs" "unmapped (ShmUnlink nm # cs) = unmapped cs"
  "unmapped [] = []"
  by (simp_all add: unmapped_def)

lemma base_of_upd [simp]: "base_of (st(i := h)) = (base_of st)(i := Option.bind h mapped_base)"
  by (simp add: base_of_def fun_eq_iff)

lemma release_base:
  assumes "inj_on m (dom m)"
  shows "inj_on (m(i := None)) (dom (m(i := None)))" "set_option (m i) \<inter> ran (m(i := None)) = {}"
    "set_option (m i) \<union> ran (m(i := None)) = ran m"
  using assms by (auto simp: inj_on_def dom_def ran_def)

lemma transfer_base:
  assumes inj: "inj_on m (dom m)" and i: "m i = None" and ij: "i \<noteq> j"
  shows "inj_on (m(j := None, i := m j)) (dom (m(j := None, i := m j)))"
    "ran (m(j := None, i := m j)) = ran m"
proof -
  have inj': "a = b" if "m a = Some x" "m b = Some x" for a b x
    using inj_onD [OF inj, of a b] that by (simp add: domIff)
  show "inj_on (m(j := None, i := m j)) (dom (m(j := None, i := m j)))"
  proof (rule inj_onI)
    fix a b
    assume a: "a \<in> dom (m(j := None, i := m j))"
      and e: "(m(j := None, i := m j)) a = (m(j := None, i := m j)) b"
    obtain x where x: "(m(j := None, i := m j)) a = Some x"
      using a by blast
    have y: "(m(j := None, i := m j)) b = Some x"
      using x unfolding e .
    show "a = b"
      using x y inj' [of a x b] inj' [of j x b] inj' [of a x j]
      by (cases "a = i"; cases "b = i"; cases "a = j"; cases "b = j"; simp add: ij)
  qed
  have "x \<in> ran (m(j := None, i := m j))" if "m a = Some x" for a x
  proof (cases "a = j")
    case True
    then show ?thesis using that ranI [of "m(j := None, i := m j)" i x] by simp
  next
    case False
    then show ?thesis using that i ranI [of "m(j := None, i := m j)" a x] by (cases "a = i") simp_all
  qed
  moreover have "x \<in> ran m" if "(m(j := None, i := m j)) a = Some x" for a x
    using that ranI [of m a x] ranI [of m j x] by (cases "a = i"; cases "a = j") simp_all
  ultimately show "ran (m(j := None, i := m j)) = ran m"
    unfolding ran_def by blast
qed

definition opt_list :: "'a option \<Rightarrow> 'a list" where
  "opt_list x = (case x of None \<Rightarrow> [] | Some b \<Rightarrow> [b])"

lemma opt_list_facts [simp]: "distinct (opt_list x)" "set (opt_list x) = set_option x" "opt_list None = []"
  by (cases x; simp add: opt_list_def)+

lemma unmapped_destroy: "unmapped (ipc_destroy h) = opt_list (mapped_base h)"
  by (simp add: ipc_destroy_def opt_list_def split: option.split)

lemma unmapped_move_assign:
  "ipc_move_assign l this other = (cs, this', other') \<Longrightarrow> unmapped cs = opt_list (mapped_base this) \<and>
     mapped_base this' = mapped_base other \<and> mapped_base other' = None"
  by (auto simp: ipc_move_assign_def opt_list_def split: option.splits)

text \<open>Every operation releases the mapping of at most one object and then hands on that of another.\<close>

lemma handle_step_base:
  assumes st: "handle_step op st = (cs, st')"
  obtains (skip) "base_of st' = base_of st" "unmapped cs = []"
  | (release) i where "base_of st' = (base_of st)(i := None)" "unmapped cs = opt_list (base_of st i)"
  | (transfer) i j where "i \<noteq> j" "unmapped cs = opt_list (base_of st i)"
      "base_of st' = ((base_of st)(i := None))(j := None, i := base_of st j)"
proof (cases op)
  case (MoveCtor dst src)
  show ?thesis
  proof (cases "st dst = None \<and> st src \<noteq> None")
    case True
    then obtain h where "st src = Some h" by blast
    with True st MoveCtor have "cs = []" "st' = st(src \<mapsto> snd (ipc_move [] h), dst \<mapsto> h)" "dst \<noteq> src"
      by (auto simp: ipc_move_def)
    with True \<open>st src = Some h\<close> show ?thesis
      by (intro transfer [of dst src]) (auto simp: ipc_move_def base_of_def fun_upd_def fun_eq_iff)
  next
    case False
    then show ?thesis using st MoveCtor by (intro skip) (auto split: option.splits)
  qed
next
  case (MoveAssign dst src)
  show ?thesis
  proof (cases "st dst \<noteq> None \<and> st src \<noteq> None \<and> dst \<noteq> src")
    case True
    then obtain this other where h: "st dst = Some this" "st src = Some other" by blast
    obtain c n old where m: "ipc_move_assign [] this other = (c, n, old)" by (metis prod_cases3)
    have "cs = c" "st' = st(src \<mapsto> old, dst \<mapsto> n)"
      using True st MoveAssign h m by auto
    then show ?thesis
      using unmapped_move_assign [OF m] True h
      by (intro transfer [of dst src]) (auto simp: base_of_def fun_eq_iff)
  next
    case False
    then show ?thesis using st MoveAssign by (intro skip) (auto split: option.splits if_splits)
  qed
next
  case (Destroy i)
  then show ?thesis
    using st
    by (cases "st i") (auto intro: skip release [of i] simp: unmapped_destroy base_of_def)
qed

lemma handle_step_ownership:
  assumes u: "unique_owners st" and st: "handle_step op st = (cs, st')"
  shows "unique_owners st' \<and> distinct (unmapped cs) \<and> set (unmapped cs) \<inter> ran (base_of st') = {} \<and>
    set (unmapped cs) \<union> ran (base_of st') = ran (base_of st)"
  using st
proof (cases rule: handle_step_base)
  case skip
  then show ?thesis using u by (simp add: unique_owners_def)
next
  case (release i)
  then show ?thesis using release_base [of "base_of st" i] u by (simp add: unique_owners_def)
next
  case (transfer i j)
  let ?m = "(base_of st)(i := None)"
  have m: "inj_on ?m (dom ?m)" "set_option (base_of st i) \<inter> ran ?m = {}"
    "set_option (base_of st i) \<union> ran ?m = ran (base_of st)"
    using release_base [of "base_of st" i] u by (simp_all add: unique_owners_def)
  have j: "?m j = base_of st j" using transfer(1) by simp
  show ?thesis
    using transfer_base [OF m(1), of i j] m transfer unfolding j by (simp add: unique_owners_def)
qed

lemma handle_run_ownership:
  assumes "unique_owners st" "handle_run ops st = (cs, st')"
  shows "unique_owners st' \<and> distinct (unmapped cs) \<and> set (unmapped cs) \<inter> ran (base_of st') = {} \<and>
    set (unmapped cs) \<union> ran (base_of st') = ran (base_of st)"
  using assms
proof (induction ops arbitrary: st cs)
  case (Cons op ops)
  obtain c st1 where s: "handle_step op st = (c, st1)" by fastforce
  obtain c2 st2 where r: "handle_run ops st1 = (c2, st2)" by fastforce
  have e: "cs = c @ c2" "st2 = st'" using Cons.prems(2) s r by simp_all
  show ?case
    using handle_step_ownership [OF Cons.prems(1) s] Cons.IH [of st1 c2] r e by auto
qed simp

text \<open>
  Whatever sequence of move constructions, move assignments and destructions a program runs
  over bus objects that own distinct mappings, every mapping is unmapped at most once, and the
  mappings not unmapped are exactly those some object still owns: no double unmap and no leak.
\<close>

theorem ipc_handle_released_once:
  assumes "unique_owners st"
  shows "case handle_run ops st of (calls, st') \<Rightarrow>
    distinct (unmapped calls) \<and> set (unmapped calls) = ran (base_of st) - ran (base_of st')"
  using handle_run_ownership [OF assms, of ops] by (auto split: prod.split)

theorem ipc_handle_released_once_witness:
  "let h = \<lparr>shm_name = ''/bus'', mapped_base = Some 4096, total_size = 256, is_creator = True\<rparr>;
       ops = [MoveCtor 2 1, Destroy 1, MoveAssign 2 2, Destroy 2]
   in unique_owners [1 \<mapsto> h] \<and>
     handle_run ops [1 \<mapsto> h] = ([Munmap 4096 256, ShmUnlink ''/bus''], Map.empty) \<and>
     distinct (unmapped (fst (handle_run ops [1 \<mapsto> h])))"
proof -
  let ?h = "\<lparr>shm_name = ''/bus'', mapped_base = Some 4096, total_size = 256, is_creator = True\<rparr>"
  let ?ops = "[MoveCtor 2 1, Destroy 1, MoveAssign 2 2, Destroy 2]"
  have u: "unique_owners [1 \<mapsto> ?h]"
    by (auto simp: unique_owners_def base_of_def inj_on_def dom_def split: if_splits)
  have "handle_run ?ops [1 \<mapsto> ?h] = ([Munmap 4096 256, ShmUnlink ''/bus''], Map.empty)"
    by (simp add: ipc_move_def ipc_destroy_def fun_upd_twist)
  then show ?thesis
    using ipc_handle_released_once [OF u, of ?ops] u by (simp add: Let_def)
qed

end
