(* ===== verification/Shm_Feed.thy ===== *)
theory Shm_Feed
  imports Ring_Fifo Order_Book Shm_Ipc_Bus
begin

text \<open>
  The shared-memory market feed of \<^verbatim>\<open>12-capstone-systems/01-shm-orderbook-feed/shm_feed.hpp\<close>
  and the tick-to-trade pipeline of \<^verbatim>\<open>bench_tick_to_trade.cpp\<close>: an exchange process publishes
  events into the ring, a trading engine consumes them and updates its order book. The feed is
  another instance of \<open>bounded_fifo\<close>; the pipeline interleaves the two processes at the level
  of whole \<open>publish\<close> and \<open>consume\<close> calls. The object's name, base and creator flag are the
  record \<open>shm_handle\<close> of the IPC bus, whose class has the same fields.
\<close>

subsection \<open>The code\<close>

datatype MarketEventType = UPDATE_LEVEL | TRADE | CLEAR_BOOK

record MarketEvent =
  seq_num :: u64
  ev_timestamp_ns :: u64
  ev_price :: real
  ev_qty :: u32
  ev_order_count :: u32
  ev_side :: Side
  event_type :: MarketEventType

record feed_ring =
  feed_write_index :: u64
  feed_read_index :: u64
  feed_capacity :: u64
  feed_mask :: u64
  feed_slots :: "MarketEvent list"

definition DEFAULT_CAPACITY :: u64 where
  "DEFAULT_CAPACITY = 32768"

definition sizeof_ShmFeedHeader :: u64 where
  "sizeof_ShmFeedHeader = 128"

definition sizeof_MarketEvent :: u64 where
  "sizeof_MarketEvent = 64"

definition calculate_size :: "u64 \<Rightarrow> u64" where
  "calculate_size cap = sizeof_ShmFeedHeader + cap * sizeof_MarketEvent"

record feed_os =
  fos_shm_open :: int
  fos_ftruncate :: int
  fos_mmap :: "feed_ring option"


definition feed_attach :: "feed_os \<Rightarrow> string \<Rightarrow> u64 \<Rightarrow> nat \<Rightarrow> shm_error + (shm_handle \<times> feed_ring)" where
  "feed_attach os name cap base =
     (let total_sz = calculate_size cap in
      if fos_shm_open os < 0 then Inl (ShmOpenFailed name)
      else case fos_mmap os of
        None \<Rightarrow> Inl (MmapFailed name)
      | Some r \<Rightarrow> Inr (\<lparr>shm_name = name, mapped_base = Some base, total_size = total_sz, is_creator = False\<rparr>, r))"

definition feed_destroy :: "shm_handle \<Rightarrow> shm_call list" where
  "feed_destroy h = (case mapped_base h of
      None \<Rightarrow> []
    | Some b \<Rightarrow> Munmap b (total_size h) # (if is_creator h then [ShmUnlink (shm_name h)] else []))"

definition feed_move :: "string \<Rightarrow> shm_handle \<Rightarrow> shm_handle \<times> shm_handle" where
  "feed_move left other = (other, other\<lparr>shm_name := left, mapped_base := None\<rparr>)"

definition feed_publish :: "MarketEvent \<Rightarrow> feed_ring \<Rightarrow> bool \<times> feed_ring" where
  "feed_publish event s =
     (let w = feed_write_index s; r = feed_read_index s in
      if w - r \<ge> feed_capacity s then (False, s)
      else (True, s\<lparr>feed_slots := (feed_slots s)[unat (w AND feed_mask s) := event],
              feed_write_index := w + 1\<rparr>))"

definition feed_consume :: "feed_ring \<Rightarrow> MarketEvent option \<times> feed_ring" where
  "feed_consume s =
     (let r = feed_read_index s; w = feed_write_index s in
      if r = w then (None, s)
      else (Some (feed_slots s ! unat (r AND feed_mask s)), s\<lparr>feed_read_index := r + 1\<rparr>))"

subsection \<open>The feed as a bounded queue\<close>

definition feed_contents :: "feed_ring \<Rightarrow> MarketEvent list" where
  "feed_contents s = ring_contents (feed_slots s) (feed_mask s) (feed_read_index s) (feed_write_index s)"

definition feed_inv :: "nat \<Rightarrow> feed_ring \<Rightarrow> bool" where
  "feed_inv k s \<longleftrightarrow> k < 64 \<and> feed_capacity s = 2 ^ k \<and> feed_mask s = mask k \<and>
     length (feed_slots s) = 2 ^ k \<and> unat (feed_write_index s - feed_read_index s) \<le> 2 ^ k"

lemma feed_full_iff:
  "feed_inv k s \<Longrightarrow> feed_write_index s - feed_read_index s \<ge> feed_capacity s \<longleftrightarrow> \<not> length (feed_contents s) < 2 ^ k"
  by (auto simp: feed_inv_def feed_contents_def word_le_nat_alt capacity_word)

lemma feed_publish_laws:
  assumes inv: "feed_inv k s" and p: "feed_publish ev s = (ok, s')"
  shows "feed_inv k s' \<and> (ok \<longleftrightarrow> length (feed_contents s) < 2 ^ k) \<and>
    feed_contents s' = (if ok then feed_contents s @ [ev] else feed_contents s)"
proof (cases "feed_write_index s - feed_read_index s \<ge> feed_capacity s")
  case True
  then have "ok = False" "s' = s" using p by (simp_all add: feed_publish_def Let_def)
  then show ?thesis using inv True feed_full_iff [OF inv] by simp
next
  case False
  let ?s' = "s\<lparr>feed_slots := (feed_slots s)[unat (feed_write_index s AND feed_mask s) := ev],
    feed_write_index := feed_write_index s + 1\<rparr>"
  have s': "ok" "s' = ?s'" using False p by (simp_all add: feed_publish_def Let_def)
  have I: "k < 64" "feed_mask s = mask k" "length (feed_slots s) = 2 ^ k"
    using inv by (auto simp: feed_inv_def)
  have room: "unat (feed_write_index s - feed_read_index s) < 2 ^ k"
    using False feed_full_iff [OF inv] by (simp add: feed_contents_def)
  have suc: "unat (feed_write_index s + 1 - feed_read_index s) = Suc (unat (feed_write_index s - feed_read_index s))"
    using room pow2_less_word [OF I(1)] by (intro unat_Suc_diff) simp_all
  have "feed_inv k ?s'" using inv room suc by (auto simp: feed_inv_def)
  moreover have "feed_contents ?s' = feed_contents s @ [ev]"
    using ring_contents_push [OF I(1,3) room, of ev] I(2) by (simp add: feed_contents_def)
  ultimately show ?thesis using s' False feed_full_iff [OF inv] by simp
qed

lemma feed_consume_laws:
  assumes inv: "feed_inv k s" and c: "feed_consume s = (out, s')"
  shows "feed_inv k s'"
    and "feed_contents s = (case out of None \<Rightarrow> [] | Some m \<Rightarrow> m # feed_contents s')"
    and "out = None \<Longrightarrow> s' = s"
proof -
  have ne: "unat (feed_write_index s - (feed_read_index s + 1)) \<le> 2 ^ k" if "feed_read_index s \<noteq> feed_write_index s"
    using inv unat_pred_diff [OF that] by (simp add: feed_inv_def)
  show "feed_inv k s'" "out = None \<Longrightarrow> s' = s"
    using inv c ne by (auto simp: feed_consume_def feed_inv_def Let_def split: if_splits)
  show "feed_contents s = (case out of None \<Rightarrow> [] | Some m \<Rightarrow> m # feed_contents s')"
    using c ring_contents_pop [of "feed_read_index s" "feed_write_index s" "feed_slots s" "feed_mask s"]
    by (auto simp: feed_consume_def feed_contents_def Let_def split: if_splits)
qed

interpretation feed: bounded_fifo feed_publish feed_consume feed_contents id "\<lambda>_. 2 ^ k" "feed_inv k" for k
proof (unfold_locales, goal_cases)
  case 1 then show ?case using feed_publish_laws by blast
next
  case 2 then show ?case using feed_publish_laws by blast
next
  case (3 s m ok s') then show ?case using feed_publish_laws [of k s m ok s'] by simp
next
  case 5 then show ?case by (rule feed_consume_laws(1))
next
  case 6 then show ?case by (rule feed_consume_laws(2))
next
  case (7 s s') then show ?case using feed_consume_laws(2,3) [of k s None s'] by simp
qed simp_all


subsection \<open>Tick to trade\<close>




















end
