(* ===== verification/Slotted_Page.thy ===== *)
theory Slotted_Page
  imports Sys_Prelude
begin

text \<open>
  The 4 KB slotted page of \<^verbatim>\<open>07-database-storage-and-buffer-pool/exercises/slotted_page.hpp\<close>, at
  the level of bytes. A page is a byte memory starting at address 0 of \<open>data_\<close>; the header and
  slot structs are read and written through little-endian fields at their C++ offsets (header 24
  bytes, slot 6 bytes), and \<open>memcpy\<close> is \<open>mem_write\<close> of \<open>mem_read\<close>. The memory is larger than the
  page, so a write past byte 4096 would show. The uninitialised stack buffer of \<open>compact\<close> is an
  argument, \<open>temp_buf\<close>.
\<close>

subsection \<open>Fields\<close>

definition PAGE_SIZE :: nat where
  "PAGE_SIZE = 4096"

definition page_id :: "memory \<Rightarrow> u64" where
  "page_id p = rd64 p 0"

definition page_lsn :: "memory \<Rightarrow> u64" where
  "page_lsn p = rd64 p 8"

definition set_lsn :: "u64 \<Rightarrow> memory \<Rightarrow> memory" where
  "set_lsn v p = wr64 p 8 v"

definition slot_count :: "memory \<Rightarrow> u16" where
  "slot_count p = rd16 p 16"

definition set_slot_count :: "u16 \<Rightarrow> memory \<Rightarrow> memory" where
  "set_slot_count v p = wr16 p 16 v"

definition free_space_ptr :: "memory \<Rightarrow> u16" where
  "free_space_ptr p = rd16 p 18"

definition set_free_space_ptr :: "u16 \<Rightarrow> memory \<Rightarrow> memory" where
  "set_free_space_ptr v p = wr16 p 18 v"

definition slot_addr :: "nat \<Rightarrow> nat" where
  "slot_addr i = 24 + i * 6"

definition slot_offset :: "memory \<Rightarrow> nat \<Rightarrow> u16" where
  "slot_offset p i = rd16 p (slot_addr i)"

definition set_slot_offset :: "nat \<Rightarrow> u16 \<Rightarrow> memory \<Rightarrow> memory" where
  "set_slot_offset i v p = wr16 p (slot_addr i) v"

definition slot_size :: "memory \<Rightarrow> nat \<Rightarrow> u16" where
  "slot_size p i = rd16 p (slot_addr i + 2)"

definition set_slot_size :: "nat \<Rightarrow> u16 \<Rightarrow> memory \<Rightarrow> memory" where
  "set_slot_size i v p = wr16 p (slot_addr i + 2) v"

definition slot_deleted :: "memory \<Rightarrow> nat \<Rightarrow> u8" where
  "slot_deleted p i = p (slot_addr i + 4)"

definition set_slot_deleted :: "nat \<Rightarrow> u8 \<Rightarrow> memory \<Rightarrow> memory" where
  "set_slot_deleted i v p = mem_write p (slot_addr i + 4) [v]"

subsection \<open>Operations\<close>

definition page_init :: "u64 \<Rightarrow> memory \<Rightarrow> memory" where
  "page_init pid p =
     (let p0 = mem_write p 0 (replicate PAGE_SIZE 0);
          p1 = wr64 p0 0 pid;
          p2 = set_lsn 0 p1;
          p3 = set_slot_count 0 p2;
          p4 = set_free_space_ptr (of_nat PAGE_SIZE) p3
      in mem_write p4 20 [0, 0, 0, 0])"

definition free_space :: "memory \<Rightarrow> u16" where
  "free_space p =
     (let header_and_slots = 24 + unat (slot_count p) * 6 in
      if unat (free_space_ptr p) < header_and_slots then 0
      else of_nat (unat (free_space_ptr p) - header_and_slots))"

definition compact_step :: "memory \<times> memory \<times> u16 \<Rightarrow> nat \<Rightarrow> memory \<times> memory \<times> u16" where
  "compact_step st i = (case st of (p, temp_buf, new_free_ptr) \<Rightarrow>
     if slot_deleted p i = 0 \<and> slot_size p i > 0 then
       let ptr = new_free_ptr - slot_size p i in
       (set_slot_offset i ptr p,
        mem_write temp_buf (unat ptr) (mem_read p (unat (slot_offset p i)) (unat (slot_size p i))), ptr)
     else st)"

definition compact :: "memory \<Rightarrow> memory \<Rightarrow> memory" where
  "compact temp_buf p =
     (case foldl compact_step (p, temp_buf, of_nat PAGE_SIZE) [0..<unat (slot_count p)] of
        (p1, temp1, new_free_ptr) \<Rightarrow>
          let compacted_bytes = PAGE_SIZE - unat new_free_ptr;
              p2 = (if compacted_bytes > 0
                    then mem_write p1 (unat new_free_ptr) (mem_read temp1 (unat new_free_ptr) compacted_bytes)
                    else p1)
          in set_free_space_ptr new_free_ptr p2)"

definition insert_place :: "bytes \<Rightarrow> memory \<Rightarrow> u16 option \<times> memory" where
  "insert_place payload p =
     (let ptr = free_space_ptr p - of_nat (length payload);
          p1 = mem_write (set_free_space_ptr ptr p) (unat ptr) payload;
          target = (case find (\<lambda>i. slot_deleted p1 i \<noteq> 0) [0..<unat (slot_count p1)] of
                      Some i \<Rightarrow> i | None \<Rightarrow> unat (slot_count p1));
          p2 = set_slot_deleted target 0
                 (set_slot_size target (of_nat (length payload)) (set_slot_offset target ptr p1));
          p3 = (if target = unat (slot_count p2) then set_slot_count (slot_count p2 + 1) p2 else p2)
      in (Some (of_nat target), p3))"

definition insert_tuple :: "memory \<Rightarrow> bytes \<Rightarrow> memory \<Rightarrow> u16 option \<times> memory" where
  "insert_tuple temp_buf payload p =
     (let needed_space = length payload + 6 in
      if unat (free_space p) < needed_space then
        let p1 = compact temp_buf p in
        if unat (free_space p1) < needed_space then (None, p1) else insert_place payload p1
      else insert_place payload p)"

definition get_tuple :: "u16 \<Rightarrow> memory \<Rightarrow> bytes option" where
  "get_tuple slot_id p =
     (if slot_id \<ge> slot_count p then None
      else if slot_deleted p (unat slot_id) \<noteq> 0 then None
      else Some (mem_read p (unat (slot_offset p (unat slot_id))) (unat (slot_size p (unat slot_id)))))"

definition update_place :: "u16 \<Rightarrow> bytes \<Rightarrow> memory \<Rightarrow> bool \<times> memory" where
  "update_place slot_id new_payload p =
     (let ptr = free_space_ptr p - of_nat (length new_payload);
          p1 = mem_write (set_free_space_ptr ptr p) (unat ptr) new_payload
      in (True, set_slot_size (unat slot_id) (of_nat (length new_payload))
                  (set_slot_offset (unat slot_id) ptr p1)))"

definition update_tuple :: "memory \<Rightarrow> u16 \<Rightarrow> bytes \<Rightarrow> memory \<Rightarrow> bool \<times> memory" where
  "update_tuple temp_buf slot_id new_payload p =
     (let i = unat slot_id in
      if slot_id \<ge> slot_count p then (False, p)
      else if slot_deleted p i \<noteq> 0 then (False, p)
      else if length new_payload \<le> unat (slot_size p i) then
        (True, set_slot_size i (of_nat (length new_payload)) (mem_write p (unat (slot_offset p i)) new_payload))
      else if unat (free_space p) < length new_payload then
        let p1 = compact temp_buf p in
        if unat (free_space p1) < length new_payload then (False, p1)
        else update_place slot_id new_payload p1
      else update_place slot_id new_payload p)"

definition delete_tuple :: "u16 \<Rightarrow> memory \<Rightarrow> bool \<times> memory" where
  "delete_tuple slot_id p =
     (let i = unat slot_id in
      if slot_id \<ge> slot_count p then (False, p)
      else if slot_deleted p i \<noteq> 0 then (False, p)
      else (True, set_slot_size i 0 (set_slot_deleted i 1 p)))"

subsection \<open>Reading fields after writes\<close>

named_theorems page_fields

lemmas field_defs = page_id_def page_lsn_def set_lsn_def slot_count_def set_slot_count_def
  free_space_ptr_def set_free_space_ptr_def slot_offset_def set_slot_offset_def slot_size_def
  set_slot_size_def slot_deleted_def set_slot_deleted_def

lemma rd16_wr16 [simp]: "rd16 (wr16 p a w) a = w"
  by (simp add: rd16_def wr16_def mem_read_write_same)

lemma rd16_frame: "(\<And>i. a \<le> i \<Longrightarrow> i < a + 2 \<Longrightarrow> p i = q i) \<Longrightarrow> rd16 p a = rd16 q a"
  unfolding rd16_def using mem_read_cong [of a 2 p q] by simp

lemma rd64_frame: "(\<And>i. a \<le> i \<Longrightarrow> i < a + 8 \<Longrightarrow> p i = q i) \<Longrightarrow> rd64 p a = rd64 q a"
  unfolding rd64_def using mem_read_cong [of a 8 p q] by simp

lemma wr16_out: "i < a \<or> a + 2 \<le> i \<Longrightarrow> wr16 p a w i = p i"
  by (simp add: wr16_def mem_write_out)

lemma wr64_out: "i < a \<or> a + 8 \<le> i \<Longrightarrow> wr64 p a w i = p i"
  by (simp add: wr64_def mem_write_out)

lemma rd16_wr16_other: "a' + 2 \<le> a \<or> a + 2 \<le> a' \<Longrightarrow> rd16 (wr16 p a w) a' = rd16 p a'"
  by (rule rd16_frame) (auto simp: wr16_out)

lemma rd16_mem_write: "a' + 2 \<le> a \<or> a + length bs \<le> a' \<Longrightarrow> rd16 (mem_write p a bs) a' = rd16 p a'"
  by (rule rd16_frame) (auto simp: mem_write_out)

lemma rd64_wr16: "a' + 8 \<le> a \<or> a + 2 \<le> a' \<Longrightarrow> rd64 (wr16 p a w) a' = rd64 p a'"
  by (rule rd64_frame) (auto simp: wr16_out)

lemma rd64_mem_write: "a' + 8 \<le> a \<or> a + length bs \<le> a' \<Longrightarrow> rd64 (mem_write p a bs) a' = rd64 p a'"
  by (rule rd64_frame) (auto simp: mem_write_out)

lemma slot_addr_apart: "i \<noteq> j \<Longrightarrow> slot_addr i + 6 \<le> slot_addr j \<or> slot_addr j + 6 \<le> slot_addr i"
  unfolding slot_addr_def by linarith

lemma slot_addr_ge: "24 \<le> slot_addr i"
  by (simp add: slot_addr_def)

lemmas field_frame = rd16_wr16_other rd16_mem_write rd64_wr16 rd64_mem_write wr16_out mem_write_out

lemma header_set_count [page_fields]:
  "slot_count (set_slot_count v p) = v" "free_space_ptr (set_slot_count v p) = free_space_ptr p"
  "page_id (set_slot_count v p) = page_id p" "page_lsn (set_slot_count v p) = page_lsn p"
  by (simp_all add: field_defs field_frame)

lemma header_set_free [page_fields]:
  "free_space_ptr (set_free_space_ptr v p) = v" "slot_count (set_free_space_ptr v p) = slot_count p"
  "page_id (set_free_space_ptr v p) = page_id p" "page_lsn (set_free_space_ptr v p) = page_lsn p"
  by (simp_all add: field_defs field_frame)

lemma slot_set_header [page_fields]:
  "slot_offset (set_slot_count v p) j = slot_offset p j" "slot_size (set_slot_count v p) j = slot_size p j"
  "slot_deleted (set_slot_count v p) j = slot_deleted p j"
  "slot_offset (set_free_space_ptr v p) j = slot_offset p j" "slot_size (set_free_space_ptr v p) j = slot_size p j"
  "slot_deleted (set_free_space_ptr v p) j = slot_deleted p j"
  using slot_addr_ge [of j] by (simp_all add: field_defs field_frame)

lemma header_set_slot [page_fields]:
  "slot_count (set_slot_offset i v p) = slot_count p" "free_space_ptr (set_slot_offset i v p) = free_space_ptr p"
  "slot_count (set_slot_size i v p) = slot_count p" "free_space_ptr (set_slot_size i v p) = free_space_ptr p"
  "slot_count (set_slot_deleted i d p) = slot_count p" "free_space_ptr (set_slot_deleted i d p) = free_space_ptr p"
  "page_id (set_slot_offset i v p) = page_id p" "page_lsn (set_slot_offset i v p) = page_lsn p"
  "page_id (set_slot_size i v p) = page_id p" "page_lsn (set_slot_size i v p) = page_lsn p"
  "page_id (set_slot_deleted i d p) = page_id p" "page_lsn (set_slot_deleted i d p) = page_lsn p"
  using slot_addr_ge [of i] by (simp_all add: field_defs field_frame)

lemma slot_set_offset [page_fields]:
  "slot_offset (set_slot_offset i v p) j = (if j = i then v else slot_offset p j)"
  "slot_size (set_slot_offset i v p) j = slot_size p j"
  "slot_deleted (set_slot_offset i v p) j = slot_deleted p j"
  using slot_addr_apart [of i j] by (cases "i = j"; auto simp: field_defs field_frame)+

lemma slot_set_size [page_fields]:
  "slot_size (set_slot_size i v p) j = (if j = i then v else slot_size p j)"
  "slot_offset (set_slot_size i v p) j = slot_offset p j"
  "slot_deleted (set_slot_size i v p) j = slot_deleted p j"
  using slot_addr_apart [of i j] by (cases "i = j"; auto simp: field_defs field_frame)+

lemma slot_set_deleted [page_fields]:
  "slot_deleted (set_slot_deleted i v p) j = (if j = i then v else slot_deleted p j)"
  "slot_offset (set_slot_deleted i v p) j = slot_offset p j"
  "slot_size (set_slot_deleted i v p) j = slot_size p j"
  using slot_addr_apart [of i j] mem_write_in [of 0 "[v]" p "slot_addr i + 4"]
  by (cases "i = j"; auto simp: field_defs field_frame)+

lemma header_mem_write [page_fields]:
  assumes "24 \<le> a"
  shows "slot_count (mem_write p a bs) = slot_count p" "free_space_ptr (mem_write p a bs) = free_space_ptr p"
    "page_id (mem_write p a bs) = page_id p" "page_lsn (mem_write p a bs) = page_lsn p"
  using assms by (simp_all add: field_defs field_frame)

lemma slot_mem_write [page_fields]:
  assumes "slot_addr (Suc j) \<le> a"
  shows "slot_offset (mem_write p a bs) j = slot_offset p j" "slot_size (mem_write p a bs) j = slot_size p j"
    "slot_deleted (mem_write p a bs) j = slot_deleted p j"
  using assms by (simp_all add: field_defs field_frame slot_addr_def)

lemma mem_read_set_header [page_fields]:
  assumes "24 \<le> a"
  shows "mem_read (set_slot_count v p) a n = mem_read p a n" "mem_read (set_free_space_ptr v p) a n = mem_read p a n"
  using assms by (simp_all add: field_defs wr16_def mem_read_write_disjoint)

lemma mem_read_set_slot [page_fields]:
  assumes "slot_addr (Suc i) \<le> a"
  shows "mem_read (set_slot_offset i v p) a n = mem_read p a n" "mem_read (set_slot_size i v p) a n = mem_read p a n"
    "mem_read (set_slot_deleted i d p) a n = mem_read p a n"
  using assms by (simp_all add: field_defs wr16_def mem_read_write_disjoint slot_addr_def)

subsection \<open>The layout invariant\<close>

definition has_bytes :: "memory \<Rightarrow> nat \<Rightarrow> bool" where
  "has_bytes p i \<longleftrightarrow> slot_deleted p i = 0 \<and> slot_size p i \<noteq> 0"

definition page_inv :: "memory \<Rightarrow> bool" where
  "page_inv p \<longleftrightarrow> slot_addr (unat (slot_count p)) \<le> unat (free_space_ptr p) \<and>
     unat (free_space_ptr p) \<le> PAGE_SIZE \<and>
     (\<forall>i < unat (slot_count p). has_bytes p i \<longrightarrow> unat (free_space_ptr p) \<le> unat (slot_offset p i) \<and>
        unat (slot_offset p i) + unat (slot_size p i) \<le> PAGE_SIZE) \<and>
     (\<forall>i < unat (slot_count p). \<forall>j < unat (slot_count p). i \<noteq> j \<longrightarrow> has_bytes p i \<longrightarrow> has_bytes p j \<longrightarrow>
        unat (slot_offset p i) + unat (slot_size p i) \<le> unat (slot_offset p j) \<or>
        unat (slot_offset p j) + unat (slot_size p j) \<le> unat (slot_offset p i))"

lemma page_invI:
  assumes "slot_addr (unat (slot_count p)) \<le> unat (free_space_ptr p)" "unat (free_space_ptr p) \<le> PAGE_SIZE"
    "\<And>i. i < unat (slot_count p) \<Longrightarrow> has_bytes p i \<Longrightarrow> unat (free_space_ptr p) \<le> unat (slot_offset p i) \<and>
        unat (slot_offset p i) + unat (slot_size p i) \<le> PAGE_SIZE"
    "\<And>i j. i < j \<Longrightarrow> j < unat (slot_count p) \<Longrightarrow> has_bytes p i \<Longrightarrow> has_bytes p j \<Longrightarrow>
        unat (slot_offset p i) + unat (slot_size p i) \<le> unat (slot_offset p j) \<or>
        unat (slot_offset p j) + unat (slot_size p j) \<le> unat (slot_offset p i)"
  shows "page_inv p"
  unfolding page_inv_def
proof (intro conjI allI impI)
  fix i j
  assume "i < unat (slot_count p)" "j < unat (slot_count p)" "i \<noteq> j" "has_bytes p i" "has_bytes p j"
  then show "unat (slot_offset p i) + unat (slot_size p i) \<le> unat (slot_offset p j) \<or>
        unat (slot_offset p j) + unat (slot_size p j) \<le> unat (slot_offset p i)"
    using assms(4) [of i j] assms(4) [of j i] by (cases "i < j") auto
qed (use assms in auto)

lemma page_inv_ptr:
  "page_inv p \<Longrightarrow> slot_addr (unat (slot_count p)) \<le> unat (free_space_ptr p)"
  "page_inv p \<Longrightarrow> unat (free_space_ptr p) \<le> PAGE_SIZE"
  by (simp_all add: page_inv_def)

lemma page_inv_extent:
  "page_inv p \<Longrightarrow> i < unat (slot_count p) \<Longrightarrow> has_bytes p i \<Longrightarrow> unat (free_space_ptr p) \<le> unat (slot_offset p i)"
  "page_inv p \<Longrightarrow> i < unat (slot_count p) \<Longrightarrow> has_bytes p i \<Longrightarrow>
     unat (slot_offset p i) + unat (slot_size p i) \<le> PAGE_SIZE"
  by (simp_all add: page_inv_def)

lemma page_inv_apart:
  "page_inv p \<Longrightarrow> i < unat (slot_count p) \<Longrightarrow> j < unat (slot_count p) \<Longrightarrow> i \<noteq> j \<Longrightarrow> has_bytes p i \<Longrightarrow> has_bytes p j \<Longrightarrow>
     unat (slot_offset p i) + unat (slot_size p i) \<le> unat (slot_offset p j) \<or>
     unat (slot_offset p j) + unat (slot_size p j) \<le> unat (slot_offset p i)"
  by (simp add: page_inv_def)

text \<open>The tuples of a page, by slot.\<close>

definition tuples :: "memory \<Rightarrow> u16 \<rightharpoonup> bytes" where
  "tuples p = (\<lambda>i. get_tuple i p)"

definition live_bytes :: "memory \<Rightarrow> nat" where
  "live_bytes p = (\<Sum>i < unat (slot_count p). if slot_deleted p i = 0 then unat (slot_size p i) else 0)"

text \<open>Everything outside the page, and the identity of the page, stays as it was.\<close>

definition same_frame :: "memory \<Rightarrow> memory \<Rightarrow> bool" where
  "same_frame p q \<longleftrightarrow> (\<forall>a \<ge> PAGE_SIZE. q a = p a) \<and> page_id q = page_id p \<and> page_lsn q = page_lsn p"

definition slot_bytes :: "memory \<Rightarrow> nat \<Rightarrow> nat" where
  "slot_bytes p i = (if slot_deleted p i = 0 then unat (slot_size p i) else 0)"

definition bytes_below :: "memory \<Rightarrow> nat \<Rightarrow> nat" where
  "bytes_below p k = (\<Sum>i < k. slot_bytes p i)"

lemma bytes_below_Suc [simp]: "bytes_below p (Suc k) = bytes_below p k + slot_bytes p k"
  by (simp add: bytes_below_def)

lemma bytes_below_0 [simp]: "bytes_below p 0 = 0"
  by (simp add: bytes_below_def)

lemma bytes_below_mono: "j \<le> k \<Longrightarrow> bytes_below p j \<le> bytes_below p k"
  by (simp add: bytes_below_def sum_mono2)

lemma live_bytes_eq: "live_bytes p = bytes_below p (unat (slot_count p))"
  by (simp add: live_bytes_def bytes_below_def slot_bytes_def)

lemma has_bytes_slot_bytes: "slot_bytes p i = (if has_bytes p i then unat (slot_size p i) else 0)"
  by (auto simp: slot_bytes_def has_bytes_def)

text \<open>Disjoint tuples behind the free pointer fit there.\<close>

lemma live_bytes_fit:
  assumes inv: "page_inv p"
  shows "live_bytes p + unat (free_space_ptr p) \<le> PAGE_SIZE"
proof -
  let ?I = "{i. i < unat (slot_count p) \<and> has_bytes p i}"
  let ?ext = "\<lambda>i. {unat (slot_offset p i)..<unat (slot_offset p i) + unat (slot_size p i)}"
  have "live_bytes p = (\<Sum>i \<in> ?I. card (?ext i))"
    unfolding live_bytes_eq bytes_below_def
    by (rule sum.mono_neutral_cong_right) (auto simp: has_bytes_slot_bytes)
  also have "\<dots> = card (\<Union>i \<in> ?I. ?ext i)"
  proof (rule card_UN_disjoint [symmetric])
    show "\<forall>i \<in> ?I. \<forall>j \<in> ?I. i \<noteq> j \<longrightarrow> ?ext i \<inter> ?ext j = {}"
      using page_inv_apart [OF inv] by fastforce
  qed simp_all
  also have "\<dots> \<le> card {unat (free_space_ptr p)..<PAGE_SIZE}"
    using page_inv_extent [OF inv] by (intro card_mono) fastforce+
  finally have "live_bytes p \<le> PAGE_SIZE - unat (free_space_ptr p)" by simp
  then show ?thesis using page_inv_ptr(2) [OF inv] by linarith
qed

text \<open>What holds after the first \<open>k\<close> slots have been moved.\<close>

definition compacting :: "memory \<Rightarrow> nat \<Rightarrow> memory \<times> memory \<times> u16 \<Rightarrow> bool" where
  "compacting p k st = (case st of (q, t, f) \<Rightarrow>
     unat f = PAGE_SIZE - bytes_below p k \<and>
     slot_count q = slot_count p \<and> page_id q = page_id p \<and> page_lsn q = page_lsn p \<and>
     (\<forall>j. slot_size q j = slot_size p j \<and> slot_deleted q j = slot_deleted p j) \<and>
     (\<forall>j. k \<le> j \<or> \<not> has_bytes p j \<longrightarrow> slot_offset q j = slot_offset p j) \<and>
     (\<forall>a \<ge> slot_addr (unat (slot_count p)). q a = p a) \<and>
     (\<forall>j < k. has_bytes p j \<longrightarrow> unat (slot_offset q j) = PAGE_SIZE - bytes_below p (Suc j) \<and>
        mem_read t (unat (slot_offset q j)) (unat (slot_size p j)) =
        mem_read p (unat (slot_offset p j)) (unat (slot_size p j))))"

lemma compacting_init: "compacting p 0 (p, t, of_nat PAGE_SIZE)"
  by (simp add: compacting_def PAGE_SIZE_def)

lemma unat_sub_small: "unat (b :: u16) \<le> unat a \<Longrightarrow> unat (a - b) = unat a - unat b"
  by (simp add: unat_sub word_le_nat_alt)

lemma bytes_below_fit:
  assumes "page_inv p" "k \<le> unat (slot_count p)"
  shows "bytes_below p k \<le> PAGE_SIZE" "slot_addr (unat (slot_count p)) + bytes_below p k \<le> PAGE_SIZE"
  using live_bytes_fit [OF assms(1)] bytes_below_mono [OF assms(2), of p] page_inv_ptr [OF assms(1)]
  unfolding live_bytes_eq by linarith+

lemma slot_addr_Suc_le: "i < n \<Longrightarrow> slot_addr (Suc i) \<le> slot_addr n"
  by (simp add: slot_addr_def)

lemma slot_addr_mono: "i \<le> j \<Longrightarrow> slot_addr i \<le> slot_addr j"
  by (simp add: slot_addr_def)

lemma set_slot_offset_out: "slot_addr (Suc i) \<le> a \<Longrightarrow> set_slot_offset i v p a = p a"
  by (simp add: set_slot_offset_def wr16_out slot_addr_def)

lemma extent_read_cong:
  assumes "page_inv p" "i < unat (slot_count p)" "\<forall>a \<ge> slot_addr (unat (slot_count p)). q a = p a"
    "slot_deleted p i = 0"
  shows "mem_read q (unat (slot_offset p i)) (unat (slot_size p i)) =
    mem_read p (unat (slot_offset p i)) (unat (slot_size p i))"
proof (cases "has_bytes p i")
  case True
  then have "slot_addr (unat (slot_count p)) \<le> unat (slot_offset p i)"
    using page_inv_extent(1) [OF assms(1,2)] page_inv_ptr(1) [OF assms(1)] by linarith
  then show ?thesis using assms(3) by (intro mem_read_cong) simp
next
  case False
  then show ?thesis using assms(4) by (simp add: has_bytes_def)
qed

lemma compacting_step:
  assumes inv: "page_inv p" and c: "compacting p k (q, t, f)" and k: "k < unat (slot_count p)"
  shows "compacting p (Suc k) (compact_step (q, t, f) k)"
proof (cases "has_bytes p k")
  case False
  then show ?thesis
    using c by (auto simp: compacting_def compact_step_def has_bytes_def less_Suc_eq slot_bytes_def
        word_gt_0 split: if_splits)
next
  case True
  let ?ptr = "f - slot_size p k"
  let ?data = "mem_read p (unat (slot_offset p k)) (unat (slot_size p k))"
  have C: "unat f = PAGE_SIZE - bytes_below p k" "\<forall>a \<ge> slot_addr (unat (slot_count p)). q a = p a"
    "slot_offset q k = slot_offset p k" "slot_size q k = slot_size p k" "slot_deleted q k = slot_deleted p k"
    using c by (simp_all add: compacting_def)
  have sb: "slot_bytes p k = unat (slot_size p k)" using True by (simp add: has_bytes_slot_bytes)
  have fit: "bytes_below p (Suc k) \<le> PAGE_SIZE" using bytes_below_fit [OF inv, of "Suc k"] k by simp
  have ptr: "unat ?ptr = PAGE_SIZE - bytes_below p (Suc k)"
    using fit sb C(1) by (subst unat_sub_small) auto
  have step: "compact_step (q, t, f) k = (set_slot_offset k ?ptr q, mem_write t (unat ?ptr) ?data, ?ptr)"
    using True C extent_read_cong [OF inv k C(2)]
    by (simp add: compact_step_def has_bytes_def word_gt_0 Let_def)
  have old: "mem_read (mem_write t (unat ?ptr) ?data) (unat (slot_offset q j)) (unat (slot_size p j)) =
      mem_read t (unat (slot_offset q j)) (unat (slot_size p j))" if "j < k" "has_bytes p j" for j
  proof -
    have "unat (slot_offset q j) = PAGE_SIZE - bytes_below p (Suc j)" using c that by (simp add: compacting_def)
    moreover have "bytes_below p (Suc j) \<le> bytes_below p k" using that by (intro bytes_below_mono) simp
    ultimately show ?thesis using ptr fit sb by (intro mem_read_write_disjoint) auto
  qed
  show ?thesis
    using c old ptr True k slot_addr_Suc_le [OF k]
    unfolding step compacting_def
    by (auto simp: page_fields set_slot_offset_out less_Suc_eq mem_read_write_same)
qed

lemma compact_loop:
  assumes "page_inv p" "k \<le> unat (slot_count p)"
  shows "compacting p k (foldl compact_step (p, t, of_nat PAGE_SIZE) [0..<k])"
  using assms(2)
proof (induction k)
  case (Suc k)
  obtain q t' f where st: "foldl compact_step (p, t, of_nat PAGE_SIZE) [0..<k] = (q, t', f)"
    by (metis prod_cases3)
  then show ?case using compacting_step [OF assms(1), of k q t' f] Suc by simp
qed (simp add: compacting_init)

lemma mem_copy: "mem_write q a (mem_read t a n) i = (if a \<le> i \<and> i < a + n then t i else q i)"
  using nth_mem_read [of "i - a" n t a] by (auto simp: mem_write_def)

lemma compact_fields:
  fixes p t :: memory
  assumes inv: "page_inv p"
  defines "q \<equiv> compact t p" and "n \<equiv> unat (slot_count p)"
  shows "slot_count q = slot_count p" "unat (free_space_ptr q) = PAGE_SIZE - live_bytes p" "same_frame p q"
    "\<And>j. j < n \<Longrightarrow> slot_size q j = slot_size p j" "\<And>j. j < n \<Longrightarrow> slot_deleted q j = slot_deleted p j"
    "\<And>j. j < n \<Longrightarrow> has_bytes p j \<Longrightarrow> unat (slot_offset q j) = PAGE_SIZE - bytes_below p (Suc j)"
    "\<And>j. j < n \<Longrightarrow> has_bytes p j \<Longrightarrow> mem_read q (unat (slot_offset q j)) (unat (slot_size p j)) =
       mem_read p (unat (slot_offset p j)) (unat (slot_size p j))"
proof -
  obtain r u f where st: "foldl compact_step (p, t, of_nat PAGE_SIZE) [0..<n] = (r, u, f)"
    by (metis prod_cases3)
  have c: "compacting p n (r, u, f)" using compact_loop [OF inv, of n t] st by (simp add: n_def)
  let ?w = "mem_write r (unat f) (mem_read u (unat f) (PAGE_SIZE - unat f))"
  have q: "q = set_free_space_ptr f ?w"
    using st by (simp add: q_def compact_def n_def Let_def)
  have f: "unat f = PAGE_SIZE - live_bytes p" "slot_addr n \<le> unat f" "unat f \<le> PAGE_SIZE"
    using c bytes_below_fit(2) [OF inv, of n] by (auto simp: compacting_def live_bytes_eq n_def)
  have f24: "24 \<le> unat f" using f(2) slot_addr_ge order_trans by blast
  have a: "slot_addr (Suc j) \<le> unat f" if "j < n" for j using slot_addr_Suc_le [OF that] f(2) by simp
  show "slot_count q = slot_count p" "unat (free_space_ptr q) = PAGE_SIZE - live_bytes p"
    using c f f24 by (simp_all add: q page_fields compacting_def)
  show "slot_size q j = slot_size p j" "slot_deleted q j = slot_deleted p j" if "j < n" for j
    using c a [OF that] by (simp_all add: q page_fields compacting_def)
  have off: "slot_offset q j = slot_offset r j" if "j < n" for j
    using a [OF that] by (simp add: q page_fields)
  show o: "unat (slot_offset q j) = PAGE_SIZE - bytes_below p (Suc j)" if "j < n" "has_bytes p j" for j
    using c that off [OF that(1)] by (simp add: compacting_def)
  have "page_id q = page_id p" "page_lsn q = page_lsn p"
    using c f24 by (simp_all add: q page_fields compacting_def)
  moreover have "q a = p a" if "a \<ge> PAGE_SIZE" for a
  proof -
    have "r a = p a" using c f(2,3) that by (simp add: compacting_def n_def)
    moreover have "20 \<le> a" "\<not> a < unat f + (PAGE_SIZE - unat f)" using that f(3) f24 by linarith+
    ultimately show ?thesis by (simp add: q set_free_space_ptr_def wr16_out mem_copy)
  qed
  ultimately show "same_frame p q" by (simp add: same_frame_def)
  show "mem_read q (unat (slot_offset q j)) (unat (slot_size p j)) =
       mem_read p (unat (slot_offset p j)) (unat (slot_size p j))" if j: "j < n" "has_bytes p j" for j
  proof -
    have le: "bytes_below p (Suc j) \<le> live_bytes p" "bytes_below p (Suc j) \<le> PAGE_SIZE"
      using bytes_below_mono [of "Suc j" n p] j bytes_below_fit(1) [OF inv, of "Suc j"]
      by (auto simp: live_bytes_eq n_def)
    have "slot_bytes p j = unat (slot_size p j)" using j by (simp add: has_bytes_slot_bytes)
    then have "unat f \<le> unat (slot_offset q j)" "unat (slot_offset q j) + unat (slot_size p j) \<le> PAGE_SIZE"
      using le f(1) o [OF j] by auto
    then have "mem_read q (unat (slot_offset q j)) (unat (slot_size p j)) =
        mem_read u (unat (slot_offset q j)) (unat (slot_size p j))"
      using f24 by (intro mem_read_cong) (simp add: q set_free_space_ptr_def wr16_out mem_copy)
    moreover have "mem_read u (unat (slot_offset r j)) (unat (slot_size p j)) =
        mem_read p (unat (slot_offset p j)) (unat (slot_size p j))"
      using c j unfolding compacting_def by blast
    ultimately show ?thesis unfolding off [OF j(1)] by (rule trans)
  qed
qed

lemma tuples_eqI:
  assumes "slot_count q = slot_count p"
    "\<And>j. j < unat (slot_count p) \<Longrightarrow> slot_deleted q j = slot_deleted p j"
    "\<And>j. j < unat (slot_count p) \<Longrightarrow> slot_deleted p j = 0 \<Longrightarrow>
       mem_read q (unat (slot_offset q j)) (unat (slot_size q j)) =
       mem_read p (unat (slot_offset p j)) (unat (slot_size p j))"
  shows "tuples q = tuples p"
  using assms by (auto simp: tuples_def get_tuple_def fun_eq_iff word_le_nat_alt not_le)

lemma compact_correct:
  assumes inv: "page_inv p"
  shows "page_inv (compact t p)" "tuples (compact t p) = tuples p"
proof -
  note F = compact_fields [OF inv, where t = t]
  show "tuples (compact t p) = tuples p"
  proof (rule tuples_eqI)
    fix j assume "j < unat (slot_count p)" "slot_deleted p j = 0"
    then show "mem_read (compact t p) (unat (slot_offset (compact t p) j)) (unat (slot_size (compact t p) j)) =
       mem_read p (unat (slot_offset p j)) (unat (slot_size p j))"
      using F(4,7) [of j] by (cases "has_bytes p j") (auto simp: has_bytes_def)
  qed (use F in auto)
  have hb: "has_bytes (compact t p) i \<longleftrightarrow> has_bytes p i" if "i < unat (slot_count p)" for i
    using F(4,5) [OF that] by (simp add: has_bytes_def)
  have below: "bytes_below p (Suc i) \<le> live_bytes p" if "i < unat (slot_count p)" for i
    using bytes_below_mono [of "Suc i" "unat (slot_count p)" p] that by (simp add: live_bytes_eq)
  have sb: "slot_bytes p i = unat (slot_size p i)" if "has_bytes p i" for i
    using that by (simp add: has_bytes_slot_bytes)
  have fit: "slot_addr (unat (slot_count p)) + live_bytes p \<le> PAGE_SIZE"
    using bytes_below_fit(2) [OF inv, of "unat (slot_count p)"] by (simp add: live_bytes_eq)
  show "page_inv (compact t p)"
  proof (rule page_invI, goal_cases)
    case 1 then show ?case using F(1,2) fit by simp
  next
    case 2 then show ?case using F(2) by simp
  next
    case (3 i)
    then have i: "i < unat (slot_count p)" "has_bytes p i" using F(1) hb by auto
    show ?case using F(2) F(4,6) [of i] i below [of i] sb [of i] fit by auto
  next
    case (4 i j)
    then have i: "i < j" "j < unat (slot_count p)" "has_bytes p i" "has_bytes p j" using F(1) hb by auto
    have "bytes_below p (Suc i) \<le> bytes_below p j" using i(1) by (intro bytes_below_mono) simp
    then show ?case using F(4,6) [of i] F(4,6) [of j] i below [of j] sb fit by auto
  qed
qed

subsection \<open>Placing a tuple\<close>

text \<open>
  The effect shared by insertion and by an update that does not fit in place: \<open>q\<close> is \<open>p\<close> with the
  payload written just below the free pointer and slot \<open>t\<close> pointing to it.
\<close>

definition placed :: "memory \<Rightarrow> nat \<Rightarrow> bytes \<Rightarrow> memory \<Rightarrow> bool" where
  "placed p t pl q \<longleftrightarrow>
     unat (slot_count q) = max (unat (slot_count p)) (Suc t) \<and>
     unat (free_space_ptr q) = unat (free_space_ptr p) - length pl \<and>
     slot_addr (unat (slot_count q)) + length pl \<le> unat (free_space_ptr p) \<and>
     unat (slot_offset q t) = unat (free_space_ptr q) \<and> unat (slot_size q t) = length pl \<and> slot_deleted q t = 0 \<and>
     (\<forall>j < unat (slot_count p). j \<noteq> t \<longrightarrow> slot_offset q j = slot_offset p j \<and> slot_size q j = slot_size p j \<and>
        slot_deleted q j = slot_deleted p j) \<and>
     (\<forall>a \<ge> unat (free_space_ptr p). q a = p a) \<and>
     mem_read q (unat (free_space_ptr q)) (length pl) = pl"

lemma placed_inv:
  assumes inv: "page_inv p" and pl: "placed p t pl q" and t: "t \<le> unat (slot_count p)"
  shows "page_inv q"
proof -
  have P: "unat (slot_count q) = max (unat (slot_count p)) (Suc t)"
    "unat (free_space_ptr q) = unat (free_space_ptr p) - length pl"
    "slot_addr (unat (slot_count q)) + length pl \<le> unat (free_space_ptr p)"
    "unat (slot_offset q t) = unat (free_space_ptr q)" "unat (slot_size q t) = length pl"
    using pl unfolding placed_def by blast+
  have other: "j < unat (slot_count p) \<and> slot_offset q j = slot_offset p j \<and> slot_size q j = slot_size p j \<and> has_bytes p j"
    if "j < unat (slot_count q)" "j \<noteq> t" "has_bytes q j" for j
    using pl that t by (auto simp: placed_def has_bytes_def)
  show ?thesis
  proof (rule page_invI, goal_cases)
    case 1 then show ?case using P(2,3) by simp
  next
    case 2 then show ?case using P(2) page_inv_ptr(2) [OF inv] by simp
  next
    case (3 i)
    then show ?case
      using P other [of i] page_inv_extent [OF inv, of i] page_inv_ptr(2) [OF inv] by (cases "i = t") auto
  next
    case (4 i j)
    have lo: "unat (free_space_ptr p) \<le> unat (slot_offset q l)"
      if "l < unat (slot_count q)" "l \<noteq> t" "has_bytes q l" for l
      using other [OF that] page_inv_extent(1) [OF inv, of l] by simp
    show ?case
    proof (cases "i = t \<or> j = t")
      case True
      then show ?thesis using P(2-5) lo [of i] lo [of j] 4 by auto
    next
      case False
      then show ?thesis using other [of i] other [of j] page_inv_apart [OF inv, of i j] 4 by auto
    qed
  qed
qed

lemma placed_tuples:
  assumes inv: "page_inv p" and pl: "placed p t pl q" and t: "t \<le> unat (slot_count p)"
  shows "tuples q = (tuples p)(of_nat t \<mapsto> pl)"
proof
  fix i :: u16
  have cq: "unat (slot_count q) = max (unat (slot_count p)) (Suc t)" using pl by (simp add: placed_def)
  have "t < 65536" using cq unat_u16_less [of "slot_count q"] by simp
  then have ti: "of_nat t = i \<longleftrightarrow> unat i = t" by (auto simp: unat_of_nat)
  show "tuples q i = ((tuples p)(of_nat t \<mapsto> pl)) i"
  proof (cases "unat i = t")
    case True
    then show ?thesis
      using pl ti by (auto simp: tuples_def get_tuple_def placed_def word_le_nat_alt)
  next
    case False
    show ?thesis
    proof (cases "unat i < unat (slot_count p)")
      case True
      have f: "slot_offset q (unat i) = slot_offset p (unat i)" "slot_size q (unat i) = slot_size p (unat i)"
        "slot_deleted q (unat i) = slot_deleted p (unat i)"
        using pl False True by (simp_all add: placed_def)
      have "mem_read q (unat (slot_offset p (unat i))) (unat (slot_size p (unat i))) =
          mem_read p (unat (slot_offset p (unat i))) (unat (slot_size p (unat i)))" if "slot_deleted p (unat i) = 0"
      proof (cases "has_bytes p (unat i)")
        case hb: True
        show ?thesis
          using page_inv_extent(1) [OF inv True hb] pl by (intro mem_read_cong) (simp add: placed_def)
      next
        case False
        then show ?thesis using that by (simp add: has_bytes_def)
      qed
      then show ?thesis
        using f True False ti cq by (auto simp: tuples_def get_tuple_def word_le_nat_alt)
    next
      case ge: False
      then have "\<not> unat i < unat (slot_count q)" using False t cq by auto
      then show ?thesis using ge False ti by (auto simp: tuples_def get_tuple_def word_le_nat_alt)
    qed
  qed
qed

lemma free_space_eq:
  assumes "page_inv p"
  shows "unat (free_space p) = unat (free_space_ptr p) - slot_addr (unat (slot_count p))"
proof -
  let ?d = "unat (free_space_ptr p) - (24 + unat (slot_count p) * 6)"
  have "?d < 65536" using unat_u16_less [of "free_space_ptr p"] by simp
  moreover have "\<not> unat (free_space_ptr p) < 24 + unat (slot_count p) * 6"
    using page_inv_ptr(1) [OF assms] by (simp add: slot_addr_def)
  ultimately show ?thesis
    unfolding free_space_def Let_def by (simp only: if_False unat_of_nat_u16 slot_addr_def)
qed

lemma unat_ptr_sub:
  assumes "length pl \<le> unat f"
  shows "unat (f - of_nat (length pl) :: u16) = unat f - length pl"
  using assms unat_u16_less [of f] by (subst unat_sub_small) (simp_all add: unat_of_nat_u16)

lemma find_upt_None: "find P [0..<n] = None \<longleftrightarrow> (\<forall>i < n. \<not> P i)"
  by (auto simp: find_None_iff)

lemma find_upt_Some: "find P [0..<n] = Some i \<Longrightarrow> i < n \<and> P i"
  by (auto simp: find_Some_iff)

lemma same_frameI:
  "(\<And>a. a \<ge> PAGE_SIZE \<Longrightarrow> q a = p a) \<Longrightarrow> page_id q = page_id p \<Longrightarrow> page_lsn q = page_lsn p \<Longrightarrow> same_frame p q"
  by (simp add: same_frame_def)

lemma set_slot_outside:
  assumes "slot_addr (Suc i) \<le> PAGE_SIZE" "PAGE_SIZE \<le> a"
  shows "set_slot_offset i v p a = p a" "set_slot_size i v p a = p a" "set_slot_deleted i d p a = p a"
  using assms by (auto simp: field_defs wr16_out mem_write_out slot_addr_def)

lemma set_header_outside:
  assumes "24 \<le> a"
  shows "set_slot_count v p a = p a" "set_free_space_ptr v p a = p a"
  using assms by (auto simp: field_defs wr16_out)

lemma set_slot_out:
  assumes "slot_addr (Suc i) \<le> a"
  shows "set_slot_offset i v p a = p a" "set_slot_size i v p a = p a" "set_slot_deleted i d p a = p a"
  using assms by (auto simp: field_defs wr16_out mem_write_out slot_addr_def)

lemma push_down:
  assumes "slot_addr n \<le> unat ptr" and p1_def: "p1 = mem_write (set_free_space_ptr ptr p) (unat ptr) pl"
  shows "slot_count p1 = slot_count p" "free_space_ptr p1 = ptr" "page_id p1 = page_id p" "page_lsn p1 = page_lsn p"
    "\<And>j. j < n \<Longrightarrow> slot_offset p1 j = slot_offset p j" "\<And>j. j < n \<Longrightarrow> slot_size p1 j = slot_size p j"
    "\<And>j. j < n \<Longrightarrow> slot_deleted p1 j = slot_deleted p j"
    "\<And>a. unat ptr + length pl \<le> a \<Longrightarrow> p1 a = p a"
    "mem_read p1 (unat ptr) (length pl) = pl"
proof -
  have up: "24 \<le> unat ptr" using assms(1) slot_addr_ge order_trans by blast
  then show "slot_count p1 = slot_count p" "free_space_ptr p1 = ptr" "page_id p1 = page_id p" "page_lsn p1 = page_lsn p"
    by (simp_all add: p1_def page_fields)
  show "slot_offset p1 j = slot_offset p j" "slot_size p1 j = slot_size p j" "slot_deleted p1 j = slot_deleted p j"
    if "j < n" for j
    using order_trans [OF slot_addr_Suc_le [OF that] assms(1)] by (simp_all add: p1_def page_fields)
  show "p1 a = p a" if "unat ptr + length pl \<le> a" for a
    using that up by (simp add: p1_def mem_write_out set_header_outside)
  show "mem_read p1 (unat ptr) (length pl) = pl" by (simp add: p1_def mem_read_write_same)
qed

lemma set_slot_placed:
  assumes inv: "page_inv p" and ptr: "unat ptr = unat (free_space_ptr p) - length pl" "length pl \<le> unat (free_space_ptr p)"
    and n: "n = max (unat (slot_count p)) (Suc t)" "slot_addr n \<le> unat ptr"
    and p1: "p1 = mem_write (set_free_space_ptr ptr p) (unat ptr) pl"
    and q: "slot_count q = of_nat n" "free_space_ptr q = ptr" "page_id q = page_id p1" "page_lsn q = page_lsn p1"
      "slot_offset q t = ptr" "slot_size q t = of_nat (length pl)" "slot_deleted q t = 0"
      "\<And>j. j \<noteq> t \<Longrightarrow> slot_offset q j = slot_offset p1 j \<and> slot_size q j = slot_size p1 j \<and> slot_deleted q j = slot_deleted p1 j"
      "\<And>a. slot_addr n \<le> a \<Longrightarrow> q a = p1 a"
  shows "placed p t pl q" "same_frame p q"
proof -
  note D = push_down [OF n(2) p1]
  have fp: "unat (free_space_ptr p) \<le> PAGE_SIZE" using page_inv_ptr(2) [OF inv] .
  have n16: "unat (of_nat n :: u16) = n" using n(2) ptr(1) fp
    by (intro unat_of_nat_u16) (simp add: slot_addr_def PAGE_SIZE_def)
  have len: "unat (of_nat (length pl) :: u16) = length pl"
    using ptr(2) fp by (intro unat_of_nat_u16) (simp add: PAGE_SIZE_def)
  have rd: "mem_read q (unat ptr) (length pl) = mem_read p1 (unat ptr) (length pl)"
    using n(2) q(9) by (intro mem_read_cong) simp
  have old: "slot_offset q j = slot_offset p j \<and> slot_size q j = slot_size p j \<and> slot_deleted q j = slot_deleted p j"
    if "j < unat (slot_count p)" "j \<noteq> t" for j
    using that q(8) [of j] D(5-7) [of j] n(1) by simp
  have hi: "q a = p a" if "unat (free_space_ptr p) \<le> a" for a
    using that q(9) [of a] D(8) [of a] n(2) ptr by simp
  show "placed p t pl q"
    unfolding placed_def using q(1,2,5-7) n16 len rd D(9) old hi n ptr by simp
  show "same_frame p q"
    using hi fp q(3,4) D(3,4) by (intro same_frameI) auto
qed

lemma insert_place_correct:
  assumes inv: "page_inv p" and room: "length pl + 6 \<le> unat (free_space p)"
  obtains t q where "insert_place pl p = (Some (of_nat t), q)" "t \<le> unat (slot_count p)"
    "t < unat (slot_count p) \<Longrightarrow> slot_deleted p t \<noteq> 0" "placed p t pl q" "same_frame p q"
proof -
  let ?n = "unat (slot_count p)" and ?f = "unat (free_space_ptr p)"
  have fit: "slot_addr (Suc ?n) + length pl \<le> ?f"
    using room free_space_eq [OF inv] page_inv_ptr [OF inv] by (auto simp: slot_addr_def)
  define ptr where "ptr = free_space_ptr p - of_nat (length pl)"
  have ptr: "unat ptr = ?f - length pl" using fit unfolding ptr_def by (intro unat_ptr_sub) simp
  have up: "slot_addr (Suc ?n) \<le> unat ptr" using fit ptr by simp
  define p1 where "p1 = mem_write (set_free_space_ptr ptr p) (unat ptr) pl"
  note D = push_down [OF up p1_def]
  define t where "t = (case find (\<lambda>i. slot_deleted p1 i \<noteq> 0) [0..<?n] of Some i \<Rightarrow> i | None \<Rightarrow> ?n)"
  have t: "t \<le> ?n" "t < ?n \<Longrightarrow> slot_deleted p t \<noteq> 0"
    using D(7) find_upt_Some [of "\<lambda>i. slot_deleted p1 i \<noteq> 0" ?n]
    by (auto simp: t_def split: option.splits)
  define p2 where "p2 = set_slot_deleted t 0 (set_slot_size t (of_nat (length pl)) (set_slot_offset t ptr p1))"
  define q where "q = (if t = ?n then set_slot_count (slot_count p + 1) p2 else p2)"
  have cnt2: "slot_count p2 = slot_count p" using D(1) by (simp add: p2_def page_fields)
  have ins: "insert_place pl p = (Some (of_nat t), q)"
    unfolding insert_place_def Let_def ptr_def [symmetric] p1_def [symmetric] D(1) t_def [symmetric]
      p2_def [symmetric] cnt2 q_def [symmetric] ..
  let ?m = "max ?n (Suc t)"
  have mle: "slot_addr ?m \<le> unat ptr" using t(1) up by (auto simp: slot_addr_def max_def)
  have cnt: "slot_count q = of_nat ?m"
    using t(1) cnt2 by (cases "t = ?n") (simp_all add: q_def page_fields max_absorb1 max_absorb2 add.commute)
  have fields: "free_space_ptr q = ptr" "page_id q = page_id p1" "page_lsn q = page_lsn p1"
      "slot_offset q t = ptr" "slot_size q t = of_nat (length pl)" "slot_deleted q t = 0"
    using D(2) by (simp_all add: q_def p2_def page_fields)
  have other: "slot_offset q j = slot_offset p1 j \<and> slot_size q j = slot_size p1 j \<and> slot_deleted q j = slot_deleted p1 j"
    if "j \<noteq> t" for j using that by (simp add: q_def p2_def page_fields)
  have hi: "q a = p1 a" if "slot_addr ?m \<le> a" for a
  proof -
    have "slot_addr (Suc t) \<le> slot_addr ?m" by (rule slot_addr_mono) simp
    then have "slot_addr (Suc t) \<le> a" "24 \<le> a" using that slot_addr_ge [of ?m] by linarith+
    then have "p2 a = p1 a" by (simp add: p2_def set_slot_out)
    then show ?thesis using \<open>24 \<le> a\<close> by (simp add: q_def set_header_outside)
  qed
  have le: "length pl \<le> ?f" using fit by simp
  show ?thesis
    using that [OF ins t(1) t(2)] set_slot_placed [OF inv ptr le refl mle p1_def cnt fields other hi] by blast
qed

lemma update_place_correct:
  assumes inv: "page_inv p" and room: "length pl \<le> unat (free_space p)"
    and i: "unat i < unat (slot_count p)" "slot_deleted p (unat i) = 0"
  shows "fst (update_place i pl p)" "placed p (unat i) pl (snd (update_place i pl p))"
    "same_frame p (snd (update_place i pl p))"
proof -
  let ?n = "unat (slot_count p)" and ?f = "unat (free_space_ptr p)"
  have fit: "slot_addr ?n + length pl \<le> ?f"
    using room free_space_eq [OF inv] page_inv_ptr [OF inv] by auto
  define ptr where "ptr = free_space_ptr p - of_nat (length pl)"
  have ptr: "unat ptr = ?f - length pl" using fit unfolding ptr_def by (intro unat_ptr_sub) simp
  have up: "slot_addr ?n \<le> unat ptr" using fit ptr by simp
  define p1 where "p1 = mem_write (set_free_space_ptr ptr p) (unat ptr) pl"
  note D = push_down [OF up p1_def]
  define q where "q = set_slot_size (unat i) (of_nat (length pl)) (set_slot_offset (unat i) ptr p1)"
  have upd: "update_place i pl p = (True, q)"
    unfolding update_place_def Let_def ptr_def [symmetric] p1_def [symmetric] q_def [symmetric] ..
  have m: "?n = max ?n (Suc (unat i))" using i(1) by simp
  have cnt: "slot_count q = of_nat ?n" using D(1) by (simp add: q_def page_fields)
  have fields: "free_space_ptr q = ptr" "page_id q = page_id p1" "page_lsn q = page_lsn p1"
      "slot_offset q (unat i) = ptr" "slot_size q (unat i) = of_nat (length pl)" "slot_deleted q (unat i) = 0"
    using D(2) D(7) [OF i(1)] i(2) by (simp_all add: q_def page_fields)
  have other: "slot_offset q j = slot_offset p1 j \<and> slot_size q j = slot_size p1 j \<and> slot_deleted q j = slot_deleted p1 j"
    if "j \<noteq> unat i" for j using that by (simp add: q_def page_fields)
  have hi: "q a = p1 a" if "slot_addr ?n \<le> a" for a
    using slot_addr_Suc_le [OF i(1)] that by (simp add: q_def set_slot_out)
  have le: "length pl \<le> ?f" using fit by simp
  show "fst (update_place i pl p)" "placed p (unat i) pl (snd (update_place i pl p))"
    "same_frame p (snd (update_place i pl p))"
    using set_slot_placed [OF inv ptr le m up p1_def cnt fields other hi] by (simp_all add: upd)
qed

text \<open>The effect shared by in-place updates and deletions: slot \<open>i\<close> may shrink or die.\<close>

lemma shrink_slot:
  assumes inv: "page_inv p" and i: "i < unat (slot_count p)" "slot_deleted p i = 0"
    and q: "slot_count q = slot_count p" "free_space_ptr q = free_space_ptr p"
      "\<And>j. j < unat (slot_count p) \<Longrightarrow> j \<noteq> i \<Longrightarrow>
         slot_offset q j = slot_offset p j \<and> slot_size q j = slot_size p j \<and> slot_deleted q j = slot_deleted p j"
      "slot_offset q i = slot_offset p i" "unat (slot_size q i) \<le> unat (slot_size p i)"
      "\<And>a. slot_addr (unat (slot_count p)) \<le> a \<Longrightarrow>
         a < unat (slot_offset p i) \<or> unat (slot_offset p i) + unat (slot_size p i) \<le> a \<Longrightarrow> q a = p a"
  shows "page_inv q" "unat k \<noteq> i \<Longrightarrow> tuples q k = tuples p k"
proof -
  have hb: "has_bytes p j" if "j < unat (slot_count p)" "has_bytes q j" for j
    using that q(3) [of j] q(5) i by (cases "j = i") (auto simp: has_bytes_def unat_eq_0 [symmetric])
  have e: "slot_offset q j = slot_offset p j" "unat (slot_size q j) \<le> unat (slot_size p j)"
    if "j < unat (slot_count p)" for j
    using q(3) [of j] q(4,5) that by (cases "j = i"; auto)+
  show "page_inv q"
  proof (rule page_invI, goal_cases)
    case 1 then show ?case using page_inv_ptr(1) [OF inv] q(1,2) by simp
  next
    case 2 then show ?case using page_inv_ptr(2) [OF inv] q(2) by simp
  next
    case (3 j)
    then have "j < unat (slot_count p)" using q(1) by simp
    then show ?case using page_inv_extent [OF inv, of j] hb 3(2) e [of j] q(2) by auto
  next
    case (4 j l)
    then have "j < unat (slot_count p)" "l < unat (slot_count p)" using q(1) by simp_all
    then show ?case using page_inv_apart [OF inv, of j l] hb 4 e [of j] e [of l] by auto
  qed
  show "tuples q k = tuples p k" if k: "unat k \<noteq> i"
  proof (cases "unat k < unat (slot_count p) \<and> slot_deleted p (unat k) = 0")
    case True
    have "mem_read q (unat (slot_offset p (unat k))) (unat (slot_size p (unat k))) =
       mem_read p (unat (slot_offset p (unat k))) (unat (slot_size p (unat k)))"
    proof (rule mem_read_cong, rule q(6))
      fix a assume a: "unat (slot_offset p (unat k)) \<le> a" "a < unat (slot_offset p (unat k)) + unat (slot_size p (unat k))"
      then have b: "has_bytes p (unat k)" using True by (auto simp: has_bytes_def)
      show "slot_addr (unat (slot_count p)) \<le> a"
        using page_inv_extent(1) [OF inv _ b] page_inv_ptr(1) [OF inv] True a by simp
      show "a < unat (slot_offset p i) \<or> unat (slot_offset p i) + unat (slot_size p i) \<le> a"
        using page_inv_apart [OF inv, of i "unat k"] b i True k a
        by (cases "has_bytes p i") (auto simp: has_bytes_def)
    qed
    then show ?thesis using True q(1) q(3) [of "unat k"] k by (simp add: tuples_def get_tuple_def word_le_nat_alt)
  next
    case False
    then show ?thesis using q(1) q(3) [of "unat k"] k by (auto simp: tuples_def get_tuple_def word_le_nat_alt)
  qed
qed

lemma in_place_correct:
  assumes inv: "page_inv p" and i: "unat i < unat (slot_count p)" "slot_deleted p (unat i) = 0"
    and len: "length pl \<le> unat (slot_size p (unat i))"
    and q: "q = set_slot_size (unat i) (of_nat (length pl)) (mem_write p (unat (slot_offset p (unat i))) pl)"
  shows "page_inv q" "tuples q = (tuples p)(i \<mapsto> pl)" "same_frame p q"
proof -
  let ?n = "unat (slot_count p)" and ?o = "unat (slot_offset p (unat i))"
  define p1 where "p1 = mem_write p ?o pl"
  have up: "slot_addr ?n \<le> ?o \<and> ?o + length pl \<le> PAGE_SIZE" if "pl \<noteq> []"
  proof -
    have "has_bytes p (unat i)" using that len i(2) by (auto simp: has_bytes_def)
    then show ?thesis
      using page_inv_extent [OF inv i(1)] page_inv_ptr(1) [OF inv] len by linarith
  qed
  have p1: "slot_count p1 = slot_count p" "free_space_ptr p1 = free_space_ptr p" "page_id p1 = page_id p" "page_lsn p1 = page_lsn p"
    using up order_trans [OF slot_addr_ge, of ?n ?o] by (cases "pl = []"; simp add: p1_def page_fields)+
  have s1: "slot_offset p1 j = slot_offset p j" "slot_size p1 j = slot_size p j" "slot_deleted p1 j = slot_deleted p j"
    if "j < ?n" for j
    using up order_trans [OF slot_addr_Suc_le [OF that], of ?o] by (cases "pl = []"; simp add: p1_def page_fields)+
  have l16: "unat (of_nat (length pl) :: u16) = length pl"
    using len unat_u16_less [of "slot_size p (unat i)"] by (intro unat_of_nat_u16) simp
  have q1: "q = set_slot_size (unat i) (of_nat (length pl)) p1" by (simp add: q p1_def)
  have hi: "q a = p1 a" if "slot_addr ?n \<le> a" for a
    using slot_addr_Suc_le [OF i(1)] that by (simp add: q1 set_slot_out)
  have c: "slot_count q = slot_count p" "free_space_ptr q = free_space_ptr p" using p1 by (simp_all add: q1 page_fields)
  have o: "slot_offset q j = slot_offset p j \<and> slot_size q j = slot_size p j \<and> slot_deleted q j = slot_deleted p j"
    if "j < ?n" "j \<noteq> unat i" for j using s1 [OF that(1)] that(2) by (simp add: q1 page_fields)
  have t: "slot_offset q (unat i) = slot_offset p (unat i)" "unat (slot_size q (unat i)) = length pl" "slot_deleted q (unat i) = 0"
    using s1 [OF i(1)] i(2) l16 by (simp_all add: q1 page_fields)
  have keep: "q a = p a" if "slot_addr ?n \<le> a" "a < ?o \<or> ?o + unat (slot_size p (unat i)) \<le> a" for a
    using hi [OF that(1)] that(2) len by (auto simp: p1_def mem_write_out)
  note S = shrink_slot [OF inv i c o t(1) _ keep, simplified t(2), OF _ _ len]
  show "page_inv q" using S(1) by blast
  have rd: "mem_read q ?o (length pl) = pl"
  proof (cases "pl = []")
    case False
    then have "mem_read q ?o (length pl) = mem_read p1 ?o (length pl)"
      using up by (intro mem_read_cong hi) auto
    then show ?thesis by (simp add: p1_def mem_read_write_same)
  qed simp
  show "tuples q = (tuples p)(i \<mapsto> pl)"
  proof
    fix k
    show "tuples q k = ((tuples p)(i \<mapsto> pl)) k"
    proof (cases "k = i")
      case True
      then show ?thesis using t c i rd by (simp add: tuples_def get_tuple_def word_le_nat_alt)
    next
      case False
      then have "unat k \<noteq> unat i" by (simp add: word_unat_eq_iff)
      then show ?thesis using S(2) False by (simp)
    qed
  qed
  have "q a = p a" if "PAGE_SIZE \<le> a" for a
  proof (rule keep)
    show "slot_addr ?n \<le> a" using page_inv_ptr [OF inv] that by linarith
    show "a < ?o \<or> ?o + unat (slot_size p (unat i)) \<le> a"
      using page_inv_extent(2) [OF inv i(1)] i(2) that unat_u16_less [of "slot_offset p (unat i)"]
      by (cases "slot_size p (unat i) = 0") (auto simp: has_bytes_def)
  qed
  then show "same_frame p q" using p1 by (intro same_frameI) (simp_all add: q1 page_fields)
qed

lemma delete_correct:
  assumes inv: "page_inv p" and i: "unat i < unat (slot_count p)" "slot_deleted p (unat i) = 0"
    and q: "q = set_slot_size (unat i) 0 (set_slot_deleted (unat i) 1 p)"
  shows "page_inv q" "tuples q = (tuples p)(i := None)" "same_frame p q"
proof -
  have c: "slot_count q = slot_count p" "free_space_ptr q = free_space_ptr p" by (simp_all add: q page_fields)
  have o: "slot_offset q j = slot_offset p j \<and> slot_size q j = slot_size p j \<and> slot_deleted q j = slot_deleted p j"
    if "j < unat (slot_count p)" "j \<noteq> unat i" for j using that(2) by (simp add: q page_fields)
  have t: "slot_offset q (unat i) = slot_offset p (unat i)" "unat (slot_size q (unat i)) \<le> unat (slot_size p (unat i))"
    by (simp_all add: q page_fields)
  have hi: "q a = p a" if "slot_addr (unat (slot_count p)) \<le> a" for a
    using slot_addr_Suc_le [OF i(1)] that by (simp add: q set_slot_out)
  note S = shrink_slot [OF inv i c o t hi]
  show "page_inv q" using S(1) by blast
  show "tuples q = (tuples p)(i := None)"
  proof
    fix k
    show "tuples q k = ((tuples p)(i := None)) k"
    proof (cases "k = i")
      case True
      then show ?thesis by (simp add: q tuples_def get_tuple_def page_fields)
    next
      case False
      then have "unat k \<noteq> unat i" by (simp add: word_unat_eq_iff)
      then show ?thesis using S(2) False by simp
    qed
  qed
  show "same_frame p q"
    using hi page_inv_ptr [OF inv] by (intro same_frameI) (simp_all add: q page_fields)
qed

subsection \<open>Operations against the map of tuples\<close>

lemma same_frame_refl: "same_frame p p"
  by (simp add: same_frame_def)

lemma same_frame_trans: "same_frame p q \<Longrightarrow> same_frame q r \<Longrightarrow> same_frame p r"
  by (simp add: same_frame_def)

lemma live_slots_compact:
  assumes "page_inv p"
  shows "unat (free_space (compact t p)) = PAGE_SIZE - live_bytes p - slot_addr (unat (slot_count p))"
  using free_space_eq [OF compact_correct(1) [OF assms]] compact_fields(1,2) [OF assms] by simp

lemma insert_place_tuples:
  assumes inv: "page_inv p" and room: "length pl + 6 \<le> unat (free_space p)"
  shows "\<exists>i q. insert_place pl p = (Some i, q) \<and> page_inv q \<and> tuples p i = None \<and>
    tuples q = (tuples p)(i \<mapsto> pl) \<and> same_frame p q"
proof (rule insert_place_correct [OF assms])
  fix t q
  assume A: "insert_place pl p = (Some (of_nat t), q)" "t \<le> unat (slot_count p)"
    "t < unat (slot_count p) \<Longrightarrow> slot_deleted p t \<noteq> 0" "placed p t pl q" "same_frame p q"
  have "unat (of_nat t :: u16) = t" using A(2) unat_u16_less [of "slot_count p"] by (intro unat_of_nat_u16) simp
  then have "tuples p (of_nat t) = None"
    using A(2,3) by (auto simp: tuples_def get_tuple_def word_le_nat_alt)
  then show ?thesis using A placed_inv [OF inv A(4,2)] placed_tuples [OF inv A(4,2)] by blast
qed

lemma insert_tuple_correct:
  assumes inv: "page_inv p"
  shows "case insert_tuple t pl p of
      (Some i, q) \<Rightarrow> page_inv q \<and> tuples p i = None \<and> tuples q = (tuples p)(i \<mapsto> pl) \<and> same_frame p q
    | (None, q) \<Rightarrow> page_inv q \<and> tuples q = tuples p \<and> same_frame p q \<and>
        PAGE_SIZE < slot_addr (unat (slot_count p)) + live_bytes p + length pl + 6"
proof (cases "unat (free_space p) < length pl + 6")
  case False
  then show ?thesis
    using insert_place_tuples [OF inv, of pl] by (auto simp: insert_tuple_def)
next
  case True
  note C = compact_correct [OF inv, of t] compact_fields(3) [OF inv, where t = t]
  show ?thesis
  proof (cases "unat (free_space (compact t p)) < length pl + 6")
    case True
    then show ?thesis
      using \<open>unat (free_space p) < length pl + 6\<close> C live_slots_compact [OF inv, of t]
      by (auto simp: insert_tuple_def)
  next
    case False
    then obtain i q where "insert_place pl (compact t p) = (Some i, q)" "page_inv q" "tuples (compact t p) i = None"
      "tuples q = (tuples (compact t p))(i \<mapsto> pl)" "same_frame (compact t p) q"
      using insert_place_tuples [OF C(1), of pl] by auto
    then show ?thesis
      using True False C same_frame_trans [OF C(3)] by (simp add: insert_tuple_def Let_def)
  qed
qed

lemma compact_slot:
  assumes "page_inv p" "unat i < unat (slot_count p)" "slot_deleted p (unat i) = 0"
  shows "unat i < unat (slot_count (compact t p))" "slot_deleted (compact t p) (unat i) = 0"
  using compact_fields(1,5) [OF assms(1), where t = t] assms(2,3) by auto

lemma update_place_tuples:
  assumes inv: "page_inv p" and room: "length pl \<le> unat (free_space p)"
    and i: "unat i < unat (slot_count p)" "slot_deleted p (unat i) = 0"
  shows "\<exists>q. update_place i pl p = (True, q) \<and> page_inv q \<and> tuples q = (tuples p)(i \<mapsto> pl) \<and> same_frame p q"
proof -
  note U = update_place_correct [OF assms]
  have "unat i \<le> unat (slot_count p)" using i(1) by simp
  then show ?thesis
    using U placed_inv [OF inv U(2)] placed_tuples [OF inv U(2)]
    by (cases "update_place i pl p") auto
qed

lemma tuples_None: "tuples p i = None \<longleftrightarrow> slot_count p \<le> i \<or> slot_deleted p (unat i) \<noteq> 0"
  by (simp add: tuples_def get_tuple_def)

lemma update_tuple_correct:
  assumes inv: "page_inv p"
  shows "case update_tuple t i pl p of (ok, q) \<Rightarrow>
    page_inv q \<and> same_frame p q \<and> tuples q = (if ok then (tuples p)(i \<mapsto> pl) else tuples p) \<and>
    (ok \<longrightarrow> tuples p i \<noteq> None) \<and>
    (\<not> ok \<longrightarrow> tuples p i = None \<or> PAGE_SIZE < slot_addr (unat (slot_count p)) + live_bytes p + length pl)"
proof (cases "tuples p i = None")
  case True
  then have "update_tuple t i pl p = (False, p)"
    by (auto simp: tuples_None update_tuple_def Let_def)
  then show ?thesis using inv True by (simp add: same_frame_refl)
next
  case False
  then have i: "unat i < unat (slot_count p)" "slot_deleted p (unat i) = 0" "\<not> slot_count p \<le> i"
    by (auto simp: tuples_None word_le_nat_alt)
  note C = compact_correct [OF inv, of t] compact_fields(3) [OF inv, where t = t]
  note ci = compact_slot [OF inv i(1,2), of t]
  consider (fits) "length pl \<le> unat (slot_size p (unat i))"
    | (room) "unat (slot_size p (unat i)) < length pl" "length pl \<le> unat (free_space p)"
    | (compacted) "unat (slot_size p (unat i)) < length pl" "unat (free_space p) < length pl"
        "length pl \<le> unat (free_space (compact t p))"
    | (full) "unat (slot_size p (unat i)) < length pl" "unat (free_space p) < length pl"
        "unat (free_space (compact t p)) < length pl" by linarith
  then show ?thesis
  proof cases
    case fits
    then show ?thesis using in_place_correct [OF inv i(1,2) fits refl] i False by (simp add: update_tuple_def Let_def)
  next
    case room
    then show ?thesis using update_place_tuples [OF inv room(2) i(1,2)] i False by (auto simp: update_tuple_def Let_def)
  next
    case compacted
    then show ?thesis
      using update_place_tuples [OF C(1) compacted(3) ci] i False C(2) same_frame_trans [OF C(3)]
      by (auto simp: update_tuple_def Let_def)
  next
    case full
    then show ?thesis
      using C i False live_slots_compact [OF inv, of t] by (auto simp: update_tuple_def Let_def)
  qed
qed

lemma delete_tuple_correct:
  assumes inv: "page_inv p"
  shows "case delete_tuple i p of (ok, q) \<Rightarrow>
    page_inv q \<and> same_frame p q \<and> tuples q = (tuples p)(i := None) \<and> (ok \<longleftrightarrow> tuples p i \<noteq> None)"
proof (cases "tuples p i = None")
  case True
  then have "delete_tuple i p = (False, p)" by (auto simp: tuples_None delete_tuple_def Let_def)
  then show ?thesis using inv True by (simp add: same_frame_refl fun_upd_idem)
next
  case False
  then have i: "unat i < unat (slot_count p)" "slot_deleted p (unat i) = 0" "\<not> slot_count p \<le> i"
    by (auto simp: tuples_None word_le_nat_alt)
  then show ?thesis using delete_correct [OF inv i(1,2) refl] False by (simp add: delete_tuple_def Let_def)
qed

lemma page_init_fields:
  "slot_count (page_init pid p) = 0" "free_space_ptr (page_init pid p) = 4096" "page_id (page_init pid p) = pid"
  "page_lsn (page_init pid p) = 0" "PAGE_SIZE \<le> a \<Longrightarrow> page_init pid p a = p a"
proof -
  have mem: "slot_count (mem_write q 20 bs) = slot_count q" "free_space_ptr (mem_write q 20 bs) = free_space_ptr q"
    "page_id (mem_write q 20 bs) = page_id q" "page_lsn (mem_write q 20 bs) = page_lsn q" for q bs
    by (simp_all add: field_defs rd16_mem_write rd64_mem_write)
  show "slot_count (page_init pid p) = 0" "free_space_ptr (page_init pid p) = 4096"
    by (simp_all add: page_init_def Let_def mem page_fields PAGE_SIZE_def)
  show "page_lsn (page_init pid p) = 0"
    by (simp add: page_init_def Let_def mem page_fields) (simp add: page_lsn_def set_lsn_def)
  show "page_id (page_init pid p) = pid"
    by (simp add: page_init_def Let_def mem page_fields)
      (simp add: page_id_def set_lsn_def wr64_def [of _ 8] rd64_mem_write)
  show "page_init pid p a = p a" if "PAGE_SIZE \<le> a"
    using that
    by (simp add: page_init_def Let_def mem_write_out set_header_outside set_lsn_def wr64_out PAGE_SIZE_def)
qed

lemma page_init_inv: "page_inv (page_init pid p)" "tuples (page_init pid p) = Map.empty"
  by (simp_all add: page_inv_def page_init_fields PAGE_SIZE_def slot_addr_def tuples_def get_tuple_def fun_eq_iff)

text \<open>A history of operations, each with the contents its stack buffer happens to have.\<close>

datatype page_op = Insert bytes | Modify u16 bytes | Remove u16 | Defragment

datatype page_res = Inserted "u16 option" | Done bool

fun page_step :: "memory \<Rightarrow> page_op \<Rightarrow> memory \<Rightarrow> page_res \<times> memory" where
  "page_step t (Insert pl) p = (case insert_tuple t pl p of (r, q) \<Rightarrow> (Inserted r, q))"
| "page_step t (Modify i pl) p = (case update_tuple t i pl p of (r, q) \<Rightarrow> (Done r, q))"
| "page_step t (Remove i) p = (case delete_tuple i p of (r, q) \<Rightarrow> (Done r, q))"
| "page_step t Defragment p = (Done True, compact t p)"

fun page_exec :: "(memory \<times> page_op) list \<Rightarrow> memory \<Rightarrow> page_res list \<times> memory" where
  "page_exec [] p = ([], p)"
| "page_exec ((t, op) # ops) p =
     (let (r, p1) = page_step t op p; (rs, p2) = page_exec ops p1 in (r # rs, p2))"

text \<open>What the reported results mean for the tuples.\<close>

fun tuple_step :: "page_op \<Rightarrow> page_res \<Rightarrow> (u16 \<rightharpoonup> bytes) \<Rightarrow> u16 \<rightharpoonup> bytes" where
  "tuple_step (Insert pl) (Inserted (Some i)) m = m(i \<mapsto> pl)"
| "tuple_step (Modify i pl) (Done True) m = m(i \<mapsto> pl)"
| "tuple_step (Remove i) (Done True) m = m(i := None)"
| "tuple_step _ _ m = m"

fun tuple_replay :: "page_op list \<Rightarrow> page_res list \<Rightarrow> (u16 \<rightharpoonup> bytes) \<Rightarrow> u16 \<rightharpoonup> bytes" where
  "tuple_replay (op # ops) (r # rs) m = tuple_replay ops rs (tuple_step op r m)"
| "tuple_replay _ _ m = m"

lemma page_step_correct:
  assumes "page_inv p" "page_step t op p = (r, q)"
  shows "page_inv q \<and> same_frame p q \<and> tuples q = tuple_step op r (tuples p)"
proof (cases op)
  case (Insert pl)
  then show ?thesis using insert_tuple_correct [OF assms(1), where t = t and pl = pl] assms(2) by (auto split: prod.splits option.splits)
next
  case (Modify i pl)
  then show ?thesis using update_tuple_correct [OF assms(1), where t = t and i = i and pl = pl] assms(2) by (auto split: prod.splits if_splits)
next
  case (Remove i)
  then show ?thesis using delete_tuple_correct [OF assms(1), of i] assms(2)
    by (cases "fst (delete_tuple i p)") (auto split: prod.splits simp: fun_upd_idem)
next
  case Defragment
  then show ?thesis using compact_correct [OF assms(1), of t] compact_fields(3) [OF assms(1), where t = t] assms(2) by auto
qed

lemma page_exec_correct:
  assumes "page_inv p" "page_exec ops p = (rs, q)"
  shows "page_inv q \<and> same_frame p q \<and> tuples q = tuple_replay (map snd ops) rs (tuples p)"
  using assms
proof (induction ops arbitrary: p rs)
  case (Cons top ops)
  obtain t op where top: "top = (t, op)" by fastforce
  obtain r p1 where s: "page_step t op p = (r, p1)" by fastforce
  obtain rs' where e: "page_exec ops p1 = (rs', q)" "rs = r # rs'"
    using Cons.prems(2) s top by (auto split: prod.splits)
  show ?case
    using page_step_correct [OF Cons.prems(1) s] Cons.IH [OF _ e(1)] e(2) top same_frame_trans [of p p1 q] by simp
qed (simp add: same_frame_refl)

text \<open>
  C1: after any history of insertions, updates, deletions and compactions on an initialised
  page, reading a slot gives exactly the payload the reported results say it holds: no tuple is
  ever lost, corrupted or overlapped by another one, and neither the page id nor any byte past
  the end of the page is touched.
\<close>

theorem slotted_page_history:
  "case page_exec ops (page_init pid p0) of (rs, q) \<Rightarrow>
    (\<forall>i. get_tuple i q = tuple_replay (map snd ops) rs Map.empty i) \<and> page_id q = pid \<and>
    (\<forall>a. PAGE_SIZE \<le> a \<longrightarrow> q a = p0 a)"
  using page_exec_correct [OF page_init_inv(1) [of pid p0], of ops]
  by (auto simp: page_init_inv(2) same_frame_def page_init_fields tuples_def [symmetric] fun_eq_iff
      split: prod.split) (simp_all add: tuples_def)

theorem slotted_page_history_witness:
  "\<exists>i q. page_exec [(\<lambda>_. 99, Insert [1, 2, 3])] (page_init 7 (\<lambda>_. 5)) = ([Inserted (Some i)], q) \<and>
     get_tuple i q = Some [1, 2, 3] \<and> page_id q = 7 \<and> q 5000 = 5"
proof -
  let ?p = "page_init 7 (\<lambda>_. 5)"
  obtain r q where ins: "insert_tuple (\<lambda>_. 99) [1, 2, 3] ?p = (r, q)" by fastforce
  have "live_bytes ?p = 0" by (simp add: live_bytes_def page_init_fields)
  then obtain i where r: "r = Some i"
    using insert_tuple_correct [OF page_init_inv(1) [of 7 "\<lambda>_. 5"], where t = "\<lambda>_. 99" and pl = "[1, 2, 3]"] ins
    by (auto simp: PAGE_SIZE_def slot_addr_def page_init_fields split: option.splits)
  show ?thesis
    using slotted_page_history [of "[(\<lambda>_. 99, Insert [1, 2, 3])]" 7 "\<lambda>_. 5"] ins r
    by (simp add: PAGE_SIZE_def)
qed



text \<open>The bytes copied back by a compaction do not depend on what the buffer held before.\<close>

definition same_progress :: "memory \<times> memory \<times> u16 \<Rightarrow> memory \<times> memory \<times> u16 \<Rightarrow> bool" where
  "same_progress s1 s2 = (case (s1, s2) of ((q1, t1, f1), (q2, t2, f2)) \<Rightarrow>
     q1 = q2 \<and> f1 = f2 \<and> (\<forall>a. unat f1 \<le> a \<and> a < PAGE_SIZE \<longrightarrow> t1 a = t2 a))"

lemma compact_same_progress:
  assumes inv: "page_inv p" and k: "k \<le> unat (slot_count p)"
  shows "same_progress (foldl compact_step (p, t1, of_nat PAGE_SIZE) [0..<k])
    (foldl compact_step (p, t2, of_nat PAGE_SIZE) [0..<k])"
  using k
proof (induction k)
  case 0
  then show ?case by (auto simp: same_progress_def PAGE_SIZE_def)
next
  case (Suc k)
  obtain q u1 f where s1: "foldl compact_step (p, t1, of_nat PAGE_SIZE) [0..<k] = (q, u1, f)" by (metis prod_cases3)
  obtain u2 where s2: "foldl compact_step (p, t2, of_nat PAGE_SIZE) [0..<k] = (q, u2, f)"
    and same: "\<forall>a. unat f \<le> a \<and> a < PAGE_SIZE \<longrightarrow> u1 a = u2 a"
    using Suc s1 by (cases "foldl compact_step (p, t2, of_nat PAGE_SIZE) [0..<k]") (auto simp: same_progress_def)
  have c: "compacting p k (q, u1, f)" using compact_loop [OF inv, of k t1] Suc.prems s1 by simp
  have fit: "unat (slot_size q k) \<le> unat f" if "slot_deleted q k = 0"
    using c bytes_below_fit(1) [OF inv, of "Suc k"] Suc.prems that
    by (auto simp: compacting_def slot_bytes_def)
  have e: "foldl compact_step (p, t1, of_nat PAGE_SIZE) [0..<Suc k] = compact_step (q, u1, f) k"
    "foldl compact_step (p, t2, of_nat PAGE_SIZE) [0..<Suc k] = compact_step (q, u2, f) k"
    by (simp_all add: s1 s2)
  show ?case
    using same fit unfolding e
    by (auto simp: same_progress_def compact_step_def Let_def mem_write_def unat_sub_small)
qed

text \<open>
  Compaction keeps every tuple, leaves the tuples packed at the end of the page, and never
  copies a byte of its uninitialised stack buffer into the page.
\<close>

theorem compact_keeps_tuples:
  assumes "page_exec ops (page_init pid p0) = (rs, p)"
  shows "(\<forall>i. get_tuple i (compact t p) = get_tuple i p) \<and>
    unat (free_space_ptr (compact t p)) = PAGE_SIZE - live_bytes p \<and> compact t p = compact t' p"
proof -
  have inv: "page_inv p" using page_exec_correct [OF page_init_inv(1) assms] by simp
  have "\<forall>i. get_tuple i (compact t p) = get_tuple i p"
    using compact_correct(2) [OF inv, of t] by (simp add: tuples_def fun_eq_iff)
  moreover have "compact t p = compact t' p"
  proof -
    obtain q u f where s1: "foldl compact_step (p, t, of_nat PAGE_SIZE) [0..<unat (slot_count p)] = (q, u, f)"
      by (metis prod_cases3)
    obtain u' where s2: "foldl compact_step (p, t', of_nat PAGE_SIZE) [0..<unat (slot_count p)] = (q, u', f)"
      and same: "\<forall>a. unat f \<le> a \<and> a < PAGE_SIZE \<longrightarrow> u a = u' a"
      using compact_same_progress [OF inv, of "unat (slot_count p)" t t'] s1
      by (cases "foldl compact_step (p, t', of_nat PAGE_SIZE) [0..<unat (slot_count p)]") (auto simp: same_progress_def)
    have "mem_read u (unat f) (PAGE_SIZE - unat f) = mem_read u' (unat f) (PAGE_SIZE - unat f)"
      using same by (intro mem_read_cong) auto
    then show ?thesis by (simp add: compact_def s1 s2)
  qed
  ultimately show ?thesis using compact_fields(2) [OF inv, where t = t] by simp
qed

theorem compact_keeps_tuples_witness:
  "page_exec [(\<lambda>_. 0, Defragment)] (page_init 7 (\<lambda>_. 5)) = ([Done True], compact (\<lambda>_. 0) (page_init 7 (\<lambda>_. 5))) \<and>
   compact (\<lambda>_. 1) (compact (\<lambda>_. 0) (page_init 7 (\<lambda>_. 5))) = compact (\<lambda>_. 2) (compact (\<lambda>_. 0) (page_init 7 (\<lambda>_. 5)))"
proof -
  have e: "page_exec [(\<lambda>_. 0, Defragment)] (page_init 7 (\<lambda>_. 5)) = ([Done True], compact (\<lambda>_. 0) (page_init 7 (\<lambda>_. 5)))"
    by simp
  show ?thesis using compact_keeps_tuples [OF e, of "\<lambda>_. 1" "\<lambda>_. 2"] e by simp
qed

end
