(* ===== verification/Disk_Manager.thy ===== *)
theory Disk_Manager
  imports Slotted_Page
begin

text \<open>
  The page file of
  \<^verbatim>\<open>07-database-storage-and-buffer-pool/projects/concurrent_buffer_pool_manager/disk_manager.hpp\<close>.
  The file is a byte memory with a length; \<open>pwrite\<close> and \<open>pread\<close> follow POSIX on a regular file: a
  negative offset is an error, a read past the end returns the bytes that exist, and bytes of a hole
  are zero. \<open>pwrite\<close> of a whole page is assumed to succeed on a valid offset. The offset is computed
  in 64-bit arithmetic and reinterpreted as a signed \<open>off_t\<close>, as in the code.
\<close>

record disk =
  disk_file :: memory
  disk_len :: nat
  next_page_id :: u64

datatype disk_error = OpenFailed | DiskWriteFailed u64

definition disk_open :: "int \<Rightarrow> memory \<Rightarrow> nat \<Rightarrow> disk_error + disk" where
  "disk_open fd contents len =
     (if fd < 0 then Inl OpenFailed
      else Inr \<lparr>disk_file = contents, disk_len = len, next_page_id = 0\<rparr>)"

text \<open>\<open>None\<close> stands for an offset that is negative as a signed 64-bit \<open>off_t\<close>.\<close>

definition page_offset :: "u64 \<Rightarrow> nat option" where
  "page_offset pid = (let offset = pid * 4096 in if unat offset \<ge> 2 ^ 63 then None else Some (unat offset))"

definition write_page :: "u64 \<Rightarrow> bytes \<Rightarrow> disk \<Rightarrow> disk_error + disk" where
  "write_page pid page_data d =
     (case page_offset pid of
        None \<Rightarrow> Inl (DiskWriteFailed pid)
      | Some offset \<Rightarrow> Inr (d\<lparr>disk_file := mem_write (disk_file d) offset page_data,
            disk_len := max (disk_len d) (offset + PAGE_SIZE)\<rparr>))"

text \<open>The bytes that replace the first \<open>PAGE_SIZE\<close> bytes of the caller's buffer, given its old contents.\<close>

definition read_page :: "u64 \<Rightarrow> bytes \<Rightarrow> disk \<Rightarrow> bytes" where
  "read_page pid page_data d =
     (let bytes_read = (case page_offset pid of
            None \<Rightarrow> 0
          | Some offset \<Rightarrow> min PAGE_SIZE (disk_len d - offset))
      in if bytes_read = 0 then replicate PAGE_SIZE 0
         else mem_read (disk_file d) (the (page_offset pid)) bytes_read @ drop bytes_read page_data)"

definition allocate_page :: "disk \<Rightarrow> u64 \<times> disk" where
  "allocate_page d = (next_page_id d, d\<lparr>next_page_id := next_page_id d + 1\<rparr>)"

subsection \<open>The file as an array of pages\<close>

text \<open>Page ids below \<open>2 ^ 51\<close> have a byte offset that fits a signed 64-bit integer.\<close>

definition valid_page :: "u64 \<Rightarrow> bool" where
  "valid_page pid \<longleftrightarrow> unat pid < 2 ^ 51"

lemma page_offset_valid:
  assumes "valid_page pid"
  shows "page_offset pid = Some (unat pid * 4096)"
proof -
  have lt: "unat pid * 4096 < 2 ^ 63" using assms by (simp add: valid_page_def)
  have "pid * 4096 = of_nat (unat pid * 4096)" by simp
  then have "unat (pid * 4096) = unat pid * 4096"
    using lt unat_of_nat_u64 [of "unat pid * 4096"] by simp
  then show ?thesis using lt by (simp add: page_offset_def Let_def)
qed

definition disk_page :: "disk \<Rightarrow> u64 \<Rightarrow> bytes" where
  "disk_page d pid = mem_read (disk_file d) (unat pid * 4096) PAGE_SIZE"

text \<open>The file has whole pages, and nothing is stored past its end.\<close>

definition disk_ok :: "disk \<Rightarrow> bool" where
  "disk_ok d \<longleftrightarrow> 4096 dvd disk_len d \<and> (\<forall>a \<ge> disk_len d. disk_file d a = 0)"

lemma read_page_correct:
  assumes "disk_ok d" "valid_page pid" "length buf = PAGE_SIZE"
  shows "read_page pid buf d = disk_page d pid"
proof (cases "unat pid * 4096 < disk_len d")
  case True
  obtain n where "disk_len d = 4096 * n" using assms(1) by (auto simp: disk_ok_def)
  then have "PAGE_SIZE \<le> disk_len d - unat pid * 4096" using True by (simp add: PAGE_SIZE_def)
  then show ?thesis
    using page_offset_valid [OF assms(2)] assms(3)
    by (simp add: read_page_def disk_page_def min_absorb1 PAGE_SIZE_def)
next
  case False
  then have "mem_read (disk_file d) (unat pid * 4096) PAGE_SIZE = replicate PAGE_SIZE 0"
    using assms(1) by (intro mem_read_zero) (simp add: disk_ok_def)
  then show ?thesis
    using False page_offset_valid [OF assms(2)] by (simp add: read_page_def disk_page_def)
qed

lemma page_blocks_apart: "pid \<noteq> (q :: u64) \<Longrightarrow> unat pid * 4096 + 4096 \<le> unat q * 4096 \<or> unat q * 4096 + 4096 \<le> unat pid * 4096"
proof -
  assume "pid \<noteq> q"
  then have "unat pid \<noteq> unat q" by (simp add: word_unat_eq_iff)
  then show ?thesis by linarith
qed

lemma write_page_correct:
  assumes "disk_ok d" "valid_page pid" "length data = PAGE_SIZE"
  obtains d' where "write_page pid data d = Inr d'" "disk_ok d'" "next_page_id d' = next_page_id d"
    "disk_page d' = (disk_page d)(pid := data)"
proof -
  let ?d = "d\<lparr>disk_file := mem_write (disk_file d) (unat pid * 4096) data,
    disk_len := max (disk_len d) (unat pid * 4096 + PAGE_SIZE)\<rparr>"
  have w: "write_page pid data d = Inr ?d" using page_offset_valid [OF assms(2)] by (simp add: write_page_def)
  have "4096 dvd disk_len ?d" using assms(1) by (auto simp: disk_ok_def PAGE_SIZE_def max_def)
  then have ok: "disk_ok ?d" using assms(1,3) by (auto simp: disk_ok_def mem_write_out)
  have "disk_page ?d q = ((disk_page d)(pid := data)) q" for q
  proof (cases "q = pid")
    case True
    then show ?thesis using assms(3) by (simp add: disk_page_def mem_read_write_same)
  next
    case False
    then show ?thesis
      using page_blocks_apart [of q pid] assms(3)
      by (simp add: disk_page_def PAGE_SIZE_def mem_read_write_disjoint)
  qed
  then have "disk_page ?d = (disk_page d)(pid := data)" by (rule ext)
  then show ?thesis using that [OF w ok] by simp
qed

text \<open>
  On a file of whole pages, writing a page and reading any page back returns the bytes
  written for that page and the unchanged bytes for every other one; a page never written reads
  as zeros. This holds for every page id whose byte offset fits an \<open>off_t\<close>.
\<close>

theorem disk_read_after_write:
  assumes "disk_ok d" "valid_page pid" "valid_page q" "length data = PAGE_SIZE" "length buf = PAGE_SIZE"
  shows "\<exists>d'. write_page pid data d = Inr d' \<and> disk_ok d' \<and>
    read_page q buf d' = (if q = pid then data else read_page q buf d)"
  using write_page_correct [OF assms(1,2,4)] read_page_correct [OF _ assms(3,5)] assms(1)
  by (metis fun_upd_apply)

theorem disk_read_after_write_witness:
  "let d = \<lparr>disk_file = (\<lambda>_. 0), disk_len = 0, next_page_id = 0\<rparr> in
   \<exists>d'. write_page 3 (replicate PAGE_SIZE 7) d = Inr d' \<and> disk_ok d' \<and>
     read_page 3 (replicate PAGE_SIZE 1) d' = replicate PAGE_SIZE 7 \<and>
     read_page 2 (replicate PAGE_SIZE 1) d' = replicate PAGE_SIZE 0"
proof -
  let ?d = "\<lparr>disk_file = (\<lambda>_. 0), disk_len = 0, next_page_id = 0\<rparr>"
  have ok: "disk_ok ?d" by (simp add: disk_ok_def)
  have v: "valid_page 3" "valid_page 2" by (simp_all add: valid_page_def)
  have z: "read_page 2 (replicate PAGE_SIZE 1) ?d = replicate PAGE_SIZE 0"
    using page_offset_valid [OF v(2)] by (simp add: read_page_def)
  show ?thesis
    using disk_read_after_write [OF ok v(1) v(1), of "replicate PAGE_SIZE 7" "replicate PAGE_SIZE 1"]
      disk_read_after_write [OF ok v(1) v(2), of "replicate PAGE_SIZE 7" "replicate PAGE_SIZE 1"] z
    by (auto simp: Let_def)
qed

text \<open>
  From page id \<open>2 ^ 51\<close> on the offset computed in 64-bit arithmetic is negative as an \<open>off_t\<close> and
  the write fails, until at \<open>2 ^ 52\<close> it wraps around and the write silently lands on page 0.
\<close>

theorem disk_offset_wraps:
  "write_page (2 ^ 51) data d = Inl (DiskWriteFailed (2 ^ 51)) \<and> write_page (2 ^ 52) data d = write_page 0 data d"
  by (simp add: write_page_def page_offset_def Let_def)

end
