(* ===== verification/Lru_K.thy ===== *)
theory Lru_K
  imports Sys_Prelude
begin

text \<open>
  The LRU-K replacer of
  \<^verbatim>\<open>07-database-storage-and-buffer-pool/projects/concurrent_buffer_pool_manager/lru_k_replacer.hpp\<close>.
  Every member function holds the latch, so a call is one step. The hash map \<open>entries_\<close> is a map;
  the order in which the loop of \<open>victim\<close> visits it is unspecified in C++ and an argument here.
  Time stamps and \<open>curr_size_\<close> are 64-bit words.

  The specification keeps the whole access history of each frame. The replacer keeps the last
  \<open>k\<close> accesses only, and the theorems show that its victim is the frame of greatest backward
  \<open>k\<close>-distance, whatever the visiting order.
\<close>

subsection \<open>The code\<close>

record FrameNode =
  history :: "u64 list"
  is_evictable :: bool

record LRUKReplacer =
  num_frames :: nat
  lru_k :: nat
  curr_size :: u64
  current_timestamp :: u64
  entries :: "u32 \<rightharpoonup> FrameNode"

definition lru_init :: "nat \<Rightarrow> nat \<Rightarrow> LRUKReplacer" where
  "lru_init n k = \<lparr>num_frames = n, lru_k = k, curr_size = 0, current_timestamp = 0, entries = Map.empty\<rparr>"

definition push_history :: "nat \<Rightarrow> u64 \<Rightarrow> u64 list \<Rightarrow> u64 list" where
  "push_history k t h = (let h1 = h @ [t] in if length h1 > k then tl h1 else h1)"

definition record_access :: "u32 \<Rightarrow> LRUKReplacer \<Rightarrow> LRUKReplacer" where
  "record_access fid r =
     (let t = current_timestamp r + 1;
          node = (case entries r fid of Some e \<Rightarrow> e | None \<Rightarrow> \<lparr>history = [], is_evictable = False\<rparr>)
      in r\<lparr>current_timestamp := t,
           entries := (entries r)(fid \<mapsto> node\<lparr>history := push_history (lru_k r) t (history node)\<rparr>)\<rparr>)"

definition set_evictable :: "u32 \<Rightarrow> bool \<Rightarrow> LRUKReplacer \<Rightarrow> LRUKReplacer" where
  "set_evictable fid b r =
     (case entries r fid of
        None \<Rightarrow> r
      | Some e \<Rightarrow>
          if is_evictable e \<noteq> b then
            r\<lparr>entries := (entries r)(fid \<mapsto> e\<lparr>is_evictable := b\<rparr>),
              curr_size := (if b then curr_size r + 1 else curr_size r - 1)\<rparr>
          else r)"

record victim_loop =
  victim_id :: u32
  max_k_distance :: u64
  earliest_inf_timestamp :: u64
  found_inf :: bool
  found_any :: bool

definition victim_loop_init :: victim_loop where
  "victim_loop_init = \<lparr>victim_id = 0, max_k_distance = 0, earliest_inf_timestamp = - 1,
     found_inf = False, found_any = False\<rparr>"

definition victim_step :: "LRUKReplacer \<Rightarrow> victim_loop \<Rightarrow> u32 \<Rightarrow> victim_loop" where
  "victim_step r v fid =
     (case entries r fid of
        None \<Rightarrow> v
      | Some entry \<Rightarrow>
          if \<not> is_evictable entry then v
          else if length (history entry) < lru_k r then
            let earliest = (if history entry = [] then 0 else hd (history entry)) in
            if \<not> found_inf v \<or> earliest < earliest_inf_timestamp v then
              v\<lparr>found_inf := True, earliest_inf_timestamp := earliest, victim_id := fid, found_any := True\<rparr>
            else v
          else if \<not> found_inf v then
            let k_distance = current_timestamp r - hd (history entry) in
            if \<not> found_any v \<or> k_distance > max_k_distance v then
              v\<lparr>max_k_distance := k_distance, victim_id := fid, found_any := True\<rparr>
            else v
          else v)"

definition victim :: "u32 list \<Rightarrow> LRUKReplacer \<Rightarrow> u32 option \<times> LRUKReplacer" where
  "victim order r =
     (if curr_size r = 0 then (None, r)
      else
        let v = foldl (victim_step r) victim_loop_init order in
        if found_any v then
          (Some (victim_id v),
           r\<lparr>entries := (entries r)(victim_id v := None), curr_size := curr_size r - 1\<rparr>)
        else (None, r))"

definition lru_remove :: "u32 \<Rightarrow> LRUKReplacer \<Rightarrow> LRUKReplacer" where
  "lru_remove fid r =
     (case entries r fid of
        None \<Rightarrow> r
      | Some e \<Rightarrow> r\<lparr>entries := (entries r)(fid := None),
                   curr_size := (if is_evictable e then curr_size r - 1 else curr_size r)\<rparr>)"

definition lru_size :: "LRUKReplacer \<Rightarrow> u64" where
  "lru_size r = curr_size r"

subsection \<open>The loop of victim\<close>

definition evictable :: "LRUKReplacer \<Rightarrow> u32 \<Rightarrow> bool" where
  "evictable r f = (case entries r f of None \<Rightarrow> False | Some e \<Rightarrow> is_evictable e)"

definition node_of :: "LRUKReplacer \<Rightarrow> u32 \<Rightarrow> u64 list" where
  "node_of r f = (case entries r f of None \<Rightarrow> [] | Some e \<Rightarrow> history e)"

text \<open>Fewer than \<open>k\<close> accesses: the backward distance is infinite.\<close>

definition short :: "LRUKReplacer \<Rightarrow> u32 \<Rightarrow> bool" where
  "short r f \<longleftrightarrow> length (node_of r f) < lru_k r"

definition oldest :: "LRUKReplacer \<Rightarrow> u32 \<Rightarrow> nat" where
  "oldest r f = unat (hd (node_of r f))"

text \<open>No history is empty, and no time stamp is in the future.\<close>

definition stamped :: "LRUKReplacer \<Rightarrow> bool" where
  "stamped r \<longleftrightarrow> (\<forall>f e. entries r f = Some e \<longrightarrow> history e \<noteq> [] \<and> unat (hd (history e)) \<le> unat (current_timestamp r))"

definition loop_inv :: "LRUKReplacer \<Rightarrow> u32 set \<Rightarrow> victim_loop \<Rightarrow> bool" where
  "loop_inv r S v \<longleftrightarrow>
     (found_any v \<longleftrightarrow> (\<exists>f \<in> S. evictable r f)) \<and>
     (found_inf v \<longleftrightarrow> (\<exists>f \<in> S. evictable r f \<and> short r f)) \<and>
     (found_any v \<longrightarrow> victim_id v \<in> S \<and> evictable r (victim_id v) \<and> (short r (victim_id v) \<longleftrightarrow> found_inf v)) \<and>
     (found_inf v \<longrightarrow> unat (earliest_inf_timestamp v) = oldest r (victim_id v)) \<and>
     (found_any v \<and> \<not> found_inf v \<longrightarrow>
        unat (max_k_distance v) = unat (current_timestamp r) - oldest r (victim_id v)) \<and>
     (\<forall>f \<in> S. evictable r f \<longrightarrow> short r f = found_inf v \<longrightarrow> oldest r (victim_id v) \<le> oldest r f)"

lemma loop_invD:
  assumes "loop_inv r S v"
  shows "found_any v \<longleftrightarrow> (\<exists>f \<in> S. evictable r f)" "found_inf v \<longleftrightarrow> (\<exists>f \<in> S. evictable r f \<and> short r f)"
    "found_any v \<Longrightarrow> victim_id v \<in> S \<and> evictable r (victim_id v) \<and> (short r (victim_id v) \<longleftrightarrow> found_inf v)"
    "found_inf v \<Longrightarrow> unat (earliest_inf_timestamp v) = oldest r (victim_id v)"
    "found_any v \<Longrightarrow> \<not> found_inf v \<Longrightarrow> unat (max_k_distance v) = unat (current_timestamp r) - oldest r (victim_id v)"
    "f \<in> S \<Longrightarrow> evictable r f \<Longrightarrow> short r f = found_inf v \<Longrightarrow> oldest r (victim_id v) \<le> oldest r f"
  using assms unfolding loop_inv_def by blast+

lemma loop_invI:
  assumes "found_any v \<longleftrightarrow> (\<exists>f \<in> S. evictable r f)" "found_inf v \<longleftrightarrow> (\<exists>f \<in> S. evictable r f \<and> short r f)"
    "found_any v \<Longrightarrow> victim_id v \<in> S \<and> evictable r (victim_id v) \<and> (short r (victim_id v) \<longleftrightarrow> found_inf v)"
    "found_inf v \<Longrightarrow> unat (earliest_inf_timestamp v) = oldest r (victim_id v)"
    "found_any v \<Longrightarrow> \<not> found_inf v \<Longrightarrow> unat (max_k_distance v) = unat (current_timestamp r) - oldest r (victim_id v)"
    "\<And>f. f \<in> S \<Longrightarrow> evictable r f \<Longrightarrow> short r f = found_inf v \<Longrightarrow> oldest r (victim_id v) \<le> oldest r f"
  shows "loop_inv r S v"
  using assms unfolding loop_inv_def by blast

lemma loop_inv_init: "loop_inv r {} victim_loop_init"
  by (simp add: loop_inv_def victim_loop_init_def)

lemma unat_sub_le: "unat (b :: u64) \<le> unat a \<Longrightarrow> unat (a - b) = unat a - unat b"
  by (simp add: unat_sub word_le_nat_alt)

lemma victim_step_inv:
  assumes st: "stamped r" and inv: "loop_inv r S v"
  shows "loop_inv r (insert f S) (victim_step r v f)"
proof (cases "evictable r f")
  case False
  then have "victim_step r v f = v"
    by (auto simp: victim_step_def evictable_def split: option.splits)
  then show ?thesis using inv False by (auto simp: loop_inv_def)
next
  case True
  then obtain e where e: "entries r f = Some e" "is_evictable e"
    by (auto simp: evictable_def split: option.splits)
  have h: "history e \<noteq> []" "unat (hd (history e)) \<le> unat (current_timestamp r)"
    using st e by (auto simp: stamped_def)
  have o: "oldest r f = unat (hd (history e))" "short r f \<longleftrightarrow> length (history e) < lru_k r"
    using e by (simp_all add: oldest_def short_def node_of_def)
  have d: "unat (current_timestamp r - hd (history e)) = unat (current_timestamp r) - oldest r f"
    using h(2) o(1) by (simp add: unat_sub_le)
  note I = loop_invD [OF inv]
  have le: "oldest r (victim_id v) \<le> unat (current_timestamp r)" if "found_any v"
  proof -
    have "evictable r (victim_id v)" using inv that by (simp add: loop_inv_def)
    then show ?thesis using st by (auto simp: evictable_def oldest_def node_of_def stamped_def split: option.splits)
  qed
  consider (new_inf) "short r f" "\<not> found_inf v \<or> hd (history e) < earliest_inf_timestamp v"
    | (old_inf) "short r f" "found_inf v" "\<not> hd (history e) < earliest_inf_timestamp v"
    | (skip) "\<not> short r f" "found_inf v"
    | (new_far) "\<not> short r f" "\<not> found_inf v" "\<not> found_any v \<or> current_timestamp r - hd (history e) > max_k_distance v"
    | (old_far) "\<not> short r f" "\<not> found_inf v" "found_any v" "\<not> current_timestamp r - hd (history e) > max_k_distance v"
    by blast
  then show ?thesis
  proof cases
    case new_inf
    then have v': "victim_step r v f = v\<lparr>found_inf := True, earliest_inf_timestamp := hd (history e), victim_id := f, found_any := True\<rparr>"
      using e h(1) o(2) by (simp add: victim_step_def Let_def)
    have "oldest r f \<le> oldest r g" if "g \<in> S" "evictable r g" "short r g" for g
    proof -
      have fi: "found_inf v" using I(2) that by blast
      then have "unat (hd (history e)) < unat (earliest_inf_timestamp v)" using new_inf(2) by (simp add: word_less_nat_alt)
      then show ?thesis using I(6) [OF that(1,2)] I(4) [OF fi] fi that(3) o(1) by simp
    qed
    then show ?thesis unfolding v' using True new_inf(1) o(1) by (intro loop_invI) auto
  next
    case old_inf
    then have v': "victim_step r v f = v" using e h(1) o(2) by (simp add: victim_step_def Let_def)
    have "oldest r (victim_id v) \<le> oldest r f" using old_inf(3) I(4) [OF old_inf(2)] o(1) by (simp add: word_less_nat_alt)
    then show ?thesis unfolding v' using I True old_inf by (intro loop_invI) auto
  next
    case skip
    then have v': "victim_step r v f = v" using e o(2) by (simp add: victim_step_def Let_def)
    show ?thesis unfolding v' using I True skip by (intro loop_invI) auto
  next
    case new_far
    then have v': "victim_step r v f = v\<lparr>max_k_distance := current_timestamp r - hd (history e), victim_id := f, found_any := True\<rparr>"
      using e o(2) by (simp add: victim_step_def Let_def)
    have none: "\<not> (evictable r g \<and> short r g)" if "g \<in> S" for g using I(2) new_far(2) that by blast
    have "oldest r f \<le> oldest r g" if "g \<in> S" "evictable r g" for g
    proof -
      have "found_any v" using I(1) that by blast
      then have "unat (max_k_distance v) < unat (current_timestamp r) - oldest r f"
        using new_far(3) d by (simp add: word_less_nat_alt)
      then show ?thesis
        using I(5) [OF \<open>found_any v\<close> new_far(2)] I(6) [OF that] none [OF that(1)] that new_far(2) by simp
    qed
    then show ?thesis unfolding v' using True new_far none d by (intro loop_invI) auto
  next
    case old_far
    then have v': "victim_step r v f = v" using e o(2) by (simp add: victim_step_def Let_def)
    have "unat (current_timestamp r) - oldest r f \<le> unat (max_k_distance v)"
      using old_far(4) d by (simp add: word_less_nat_alt)
    then have "oldest r (victim_id v) \<le> oldest r f"
      using I(5) [OF old_far(3,2)] h(2) o(1) le [OF old_far(3)] by simp
    then show ?thesis unfolding v' using I True old_far by (intro loop_invI) auto
  qed
qed

lemma victim_loop_inv:
  "stamped r \<Longrightarrow> loop_inv r S v \<Longrightarrow> loop_inv r (S \<union> set order) (foldl (victim_step r) v order)"
proof (induction order arbitrary: S v)
  case (Cons f order)
  then show ?case using Cons.IH [OF Cons.prems(1) victim_step_inv [OF Cons.prems]] by simp
qed simp

subsection \<open>Whole histories\<close>

datatype lru_op = Record u32 | SetEvictable u32 bool | Victim "u32 list" | Remove u32

text \<open>
  The specification beside the code: for every tracked frame the times of all its accesses since
  it was last evicted or removed, oldest first. \<open>Victim\<close> carries the visiting order.
\<close>

type_synonym full_history = "u32 \<rightharpoonup> nat list"

fun lru_step :: "LRUKReplacer \<times> full_history \<Rightarrow> lru_op \<Rightarrow> LRUKReplacer \<times> full_history" where
  "lru_step (r, H) (Record f) =
     (record_access f r,
      H(f \<mapsto> (case H f of None \<Rightarrow> [] | Some h \<Rightarrow> h) @ [Suc (unat (current_timestamp r))]))"
| "lru_step (r, H) (SetEvictable f b) = (set_evictable f b r, H)"
| "lru_step (r, H) (Victim order) =
     (case victim order r of (None, r') \<Rightarrow> (r', H) | (Some f, r') \<Rightarrow> (r', H(f := None)))"
| "lru_step (r, H) (Remove f) = (lru_remove f r, H(f := None))"

abbreviation lru_exec :: "nat \<Rightarrow> nat \<Rightarrow> lru_op list \<Rightarrow> LRUKReplacer \<times> full_history" where
  "lru_exec n k ops \<equiv> foldl lru_step (lru_init n k, Map.empty) ops"

definition last_k :: "nat \<Rightarrow> 'a list \<Rightarrow> 'a list" where
  "last_k k h = drop (length h - k) h"

lemma last_k_push:
  assumes "1 \<le> k"
  shows "last_k k (h @ [x]) = (let h1 = last_k k h @ [x] in if length h1 > k then tl h1 else h1)"
proof (cases "length h < k")
  case True
  then show ?thesis by (simp add: last_k_def)
next
  case False
  then have "length h - k < length h" "Suc (length h) - k = Suc (length h - k)" using assms by linarith+
  then have "drop (length h - k) h = h ! (length h - k) # drop (Suc (length h - k)) h"
    by (simp add: Cons_nth_drop_Suc)
  then show ?thesis using False assms by (simp add: last_k_def Suc_diff_le)
qed

definition evictable_set :: "LRUKReplacer \<Rightarrow> u32 set" where
  "evictable_set r = {f. evictable r f}"

lemma card_evictable_less: "card (evictable_set r) < 2 ^ 64"
proof -
  have "card (evictable_set r) \<le> card (UNIV :: u32 set)" by (rule card_mono) simp_all
  also have "\<dots> = 2 ^ 32" by (simp add: card_word)
  finally show ?thesis by simp
qed

definition lru_inv :: "nat \<Rightarrow> nat \<Rightarrow> LRUKReplacer \<times> full_history \<Rightarrow> bool" where
  "lru_inv k now s \<longleftrightarrow> (case s of (r, H) \<Rightarrow>
     lru_k r = k \<and> unat (current_timestamp r) = now \<and> dom (entries r) = dom H \<and>
     curr_size r = of_nat (card (evictable_set r)) \<and>
     (\<forall>f e h. entries r f = Some e \<longrightarrow> H f = Some h \<longrightarrow> map unat (history e) = last_k k h) \<and>
     (\<forall>f h. H f = Some h \<longrightarrow> h \<noteq> [] \<and> (\<forall>t \<in> set h. t \<le> now)) \<and>
     (\<forall>f g h i. f \<noteq> g \<longrightarrow> H f = Some h \<longrightarrow> H g = Some i \<longrightarrow> set h \<inter> set i = {}))"

lemma lru_invD:
  assumes "lru_inv k now (r, H)"
  shows "lru_k r = k" "unat (current_timestamp r) = now" "dom (entries r) = dom H"
    "curr_size r = of_nat (card (evictable_set r))"
    "entries r f = Some e \<Longrightarrow> H f = Some h \<Longrightarrow> map unat (history e) = last_k k h"
    "H f = Some h \<Longrightarrow> h \<noteq> []" "H f = Some h \<Longrightarrow> t \<in> set h \<Longrightarrow> t \<le> now"
    "f \<noteq> g \<Longrightarrow> H f = Some h \<Longrightarrow> H g = Some i \<Longrightarrow> set h \<inter> set i = {}"
  using assms unfolding lru_inv_def by (simp_all only: prod.case) blast+

lemma lru_invI:
  assumes "lru_k r = k" "unat (current_timestamp r) = now" "dom (entries r) = dom H"
    "curr_size r = of_nat (card (evictable_set r))"
    "\<And>f e h. entries r f = Some e \<Longrightarrow> H f = Some h \<Longrightarrow> map unat (history e) = last_k k h"
    "\<And>f h. H f = Some h \<Longrightarrow> h \<noteq> []" "\<And>f h t. H f = Some h \<Longrightarrow> t \<in> set h \<Longrightarrow> t \<le> now"
    "\<And>f g h i. f \<noteq> g \<Longrightarrow> H f = Some h \<Longrightarrow> H g = Some i \<Longrightarrow> set h \<inter> set i = {}"
  shows "lru_inv k now (r, H)"
  using assms unfolding lru_inv_def prod.case by blast

lemma lru_inv_init: "lru_inv k 0 (lru_init n k, Map.empty)"
  by (simp add: lru_inv_def lru_init_def evictable_set_def evictable_def)

lemma last_k_ne: "1 \<le> k \<Longrightarrow> h \<noteq> [] \<Longrightarrow> last_k k h \<noteq> []"
proof -
  assume "1 \<le> k" "h \<noteq> []"
  then have "length h - k < length h" by (cases h) auto
  then show ?thesis by (simp add: last_k_def)
qed

lemma lru_inv_stamped:
  assumes inv: "lru_inv k now (r, H)" and k: "1 \<le> k"
  shows "stamped r"
  unfolding stamped_def
proof (intro allI impI)
  fix f e assume e: "entries r f = Some e"
  then obtain h where h: "H f = Some h" using lru_invD(3) [OF inv] by blast
  have m: "map unat (history e) = last_k k h" using lru_invD(5) [OF inv e h] .
  have ne: "last_k k h \<noteq> []" by (rule last_k_ne [OF k lru_invD(6) [OF inv h]])
  then have hist: "history e \<noteq> []" using m by auto
  have "hd (last_k k h) \<in> set h" using ne hd_in_set in_set_dropD unfolding last_k_def by metis
  moreover have "unat (hd (history e)) = hd (last_k k h)" using hist m by (metis hd_map)
  ultimately show "history e \<noteq> [] \<and> unat (hd (history e)) \<le> unat (current_timestamp r)"
    using hist lru_invD(2) [OF inv] lru_invD(7) [OF inv h] by simp
qed

lemma map_push_history:
  "map unat (push_history k t h) = (let h1 = map unat h @ [unat t] in if length h1 > k then tl h1 else h1)"
  by (simp add: push_history_def Let_def map_tl)

lemma unat_next: "unat (t :: u64) = now \<Longrightarrow> Suc now < 2 ^ 64 \<Longrightarrow> unat (t + 1) = Suc now"
  using unat_Suc_u64 [of t] by simp

lemma record_inv:
  assumes inv: "lru_inv k now (r, H)" and k: "1 \<le> k" and now: "Suc now < 2 ^ 64"
  shows "lru_inv k (Suc now) (lru_step (r, H) (Record f))"
proof -
  define h0 where "h0 = (case H f of None \<Rightarrow> [] | Some h \<Rightarrow> h)"
  let ?node = "case entries r f of Some e \<Rightarrow> e | None \<Rightarrow> \<lparr>history = [], is_evictable = False\<rparr>"
  let ?t = "current_timestamp r + 1"
  let ?r = "record_access f r" and ?H = "H(f \<mapsto> h0 @ [Suc now])"
  note D = lru_invD [OF inv]
  have t: "unat ?t = Suc now" using unat_next [OF D(2) now] .
  have r': "?r = r\<lparr>current_timestamp := ?t, entries := (entries r)(f \<mapsto> ?node\<lparr>history := push_history k ?t (history ?node)\<rparr>)\<rparr>"
    by (simp add: record_access_def Let_def D(1))
  have base: "map unat (history ?node) = last_k k h0"
  proof (cases "H f")
    case None
    then have "entries r f = None" using D(3) by blast
    then show ?thesis using None by (simp add: last_k_def h0_def)
  next
    case (Some h)
    then obtain e where "entries r f = Some e" using D(3) by blast
    then show ?thesis using D(5) Some by (simp add: h0_def)
  qed
  have ev: "evictable_set ?r = evictable_set r"
    by (auto simp: evictable_set_def evictable_def r' split: option.splits)
  have old: "x \<le> now" if "x \<in> set h0" for x using that D(7) [of f _ x] by (cases "H f") (auto simp: h0_def)
  have new: "set h \<inter> set (h0 @ [Suc now]) = {}" if "g \<noteq> f" "H g = Some h" for g h
  proof -
    have "Suc now \<notin> set h" using D(7) [OF that(2), of "Suc now"] by auto
    moreover have "set h \<inter> set h0 = {}" using D(8) [OF that] by (cases "H f") (auto simp: h0_def)
    ultimately show ?thesis by auto
  qed
  have "lru_inv k (Suc now) (?r, ?H)"
  proof (rule lru_invI)
    show "lru_k ?r = k" "unat (current_timestamp ?r) = Suc now" using D(1) t by (simp_all add: r')
    show "dom (entries ?r) = dom ?H" using D(3) by (simp add: r')
    show "curr_size ?r = of_nat (card (evictable_set ?r))" using D(4) unfolding ev by (simp add: r')
    show "map unat (history e) = last_k k h" if "entries ?r g = Some e" "?H g = Some h" for g e h
    proof (cases "g = f")
      case True
      then show ?thesis
        using that last_k_push [OF k, of h0 "Suc now"] base t by (auto simp: r' map_push_history)
    next
      case False
      then show ?thesis using that D(5) [of g e h] by (simp add: r')
    qed
    show "h \<noteq> []" if "?H g = Some h" for g h using that D(6) [of g h] by (cases "g = f") auto
    show "set h \<inter> set i = {}" if g: "g \<noteq> g'" "?H g = Some h" "?H g' = Some i" for g g' h i
    proof -
      consider "g = f" "g' \<noteq> f" | "g' = f" "g \<noteq> f" | "g \<noteq> f" "g' \<noteq> f" using g(1) by blast
      then show ?thesis
      proof cases
        case 1
        then have "h = h0 @ [Suc now]" "H g' = Some i" using g by simp_all
        then show ?thesis using new [of g' i] 1 by blast
      next
        case 2
        then have "i = h0 @ [Suc now]" "H g = Some h" using g by simp_all
        then show ?thesis using new [of g h] 2 by blast
      next
        case 3
        then show ?thesis using D(8) [of g g' h i] g by simp
      qed
    qed
    show "x \<le> Suc now" if "?H g = Some h" "x \<in> set h" for g h x
      using that old [of x] D(7) [of g h x] by (cases "g = f") (auto intro: le_SucI)
  qed
  then show ?thesis by (simp add: D(2) h0_def)
qed

lemma curr_size_upd:
  "finite S \<Longrightarrow> f \<notin> S \<Longrightarrow> (of_nat (card S) :: u64) + 1 = of_nat (card (insert f S))"
  "finite S \<Longrightarrow> f \<in> S \<Longrightarrow> (of_nat (card S) :: u64) - 1 = of_nat (card (S - {f}))"
proof -
  show "(of_nat (card S) :: u64) + 1 = of_nat (card (insert f S))" if "finite S" "f \<notin> S"
    using that by simp
  show "(of_nat (card S) :: u64) - 1 = of_nat (card (S - {f}))" if "finite S" "f \<in> S"
    using card.remove [OF that] by simp
qed

lemma set_evictable_inv:
  assumes inv: "lru_inv k now (r, H)"
  shows "lru_inv k now (set_evictable f b r, H)"
proof (cases "\<exists>e. entries r f = Some e \<and> is_evictable e \<noteq> b")
  case False
  then have "set_evictable f b r = r" by (auto simp: set_evictable_def split: option.splits)
  then show ?thesis using inv by simp
next
  case True
  then obtain e where e: "entries r f = Some e" "is_evictable e \<noteq> b" by blast
  note D = lru_invD [OF inv]
  let ?r = "set_evictable f b r"
  have r': "?r = r\<lparr>entries := (entries r)(f \<mapsto> e\<lparr>is_evictable := b\<rparr>),
      curr_size := (if b then curr_size r + 1 else curr_size r - 1)\<rparr>"
    using e by (simp add: set_evictable_def)
  have ev: "evictable_set ?r = (if b then insert f (evictable_set r) else evictable_set r - {f})"
    using e by (auto simp: r' evictable_set_def evictable_def split: option.splits if_splits)
  have f: "f \<in> evictable_set r \<longleftrightarrow> \<not> b" using e by (auto simp: evictable_set_def evictable_def)
  show ?thesis
  proof (rule lru_invI)
    show "curr_size ?r = of_nat (card (evictable_set ?r))"
      using D(4) f curr_size_upd [of "evictable_set r" f] unfolding ev by (simp add: r')
    show "map unat (history e') = last_k k h" if "entries ?r g = Some e'" "H g = Some h" for g e' h
      using that D(5) [of g _ h] e by (cases "g = f") (auto simp: r')
    show "dom (entries ?r) = dom H" using D(3) e(1) by (auto simp: r')
    show "lru_k ?r = k" "unat (current_timestamp ?r) = now" using D(1,2) by (simp_all add: r')
  qed (fact D)+
qed

text \<open>Dropping a frame, by eviction or removal.\<close>

lemma drop_frame_inv:
  assumes inv: "lru_inv k now (r, H)" and e: "entries r f = Some e"
    and r': "r' = r\<lparr>entries := (entries r)(f := None),
      curr_size := (if is_evictable e then curr_size r - 1 else curr_size r)\<rparr>"
  shows "lru_inv k now (r', H(f := None))"
proof -
  note D = lru_invD [OF inv]
  have ev: "evictable_set r' = evictable_set r - {f}"
    by (auto simp: r' evictable_set_def evictable_def split: option.splits if_splits)
  have f: "f \<in> evictable_set r \<longleftrightarrow> is_evictable e" using e by (auto simp: evictable_set_def evictable_def)
  show ?thesis
  proof (rule lru_invI)
    show "curr_size r' = of_nat (card (evictable_set r'))"
      using D(4) f curr_size_upd(2) [of "evictable_set r" f] unfolding ev
      by (cases "is_evictable e") (simp_all add: r')
    show "set h \<inter> set i = {}" if "g \<noteq> g'" "(H(f := None)) g = Some h" "(H(f := None)) g' = Some i" for g g' h i
      using that D(8) [of g g' h i] by (auto split: if_splits)
    show "lru_k r' = k" "unat (current_timestamp r') = now" using D(1,2) by (simp_all add: r')
    show "dom (entries r') = dom (H(f := None))" using D(3) by (simp add: r')
    show "map unat (history e') = last_k k h" if "entries r' g = Some e'" "(H(f := None)) g = Some h" for g e' h
      using that D(5) [of g e' h] by (auto simp: r' split: if_splits)
    show "h \<noteq> []" if "(H(f := None)) g = Some h" for g h using that D(6) [of g h] by (auto split: if_splits)
    show "x \<le> now" if "(H(f := None)) g = Some h" "x \<in> set h" for g h x
      using that D(7) [of g h x] by (auto split: if_splits)
  qed
qed

lemma lru_remove_inv:
  assumes inv: "lru_inv k now (r, H)"
  shows "lru_inv k now (lru_remove f r, H(f := None))"
proof (cases "entries r f")
  case None
  then have "H f = None" using lru_invD(3) [OF inv] by blast
  then show ?thesis using inv None by (simp add: lru_remove_def fun_upd_idem)
next
  case (Some e)
  show ?thesis by (rule drop_frame_inv [OF inv Some]) (simp add: lru_remove_def Some)
qed

lemma victim_found:
  assumes inv: "lru_inv k now (r, H)" and k: "1 \<le> k"
  shows "loop_inv r (set order) (foldl (victim_step r) victim_loop_init order)"
  using victim_loop_inv [OF lru_inv_stamped [OF inv k] loop_inv_init, of order] by simp

lemma victim_evicts:
  assumes inv: "lru_inv k now (r, H)" and k: "1 \<le> k" and v: "victim order r = (Some f, r')"
  shows "evictable r f" "r' = r\<lparr>entries := (entries r)(f := None), curr_size := curr_size r - 1\<rparr>"
    "f \<in> set order" "\<And>g. g \<in> set order \<Longrightarrow> evictable r g \<Longrightarrow> (short r f = short r g \<and> oldest r f \<le> oldest r g) \<or> (short r f \<and> \<not> short r g)"
proof -
  note L = loop_invD [OF victim_found [OF inv k, of order]]
  let ?v = "foldl (victim_step r) victim_loop_init order"
  have f: "found_any ?v" "f = victim_id ?v"
    "r' = r\<lparr>entries := (entries r)(f := None), curr_size := curr_size r - 1\<rparr>"
    using v by (auto simp: victim_def Let_def split: if_splits)
  then show "evictable r f" "f \<in> set order"
    "r' = r\<lparr>entries := (entries r)(f := None), curr_size := curr_size r - 1\<rparr>"
    using L(3) by auto
  show "(short r f = short r g \<and> oldest r f \<le> oldest r g) \<or> (short r f \<and> \<not> short r g)"
    if g: "g \<in> set order" "evictable r g" for g
  proof (cases "short r g = found_inf ?v")
    case True
    then show ?thesis using L(3) [OF f(1)] L(6) [OF g True] f(2) by simp
  next
    case False
    then have "found_inf ?v" using L(2) g by blast
    then show ?thesis using False L(3) [OF f(1)] f(2) by simp
  qed
qed

lemma victim_inv:
  assumes inv: "lru_inv k now (r, H)" and k: "1 \<le> k"
  shows "lru_inv k now (lru_step (r, H) (Victim order))"
proof (cases "victim order r")
  case (Pair out r')
  show ?thesis
  proof (cases out)
    case None
    then have "r' = r" using Pair by (auto simp: victim_def Let_def split: if_splits)
    then show ?thesis using inv Pair None by simp
  next
    case (Some f)
    note V = victim_evicts [OF inv k Pair [unfolded Some]]
    obtain e where e: "entries r f = Some e" "is_evictable e"
      using V(1) by (auto simp: evictable_def split: option.splits)
    show ?thesis using drop_frame_inv [OF inv e(1), of r'] V(2) e(2) Pair Some by simp
  qed
qed

fun is_record :: "lru_op \<Rightarrow> bool" where
  "is_record (Record f) = True"
| "is_record _ = False"

lemma lru_exec_inv:
  assumes "1 \<le> k" "length (filter is_record ops) < 2 ^ 64"
  shows "lru_inv k (length (filter is_record ops)) (lru_exec n k ops)"
  using assms(2)
proof (induction ops rule: rev_induct)
  case Nil
  then show ?case using lru_inv_init by simp
next
  case (snoc op ops)
  obtain r H where s: "lru_exec n k ops = (r, H)" by fastforce
  show ?case
  proof (cases op)
    case (Record f)
    then have "lru_inv k (length (filter is_record ops)) (r, H)" "Suc (length (filter is_record ops)) < 2 ^ 64"
      using snoc s by auto
    then show ?thesis using record_inv [OF _ assms(1), of _ r H f] Record s by simp
  next
    case (SetEvictable f b)
    then show ?thesis using snoc s set_evictable_inv [of k _ r H f b] by simp
  next
    case (Victim order)
    then show ?thesis using snoc s victim_inv [OF _ assms(1), of _ r H order] by simp
  next
    case (Remove f)
    then show ?thesis using snoc s lru_remove_inv [of k _ r H f] by simp
  qed
qed

subsection \<open>Backward distance\<close>

text \<open>The time of the \<open>k\<close>-th last access, or of the first one when there are fewer.\<close>

definition kth_last :: "nat \<Rightarrow> nat list \<Rightarrow> nat" where
  "kth_last k h = (if length h < k then hd h else h ! (length h - k))"

text \<open>Frames with fewer than \<open>k\<close> accesses go first, then the least recent \<open>k\<close>-th last access.\<close>

definition farther :: "nat \<Rightarrow> nat list \<Rightarrow> nat list \<Rightarrow> bool" where
  "farther k h i \<longleftrightarrow> length h < k \<and> k \<le> length i \<or>
     (length h < k \<longleftrightarrow> length i < k) \<and> kth_last k h < kth_last k i"

lemma hd_last_k: "1 \<le> k \<Longrightarrow> h \<noteq> [] \<Longrightarrow> hd (last_k k h) = kth_last k h"
  by (cases h) (auto simp: last_k_def kth_last_def hd_drop_conv_nth)

lemma kth_last_in: "1 \<le> k \<Longrightarrow> h \<noteq> [] \<Longrightarrow> kth_last k h \<in> set h"
proof -
  assume "1 \<le> k" "h \<noteq> []"
  then have "length h - k < length h" by (cases h) auto
  then show ?thesis using \<open>h \<noteq> []\<close> by (simp add: kth_last_def)
qed

lemma tracked:
  assumes inv: "lru_inv k now (r, H)" and k: "1 \<le> k" and h: "H f = Some h"
  shows "oldest r f = kth_last k h" "short r f \<longleftrightarrow> length h < k"
proof -
  obtain e where e: "entries r f = Some e" using lru_invD(3) [OF inv] h by blast
  have m: "map unat (history e) = last_k k h" using lru_invD(5) [OF inv e h] .
  have ne: "h \<noteq> []" using lru_invD(6) [OF inv h] .
  have "history e \<noteq> []" using m last_k_ne [OF k ne] by auto
  then show "oldest r f = kth_last k h"
    using hd_map [of "history e" unat] m hd_last_k [OF k ne] e by (simp add: oldest_def node_of_def)
  have "length (history e) = length (last_k k h)" using m by (metis length_map)
  then show "short r f \<longleftrightarrow> length h < k"
    using e lru_invD(1) [OF inv] by (auto simp: short_def node_of_def last_k_def)
qed

lemma no_evictable:
  assumes inv: "lru_inv k now (r, H)"
  shows "curr_size r = 0 \<longleftrightarrow> (\<forall>f. \<not> evictable r f)"
proof -
  have "unat (curr_size r) = card (evictable_set r)"
    using lru_invD(4) [OF inv] card_evictable_less [of r] by (simp add: unat_of_nat_u64)
  then have "curr_size r = 0 \<longleftrightarrow> card (evictable_set r) = 0" by (metis unat_eq_0)
  then show ?thesis by (auto simp: evictable_set_def)
qed

lemma evictable_tracked: "lru_inv k now (r, H) \<Longrightarrow> evictable r f \<Longrightarrow> \<exists>h. H f = Some h"
  using lru_invD(3) [of k now r H] by (auto simp: evictable_def split: option.splits)

lemma victim_farthest:
  assumes inv: "lru_inv k now (r, H)" and k: "1 \<le> k" and v: "victim order r = (Some f, r')"
    and order: "set order = dom (entries r)" and g: "evictable r g" "g \<noteq> f" "H f = Some h" "H g = Some i"
  shows "farther k h i"
proof -
  have "g \<in> set order" using g(1) order by (auto simp: evictable_def split: option.splits)
  then have le: "(short r f = short r g \<and> oldest r f \<le> oldest r g) \<or> (short r f \<and> \<not> short r g)"
    using victim_evicts(4) [OF inv k v] g(1) by blast
  have "kth_last k h \<in> set h" "kth_last k i \<in> set i"
    using kth_last_in [OF k] lru_invD(6) [OF inv] g by blast+
  then have "kth_last k h \<noteq> kth_last k i" using lru_invD(8) [OF inv _ g(3,4)] g(2) by auto
  then show ?thesis using le tracked [OF inv k g(3)] tracked [OF inv k g(4)] by (auto simp: farther_def)
qed

lemma victim_exists:
  assumes inv: "lru_inv k now (r, H)" and k: "1 \<le> k" and order: "set order = dom (entries r)"
    and v: "victim order r = (None, r')"
  shows "r' = r \<and> (\<forall>f. \<not> evictable r f)"
proof (cases "curr_size r = 0")
  case True
  then show ?thesis using no_evictable [OF inv] v by (simp add: victim_def)
next
  case False
  then have "\<not> found_any (foldl (victim_step r) victim_loop_init order)" "r' = r"
    using v by (auto simp: victim_def Let_def split: if_splits)
  then have "\<not> evictable r f" if "f \<in> set order" for f
    using loop_invD(1) [OF victim_found [OF inv k, of order]] that by blast
  moreover have "\<not> evictable r f" if "f \<notin> set order" for f
    using that order by (auto simp: evictable_def split: option.splits)
  ultimately show ?thesis using \<open>r' = r\<close> by blast
qed

subsection \<open>The contract the buffer pool relies on\<close>

text \<open>
  A replacer tracks frames and knows which of them may be evicted. A client that marks a frame
  evictable exactly while nobody pins it never gets a pinned frame as a victim.
\<close>

locale frame_replacer =
  fixes access :: "'f \<Rightarrow> 'r \<Rightarrow> 'r"
    and mark :: "'f \<Rightarrow> bool \<Rightarrow> 'r \<Rightarrow> 'r"
    and pick :: "'o \<Rightarrow> 'r \<Rightarrow> 'f option \<times> 'r"
    and evs :: "'r \<Rightarrow> 'f set"
    and tracked_set :: "'r \<Rightarrow> 'f set"
    and ok :: "'r \<Rightarrow> bool"
    and complete :: "'o \<Rightarrow> 'r \<Rightarrow> bool"
  assumes access_evs: "evs (access f r) = evs r"
    and access_tracked: "tracked_set (access f r) = insert f (tracked_set r)"
    and access_ok: "ok r \<Longrightarrow> ok (access f r)"
    and mark_evs: "f \<in> tracked_set r \<Longrightarrow> evs (mark f b r) = (if b then insert f (evs r) else evs r - {f})"
    and mark_tracked: "tracked_set (mark f b r) = tracked_set r"
    and mark_ok: "ok r \<Longrightarrow> ok (mark f b r)"
    and pick_some: "ok r \<Longrightarrow> pick order r = (Some f, r') \<Longrightarrow>
          f \<in> evs r \<and> evs r' = evs r - {f} \<and> tracked_set r' = tracked_set r - {f} \<and> ok r'"
    and pick_none: "ok r \<Longrightarrow> pick order r = (None, r') \<Longrightarrow> r' = r \<and> (complete order r \<longrightarrow> evs r = {})"
begin

definition pinned_inv :: "'r \<Rightarrow> ('f \<Rightarrow> nat) \<Rightarrow> bool" where
  "pinned_inv r pins \<longleftrightarrow> ok r \<and> evs r = {f \<in> tracked_set r. pins f = 0}"

lemma pin:
  assumes "pinned_inv r pins" "0 < n"
  shows "pinned_inv (mark f False (access f r)) (pins(f := n))"
    "tracked_set (mark f False (access f r)) = insert f (tracked_set r)"
  using assms mark_evs [of f "access f r" False]
  by (auto simp: pinned_inv_def access_evs access_tracked access_ok mark_tracked mark_ok)

lemma unpin_last:
  assumes "pinned_inv r pins" "f \<in> tracked_set r"
  shows "pinned_inv (mark f True r) (pins(f := 0))" "tracked_set (mark f True r) = tracked_set r"
  using assms by (auto simp: pinned_inv_def mark_evs mark_tracked mark_ok)

lemma unpin_more:
  assumes "pinned_inv r pins" "0 < pins f" "0 < n"
  shows "pinned_inv r (pins(f := n))"
  using assms by (auto simp: pinned_inv_def)

lemma evict_unpinned:
  assumes "pinned_inv r pins" "pick order r = (Some f, r')"
  shows "pins f = 0 \<and> f \<in> tracked_set r \<and> pinned_inv r' pins \<and> tracked_set r' = tracked_set r - {f}"
  using assms pick_some [of r order f r'] by (auto simp: pinned_inv_def)

lemma evict_none:
  assumes "pinned_inv r pins" "pick order r = (None, r')"
  shows "r' = r \<and> (complete order r \<longrightarrow> (\<forall>f \<in> tracked_set r. 0 < pins f))"
  using assms pick_none [of r order r'] by (auto simp: pinned_inv_def)

end

definition lru_ok :: "LRUKReplacer \<Rightarrow> bool" where
  "lru_ok r \<longleftrightarrow> curr_size r = of_nat (card (evictable_set r))"

lemma record_evictable: "evictable_set (record_access f r) = evictable_set r"
  by (auto simp: evictable_set_def evictable_def record_access_def Let_def split: option.splits)

lemma set_evictable_evictable:
  "evictable_set (set_evictable f b r) =
     (if f \<in> dom (entries r) then if b then insert f (evictable_set r) else evictable_set r - {f} else evictable_set r)"
  by (auto simp: evictable_set_def evictable_def set_evictable_def domIff split: option.splits if_splits)

lemma set_evictable_ok:
  assumes "lru_ok r"
  shows "lru_ok (set_evictable f b r)"
proof (cases "\<exists>e. entries r f = Some e \<and> is_evictable e \<noteq> b")
  case False
  then have "set_evictable f b r = r" by (auto simp: set_evictable_def split: option.splits)
  then show ?thesis using assms by simp
next
  case True
  then obtain e where e: "entries r f = Some e" "is_evictable e \<noteq> b" by blast
  have "f \<in> evictable_set r \<longleftrightarrow> \<not> b" using e by (auto simp: evictable_set_def evictable_def)
  then show ?thesis
    using assms e curr_size_upd [of "evictable_set r" f] set_evictable_evictable [of f b r]
    by (auto simp: lru_ok_def domIff) (simp_all add: set_evictable_def)
qed

definition sound_loop :: "LRUKReplacer \<Rightarrow> victim_loop \<Rightarrow> bool" where
  "sound_loop r v \<longleftrightarrow> (found_inf v \<longrightarrow> found_any v) \<and> (found_any v \<longrightarrow> evictable r (victim_id v))"

lemma victim_step_sound:
  assumes "sound_loop r v"
  shows "sound_loop r (victim_step r v f)" "found_any (victim_step r v f) \<longleftrightarrow> found_any v \<or> evictable r f"
  using assms by (auto simp: sound_loop_def victim_step_def evictable_def Let_def split: option.splits)

lemma victim_loop_sound:
  assumes "sound_loop r v"
  shows "sound_loop r (foldl (victim_step r) v order) \<and>
    (found_any (foldl (victim_step r) v order) \<longleftrightarrow> found_any v \<or> (\<exists>f \<in> set order. evictable r f))"
  using assms by (induction order arbitrary: v) (auto simp: victim_step_sound)

lemma victim_contract:
  assumes ok: "lru_ok r"
  shows "victim order r = (Some f, r') \<Longrightarrow>
      f \<in> evictable_set r \<and> evictable_set r' = evictable_set r - {f} \<and> dom (entries r') = dom (entries r) - {f} \<and> lru_ok r'"
    "victim order r = (None, r') \<Longrightarrow> r' = r \<and> (set order = dom (entries r) \<longrightarrow> evictable_set r = {})"
proof -
  let ?v = "foldl (victim_step r) victim_loop_init order"
  have L: "sound_loop r ?v" "found_any ?v \<longleftrightarrow> (\<exists>f \<in> set order. evictable r f)"
    using victim_loop_sound [of r victim_loop_init order] by (auto simp: sound_loop_def victim_loop_init_def)
  show "f \<in> evictable_set r \<and> evictable_set r' = evictable_set r - {f} \<and> dom (entries r') = dom (entries r) - {f} \<and> lru_ok r'"
    if v: "victim order r = (Some f, r')"
  proof -
    have r': "found_any ?v" "f = victim_id ?v"
      "r' = r\<lparr>entries := (entries r)(f := None), curr_size := curr_size r - 1\<rparr>"
      using v by (auto simp: victim_def Let_def split: if_splits)
    have f: "f \<in> evictable_set r" using L(1) r' by (simp add: sound_loop_def evictable_set_def)
    moreover have ev: "evictable_set r' = evictable_set r - {f}"
      by (auto simp: r'(3) evictable_set_def evictable_def split: option.splits if_splits)
    moreover have "lru_ok r'"
      using ok curr_size_upd(2) [of "evictable_set r" f] f unfolding lru_ok_def ev by (simp add: r'(3))
    ultimately show ?thesis by (simp add: r'(3))
  qed
  show "r' = r \<and> (set order = dom (entries r) \<longrightarrow> evictable_set r = {})" if v: "victim order r = (None, r')"
  proof (cases "curr_size r = 0")
    case True
    have "unat (curr_size r) = card (evictable_set r)"
      using ok card_evictable_less [of r] by (simp add: lru_ok_def unat_of_nat_u64)
    then have "evictable_set r = {}" using True by simp
    then show ?thesis using v True by (simp add: victim_def)
  next
    case False
    then have "\<not> found_any ?v" "r' = r" using v by (auto simp: victim_def Let_def split: if_splits)
    then show ?thesis using L(2) by (auto simp: evictable_set_def evictable_def split: option.splits)
  qed
qed

interpretation lru: frame_replacer record_access set_evictable victim evictable_set "\<lambda>r. dom (entries r)" lru_ok
  "\<lambda>order r. set order = dom (entries r)"
proof (unfold_locales, goal_cases)
  case 1 show ?case by (rule record_evictable)
next
  case 2 show ?case by (simp add: record_access_def Let_def)
next
  case 3 then show ?case unfolding lru_ok_def record_evictable by (simp add: record_access_def Let_def)
next
  case 4 then show ?case by (simp add: set_evictable_evictable)
next
  case 5 show ?case by (auto simp: set_evictable_def split: option.splits)
next
  case 6 then show ?case by (rule set_evictable_ok)
next
  case 7 then show ?case by (rule victim_contract(1))
next
  case 8 then show ?case by (rule victim_contract(2))
qed

text \<open>
  C15: after any history of calls, and for any order in which the hash map is traversed, \<open>victim\<close>
  evicts the evictable frame of greatest backward \<open>k\<close>-distance computed from the complete access
  history: frames with fewer than \<open>k\<close> accesses first, oldest first access first. It fails only
  when no frame is evictable. \<open>size\<close> is the number of evictable frames.
\<close>

theorem lru_k_victim_correct:
  assumes "1 \<le> k" "length (filter is_record ops) < 2 ^ 64" "lru_exec n k ops = (r, H)"
    "set order = dom (entries r)"
  shows "unat (lru_size r) = card {f. evictable r f} \<and>
    (case victim order r of
       (None, r') \<Rightarrow> r' = r \<and> (\<forall>f. \<not> evictable r f)
     | (Some f, r') \<Rightarrow> evictable r f \<and> entries r' = (entries r)(f := None) \<and>
         (\<exists>h. H f = Some h \<and> (\<forall>g i. evictable r g \<longrightarrow> g \<noteq> f \<longrightarrow> H g = Some i \<longrightarrow> farther k h i)))"
proof -
  have inv: "lru_inv k (length (filter is_record ops)) (r, H)"
    using lru_exec_inv [OF assms(1,2), of n] assms(3) by simp
  have "unat (lru_size r) = card {f. evictable r f}"
    using lru_invD(4) [OF inv] card_evictable_less [of r] by (simp add: unat_of_nat_u64 lru_size_def evictable_set_def)
  moreover have "evictable r f \<and> entries r' = (entries r)(f := None) \<and>
      (\<exists>h. H f = Some h \<and> (\<forall>g i. evictable r g \<longrightarrow> g \<noteq> f \<longrightarrow> H g = Some i \<longrightarrow> farther k h i))"
    if v: "victim order r = (Some f, r')" for f r'
  proof -
    obtain h where "H f = Some h" using evictable_tracked [OF inv victim_evicts(1) [OF inv assms(1) v]] by blast
    then show ?thesis
      using victim_evicts(1,2) [OF inv assms(1) v] victim_farthest [OF inv assms(1) v assms(4)] by simp
  qed
  moreover have "r' = r \<and> (\<forall>f. \<not> evictable r f)" if "victim order r = (None, r')" for r'
    using victim_exists [OF inv assms(1,4) that] .
  ultimately show ?thesis by (cases "victim order r"; cases "fst (victim order r)") simp_all
qed

theorem lru_k_victim_correct_witness:
  "let ops = [Record 1, Record 2, Record 1, SetEvictable 1 True, SetEvictable 2 True] in
   case lru_exec 10 2 ops of (r, H) \<Rightarrow>
     set [2, 1] = dom (entries r) \<and> unat (lru_size r) = card {f. evictable r f} \<and> fst (victim [2, 1] r) = Some 2"
proof -
  let ?ops = "[Record 1, Record 2, Record 1, SetEvictable 1 True, SetEvictable 2 True]"
  obtain r H where s: "lru_exec 10 2 ?ops = (r, H)" by fastforce
  have r: "r = \<lparr>num_frames = 10, lru_k = 2, curr_size = 2, current_timestamp = 3, entries =
     [1 \<mapsto> \<lparr>history = [1, 3], is_evictable = True\<rparr>, 2 \<mapsto> \<lparr>history = [2], is_evictable = True\<rparr>]\<rparr>"
    using s by (simp add: lru_init_def record_access_def set_evictable_def push_history_def Let_def fun_upd_twist)
  have d: "set [2, 1] = dom (entries r)" unfolding r by auto
  show ?thesis
    using lru_k_victim_correct [OF _ _ s d] s d
    by (simp add: victim_def victim_step_def victim_loop_init_def r Let_def)
qed

end
