(* ===== verification/Buffer_Pool.thy ===== *)
theory Buffer_Pool
  imports Disk_Manager Lru_K
begin

text \<open>
  The buffer pool of
  \<^verbatim>\<open>07-database-storage-and-buffer-pool/projects/concurrent_buffer_pool_manager/buffer_pool_manager.hpp\<close>.
  Every member function holds \<open>bpm_latch_\<close>, so a call is one step. A pointer to a page is the frame
  that holds it. The traversal orders of the two hash maps are arguments, as in \<open>Lru_K\<close>; an
  exception of the disk manager is the left summand of a result.

  The specification is a store of pages. A page is in the pool, or else on disk; the theorems show
  that no call changes the contents of any page, that a pinned page stays where it is, and that
  everything is on disk after the final flush, for clients that fetch only allocated pages and
  report their changes when they drop the last pin.
\<close>

subsection \<open>The code\<close>

definition INVALID_PAGE_ID :: u64 where
  "INVALID_PAGE_ID = 18446744073709551615"

record FrameMeta =
  fm_page_id :: u64
  fm_pin_count :: int
  fm_dirty :: bool

record BufferPoolManager =
  pool_size :: nat
  disk_manager :: disk
  replacer :: LRUKReplacer
  pages :: "memory list"
  frames :: "FrameMeta list"
  free_list :: "u32 list"
  page_table :: "u64 \<rightharpoonup> u32"

abbreviation page_bytes :: "memory \<Rightarrow> bytes" where
  "page_bytes p \<equiv> mem_read p 0 PAGE_SIZE"

definition bpm_init :: "nat \<Rightarrow> nat \<Rightarrow> disk \<Rightarrow> memory list \<Rightarrow> BufferPoolManager" where
  "bpm_init n k d ps =
     \<lparr>pool_size = n, disk_manager = d, replacer = lru_init n k, pages = ps,
      frames = replicate n \<lparr>fm_page_id = INVALID_PAGE_ID, fm_pin_count = 0, fm_dirty = False\<rparr>,
      free_list = map of_nat [0..<n], page_table = Map.empty\<rparr>"

definition find_available_frame :: "u32 list \<Rightarrow> BufferPoolManager \<Rightarrow> u32 option \<times> BufferPoolManager" where
  "find_available_frame order b =
     (case free_list b of
        fid # rest \<Rightarrow> (Some fid, b\<lparr>free_list := rest\<rparr>)
      | [] \<Rightarrow> (case victim order (replacer b) of (out, r) \<Rightarrow> (out, b\<lparr>replacer := r\<rparr>)))"

text \<open>Both \<open>new_page\<close> and \<open>fetch_page\<close> write back the page a frame held before.\<close>

definition evict_frame :: "u32 \<Rightarrow> BufferPoolManager \<Rightarrow> disk_error + BufferPoolManager" where
  "evict_frame fid b =
     (let m = frames b ! unat fid in
      if fm_page_id m \<noteq> INVALID_PAGE_ID then
        if fm_dirty m then
          (case write_page (fm_page_id m) (page_bytes (pages b ! unat fid)) (disk_manager b) of
             Inl e \<Rightarrow> Inl e
           | Inr d \<Rightarrow> Inr (b\<lparr>disk_manager := d, frames := (frames b)[unat fid := m\<lparr>fm_dirty := False\<rparr>],
               page_table := (page_table b)(fm_page_id m := None)\<rparr>))
        else Inr (b\<lparr>page_table := (page_table b)(fm_page_id m := None)\<rparr>)
      else Inr b)"

text \<open>Both then install the new page in the frame, pinned once.\<close>

definition install_page :: "u32 \<Rightarrow> u64 \<Rightarrow> memory \<Rightarrow> BufferPoolManager \<Rightarrow> BufferPoolManager" where
  "install_page fid pid page b =
     b\<lparr>pages := (pages b)[unat fid := page],
       page_table := (page_table b)(pid \<mapsto> fid),
       frames := (frames b)[unat fid := \<lparr>fm_page_id = pid, fm_pin_count = 1, fm_dirty = False\<rparr>],
       replacer := set_evictable fid False (record_access fid (replacer b))\<rparr>"

definition new_page :: "u32 list \<Rightarrow> BufferPoolManager \<Rightarrow> disk_error + (u64 \<times> u32) option \<times> BufferPoolManager" where
  "new_page order b =
     (case find_available_frame order b of
        (None, b1) \<Rightarrow> Inr (None, b1)
      | (Some fid, b1) \<Rightarrow>
          let (pid, d) = allocate_page (disk_manager b1) in
          (case evict_frame fid (b1\<lparr>disk_manager := d\<rparr>) of
             Inl e \<Rightarrow> Inl e
           | Inr b2 \<Rightarrow> Inr (Some (pid, fid), install_page fid pid (page_init pid (pages b2 ! unat fid)) b2)))"

definition fetch_page :: "u32 list \<Rightarrow> u64 \<Rightarrow> BufferPoolManager \<Rightarrow> disk_error + u32 option \<times> BufferPoolManager" where
  "fetch_page order pid b =
     (case page_table b pid of
        Some fid \<Rightarrow>
          let m = frames b ! unat fid in
          Inr (Some fid, b\<lparr>frames := (frames b)[unat fid := m\<lparr>fm_pin_count := fm_pin_count m + 1\<rparr>],
                   replacer := set_evictable fid False (record_access fid (replacer b))\<rparr>)
      | None \<Rightarrow>
          (case find_available_frame order b of
             (None, b1) \<Rightarrow> Inr (None, b1)
           | (Some fid, b1) \<Rightarrow>
               (case evict_frame fid b1 of
                  Inl e \<Rightarrow> Inl e
                | Inr b2 \<Rightarrow>
                    let p = pages b2 ! unat fid;
                        p' = mem_write p 0 (read_page pid (page_bytes p) (disk_manager b2))
                    in Inr (Some fid, install_page fid pid p' b2))))"

definition unpin_page :: "u64 \<Rightarrow> bool \<Rightarrow> BufferPoolManager \<Rightarrow> bool \<times> BufferPoolManager" where
  "unpin_page pid is_dirty b =
     (case page_table b pid of
        None \<Rightarrow> (False, b)
      | Some fid \<Rightarrow>
          let m = frames b ! unat fid in
          if fm_pin_count m \<le> 0 then (False, b)
          else
            let m1 = m\<lparr>fm_dirty := (if is_dirty then True else fm_dirty m), fm_pin_count := fm_pin_count m - 1\<rparr>;
                b1 = b\<lparr>frames := (frames b)[unat fid := m1]\<rparr>
            in (True, if fm_pin_count m1 = 0 then b1\<lparr>replacer := set_evictable fid True (replacer b1)\<rparr> else b1))"

definition flush_page :: "u64 \<Rightarrow> BufferPoolManager \<Rightarrow> disk_error + bool \<times> BufferPoolManager" where
  "flush_page pid b =
     (case page_table b pid of
        None \<Rightarrow> Inr (False, b)
      | Some fid \<Rightarrow>
          (case write_page pid (page_bytes (pages b ! unat fid)) (disk_manager b) of
             Inl e \<Rightarrow> Inl e
           | Inr d \<Rightarrow> Inr (True, b\<lparr>disk_manager := d,
               frames := (frames b)[unat fid := (frames b ! unat fid)\<lparr>fm_dirty := False\<rparr>]\<rparr>)))"

text \<open>The loop of \<open>flush_all_pages\<close> over the page table, in the order its iterator visits it.\<close>

fun flush_all_pages :: "u64 list \<Rightarrow> BufferPoolManager \<Rightarrow> disk_error + BufferPoolManager" where
  "flush_all_pages [] b = Inr b"
| "flush_all_pages (pid # rest) b =
     (case page_table b pid of
        None \<Rightarrow> flush_all_pages rest b
      | Some fid \<Rightarrow>
          if fm_dirty (frames b ! unat fid) then
            (case write_page pid (page_bytes (pages b ! unat fid)) (disk_manager b) of
               Inl e \<Rightarrow> Inl e
             | Inr d \<Rightarrow> flush_all_pages rest (b\<lparr>disk_manager := d,
                 frames := (frames b)[unat fid := (frames b ! unat fid)\<lparr>fm_dirty := False\<rparr>]\<rparr>))
          else flush_all_pages rest b)"

text \<open>A client writes to a page through the pointer it holds.\<close>

definition client_write :: "u32 \<Rightarrow> bytes \<Rightarrow> BufferPoolManager \<Rightarrow> BufferPoolManager" where
  "client_write fid data b = b\<lparr>pages := (pages b)[unat fid := mem_write (pages b ! unat fid) 0 data]\<rparr>"

subsection \<open>The pool invariant\<close>

definition pins :: "BufferPoolManager \<Rightarrow> u32 \<Rightarrow> nat" where
  "pins b f = nat (fm_pin_count (frames b ! unat f))"

text \<open>Frames that hold a page: not free and not \<open>hole\<close>, the frame a call is just refilling.\<close>

definition occupied :: "BufferPoolManager \<Rightarrow> u32 set \<Rightarrow> u32 set" where
  "occupied b hole = {f. unat f < pool_size b \<and> f \<notin> set (free_list b) \<and> f \<notin> hole}"

definition logical :: "BufferPoolManager \<Rightarrow> u64 \<Rightarrow> bytes" where
  "logical b pid = (case page_table b pid of
     Some fid \<Rightarrow> page_bytes (pages b ! unat fid) | None \<Rightarrow> disk_page (disk_manager b) pid)"

definition pool_shape :: "u32 set \<Rightarrow> BufferPoolManager \<Rightarrow> bool" where
  "pool_shape hole b \<longleftrightarrow> length (pages b) = pool_size b \<and> length (frames b) = pool_size b \<and>
     distinct (free_list b) \<and> set (free_list b) \<inter> hole = {} \<and>
     (\<forall>f \<in> set (free_list b). unat f < pool_size b \<and> fm_page_id (frames b ! unat f) = INVALID_PAGE_ID) \<and>
     (\<forall>f \<in> occupied b hole. page_table b (fm_page_id (frames b ! unat f)) = Some f) \<and>
     (\<forall>pid f. page_table b pid = Some f \<longrightarrow> unat f < pool_size b \<and> f \<notin> set (free_list b) \<and>
        fm_page_id (frames b ! unat f) = pid)"

text \<open>The replacer tracks exactly the occupied frames and may evict the unpinned ones.\<close>

definition pool_replacer :: "u32 set \<Rightarrow> BufferPoolManager \<Rightarrow> bool" where
  "pool_replacer hole b \<longleftrightarrow> dom (entries (replacer b)) = occupied b hole \<and>
     lru.pinned_inv (replacer b) (pins b) \<and> (\<forall>m \<in> set (frames b). 0 \<le> fm_pin_count m)"

text \<open>Page ids are allocated ones, and an unpinned clean page is the same on disk.\<close>

definition pool_disk :: "BufferPoolManager \<Rightarrow> bool" where
  "pool_disk b \<longleftrightarrow> disk_ok (disk_manager b) \<and> unat (next_page_id (disk_manager b)) \<le> 2 ^ 51 \<and>
     (\<forall>pid f. page_table b pid = Some f \<longrightarrow> unat pid < unat (next_page_id (disk_manager b)) \<and>
        (pins b f = 0 \<longrightarrow> \<not> fm_dirty (frames b ! unat f) \<longrightarrow>
           page_bytes (pages b ! unat f) = disk_page (disk_manager b) pid))"

definition pool_inv :: "u32 set \<Rightarrow> BufferPoolManager \<Rightarrow> bool" where
  "pool_inv hole b \<longleftrightarrow> pool_shape hole b \<and> pool_replacer hole b \<and> pool_disk b"

lemma upd_frame_other [simp]: "f \<noteq> g \<Longrightarrow> xs[unat (f :: u32) := v] ! unat g = xs ! unat g"
  by (simp add: word_unat_eq_iff)

lemma pool_shapeD:
  assumes "pool_shape hole b"
  shows "length (pages b) = pool_size b" "length (frames b) = pool_size b" "distinct (free_list b)"
    "set (free_list b) \<inter> hole = {}"
    "f \<in> set (free_list b) \<Longrightarrow> unat f < pool_size b"
    "f \<in> set (free_list b) \<Longrightarrow> fm_page_id (frames b ! unat f) = INVALID_PAGE_ID"
    "f \<in> occupied b hole \<Longrightarrow> page_table b (fm_page_id (frames b ! unat f)) = Some f"
    "page_table b pid = Some f \<Longrightarrow> unat f < pool_size b"
    "page_table b pid = Some f \<Longrightarrow> f \<notin> set (free_list b)"
    "page_table b pid = Some f \<Longrightarrow> fm_page_id (frames b ! unat f) = pid"
  using assms unfolding pool_shape_def by blast+

lemma pool_shapeI:
  assumes "length (pages b) = pool_size b" "length (frames b) = pool_size b" "distinct (free_list b)"
    "set (free_list b) \<inter> hole = {}"
    "\<And>f. f \<in> set (free_list b) \<Longrightarrow> unat f < pool_size b \<and> fm_page_id (frames b ! unat f) = INVALID_PAGE_ID"
    "\<And>f. f \<in> occupied b hole \<Longrightarrow> page_table b (fm_page_id (frames b ! unat f)) = Some f"
    "\<And>pid f. page_table b pid = Some f \<Longrightarrow> unat f < pool_size b \<and> f \<notin> set (free_list b) \<and>
       fm_page_id (frames b ! unat f) = pid"
  shows "pool_shape hole b"
  using assms unfolding pool_shape_def by blast

lemma pool_replacerD:
  assumes "pool_replacer hole b"
  shows "dom (entries (replacer b)) = occupied b hole" "lru.pinned_inv (replacer b) (pins b)"
    "m \<in> set (frames b) \<Longrightarrow> 0 \<le> fm_pin_count m"
  using assms unfolding pool_replacer_def by blast+

lemma pool_diskD:
  assumes "pool_disk b"
  shows "disk_ok (disk_manager b)" "unat (next_page_id (disk_manager b)) \<le> 2 ^ 51"
    "page_table b pid = Some f \<Longrightarrow> unat pid < unat (next_page_id (disk_manager b))"
    "page_table b pid = Some f \<Longrightarrow> pins b f = 0 \<Longrightarrow> \<not> fm_dirty (frames b ! unat f) \<Longrightarrow>
       page_bytes (pages b ! unat f) = disk_page (disk_manager b) pid"
  using assms unfolding pool_disk_def by blast+

lemma pool_diskI:
  assumes "disk_ok (disk_manager b)" "unat (next_page_id (disk_manager b)) \<le> 2 ^ 51"
    "\<And>pid f. page_table b pid = Some f \<Longrightarrow> unat pid < unat (next_page_id (disk_manager b))"
    "\<And>pid f. page_table b pid = Some f \<Longrightarrow> pins b f = 0 \<Longrightarrow> \<not> fm_dirty (frames b ! unat f) \<Longrightarrow>
       page_bytes (pages b ! unat f) = disk_page (disk_manager b) pid"
  shows "pool_disk b"
  using assms unfolding pool_disk_def by blast

lemma pool_invD:
  assumes "pool_inv hole b"
  shows "pool_shape hole b" "pool_replacer hole b" "pool_disk b"
  using assms by (simp_all add: pool_inv_def)

lemma valid_resident: "pool_disk b \<Longrightarrow> page_table b pid = Some f \<Longrightarrow> valid_page pid"
  using pool_diskD(2,3) [of b] by (fastforce simp: valid_page_def)

lemma resident_not_invalid: "pool_disk b \<Longrightarrow> page_table b pid = Some f \<Longrightarrow> pid \<noteq> INVALID_PAGE_ID"
  using valid_resident [of b pid f] by (auto simp: valid_page_def INVALID_PAGE_ID_def)

lemma resident_unique:
  "pool_shape hole b \<Longrightarrow> page_table b p = Some f \<Longrightarrow> page_table b q = Some f \<Longrightarrow> p = q"
  using pool_shapeD(10) by blast

text \<open>A frame just obtained from \<open>find_available_frame\<close>: unpinned, and its old page is still registered.\<close>

definition available :: "u32 \<Rightarrow> BufferPoolManager \<Rightarrow> bool" where
  "available fid b \<longleftrightarrow> unat fid < pool_size b \<and> fid \<notin> set (free_list b) \<and>
     (fm_page_id (frames b ! unat fid) = INVALID_PAGE_ID \<or>
      page_table b (fm_page_id (frames b ! unat fid)) = Some fid \<and> pins b fid = 0)"

definition same_pages :: "BufferPoolManager \<Rightarrow> BufferPoolManager \<Rightarrow> bool" where
  "same_pages b b' \<longleftrightarrow> pool_size b' = pool_size b \<and> disk_manager b' = disk_manager b \<and> pages b' = pages b \<and>
     frames b' = frames b \<and> page_table b' = page_table b"

lemma same_pages_logical: "same_pages b b' \<Longrightarrow> logical b' = logical b"
  by (rule ext) (simp add: same_pages_def logical_def split: option.split)

lemma find_available_some:
  assumes inv: "pool_inv {} b" and f: "find_available_frame order b = (Some fid, b1)"
  shows "pool_inv {fid} b1" "available fid b1" "same_pages b b1"
proof -
  note S = pool_invD(1) [OF inv] and R = pool_invD(2) [OF inv] and D = pool_invD(3) [OF inv]
  have "pool_inv {fid} b1 \<and> available fid b1 \<and> same_pages b b1"
  proof (cases "free_list b")
    case (Cons g rest)
    then have b1: "b1 = b\<lparr>free_list := rest\<rparr>" "g = fid" using f by (auto simp: find_available_frame_def)
    have occ: "occupied b1 {fid} = occupied b {}" using Cons b1 by (auto simp: occupied_def)
    have "pool_shape {fid} b1"
      using pool_shapeD [OF S] Cons b1(2) occ
      by (intro pool_shapeI) (auto simp: b1(1))
    moreover have "pool_replacer {fid} b1"
      using R occ by (simp add: pool_replacer_def b1(1) pins_def [abs_def])
    moreover have "pool_disk b1" using D by (simp add: pool_disk_def b1(1) pins_def)
    moreover have "available fid b1"
      using pool_shapeD(3) [OF S] pool_shapeD(5,6) [OF S, of fid] Cons b1(2) by (simp add: available_def b1(1))
    ultimately show ?thesis by (simp add: pool_inv_def same_pages_def b1(1))
  next
    case Nil
    then obtain r where v: "victim order (replacer b) = (Some fid, r)" and b1: "b1 = b\<lparr>replacer := r\<rparr>"
      using f by (auto simp: find_available_frame_def split: prod.splits)
    have pi: "pins b1 = pins b" by (simp add: b1 pins_def fun_eq_iff)
    note E = lru.evict_unpinned [OF pool_replacerD(2) [OF R] v]
    have fid: "fid \<in> occupied b {}" using E pool_replacerD(1) [OF R] by simp
    have occ: "occupied b1 {fid} = occupied b {} - {fid}" by (auto simp: occupied_def b1)
    have "pool_shape {fid} b1"
      using pool_shapeD [OF S] occ Nil by (intro pool_shapeI) (auto simp: b1)
    moreover have "pool_replacer {fid} b1"
      using R E occ pi by (simp add: pool_replacer_def b1)
    moreover have "pool_disk b1" using D by (simp add: pool_disk_def b1 pins_def)
    moreover have "available fid b1"
      using fid pool_shapeD(7) [OF S fid] E pi by (simp add: available_def b1 occupied_def)
    ultimately show ?thesis by (simp add: pool_inv_def same_pages_def b1)
  qed
  then show "pool_inv {fid} b1" "available fid b1" "same_pages b b1" by auto
qed

lemma find_available_none:
  assumes inv: "pool_inv {} b" and f: "find_available_frame order b = (None, b1)"
  shows "b1 = b" "set order = dom (entries (replacer b)) \<Longrightarrow> unat g < pool_size b \<Longrightarrow> 0 < pins b (g :: u32)"
proof -
  note R = pool_invD(2) [OF inv]
  obtain r where e: "free_list b = []" "victim order (replacer b) = (None, r)" "b1 = b\<lparr>replacer := r\<rparr>"
    using f by (auto simp: find_available_frame_def split: list.splits prod.splits)
  note N = lru.evict_none [OF pool_replacerD(2) [OF R] e(2)]
  show "b1 = b" using N e(3) by simp
  show "0 < pins b g" if "set order = dom (entries (replacer b))" "unat g < pool_size b"
    using N that pool_replacerD(1) [OF R] e(1) by (auto simp: occupied_def)
qed

text \<open>Writing back and unregistering the page of an available frame.\<close>

lemma evict_frame_correct:
  assumes inv: "pool_inv {fid} b" and av: "available fid b"
  obtains b2 where "evict_frame fid b = Inr b2" "pool_inv {fid} b2" "\<And>pid. page_table b2 pid \<noteq> Some fid"
    "logical b2 = logical b" "next_page_id (disk_manager b2) = next_page_id (disk_manager b)"
    "\<And>pid g. g \<noteq> fid \<Longrightarrow> page_table b2 pid = Some g \<longleftrightarrow> page_table b pid = Some g"
    "pool_size b2 = pool_size b" "pages b2 = pages b" "\<And>g. g \<noteq> fid \<Longrightarrow> frames b2 ! unat g = frames b ! unat g"
    "free_list b2 = free_list b" "replacer b2 = replacer b"
proof -
  note S = pool_invD(1) [OF inv] and R = pool_invD(2) [OF inv] and D = pool_invD(3) [OF inv]
  let ?m = "frames b ! unat fid"
  have fid: "unat fid < pool_size b" using av by (simp add: available_def)
  show ?thesis
  proof (cases "fm_page_id ?m = INVALID_PAGE_ID")
    case True
    then have "page_table b pid \<noteq> Some fid" for pid
      using pool_shapeD(10) [OF S, of pid fid] resident_not_invalid [OF D, of pid fid] by auto
    moreover have "evict_frame fid b = Inr b" using True by (simp add: evict_frame_def Let_def)
    ultimately show ?thesis using that [of b] inv by simp
  next
    case False
    let ?old = "fm_page_id ?m"
    have old: "page_table b ?old = Some fid" "pins b fid = 0" using av False by (auto simp: available_def)
    obtain d where d: "disk_ok d" "next_page_id d = next_page_id (disk_manager b)"
      "disk_page d = (disk_page (disk_manager b))(?old := page_bytes (pages b ! unat fid))"
      and ev: "evict_frame fid b = Inr (b\<lparr>disk_manager := d, frames := (frames b)[unat fid := ?m\<lparr>fm_dirty := False\<rparr>],
        page_table := (page_table b)(?old := None)\<rparr>)"
    proof (cases "fm_dirty ?m")
      case True
      obtain d where "write_page ?old (page_bytes (pages b ! unat fid)) (disk_manager b) = Inr d" "disk_ok d"
        "next_page_id d = next_page_id (disk_manager b)"
        "disk_page d = (disk_page (disk_manager b))(?old := page_bytes (pages b ! unat fid))"
        using write_page_correct [OF pool_diskD(1) [OF D] valid_resident [OF D old(1)], of "page_bytes (pages b ! unat fid)"] by auto
      then show ?thesis using that [of d] True \<open>?old \<noteq> INVALID_PAGE_ID\<close> by (simp add: evict_frame_def Let_def)
    next
      case clean: False
      have same: "page_bytes (pages b ! unat fid) = disk_page (disk_manager b) ?old"
        using pool_diskD(4) [OF D old clean] .
      have "?m\<lparr>fm_dirty := False\<rparr> = ?m" using clean by simp
      then have "(frames b)[unat fid := ?m\<lparr>fm_dirty := False\<rparr>] = frames b" by (metis list_update_id)
      then have "evict_frame fid b = Inr (b\<lparr>disk_manager := disk_manager b,
          frames := (frames b)[unat fid := ?m\<lparr>fm_dirty := False\<rparr>], page_table := (page_table b)(?old := None)\<rparr>)"
        using clean \<open>?old \<noteq> INVALID_PAGE_ID\<close> by (simp add: evict_frame_def Let_def)
      then show ?thesis
        using that [of "disk_manager b"] pool_diskD(1) [OF D] same by (simp add: fun_upd_idem)
    qed
    let ?b2 = "b\<lparr>disk_manager := d, frames := (frames b)[unat fid := ?m\<lparr>fm_dirty := False\<rparr>],
        page_table := (page_table b)(?old := None)\<rparr>"
    have len: "unat fid < length (frames b)" using fid pool_shapeD(2) [OF S] by simp
    have oth: "page_table ?b2 pid = Some g \<longleftrightarrow> page_table b pid = Some g" if "g \<noteq> fid" for pid g
      using that old(1) by auto
    have nf: "page_table ?b2 pid \<noteq> Some fid" for pid
      using resident_unique [OF S old(1), of pid] by auto
    have gf: "g \<noteq> fid" if "page_table ?b2 pid = Some g" for pid g using nf that by blast
    have pi: "pins ?b2 = pins b"
    proof
      fix g show "pins ?b2 g = pins b g" using len by (cases "g = fid") (simp_all add: pins_def)
    qed
    have occ: "occupied ?b2 {fid} = occupied b {fid}" by (simp add: occupied_def)
    have "pool_shape {fid} ?b2"
    proof (rule pool_shapeI)
      fix f assume f: "f \<in> occupied ?b2 {fid}"
      then have "f \<noteq> fid" by (simp add: occupied_def)
      then show "page_table ?b2 (fm_page_id (frames ?b2 ! unat f)) = Some f"
        using oth pool_shapeD(7) [OF S f [unfolded occ]] by simp
    next
      fix f assume "f \<in> set (free_list ?b2)"
      moreover have "f \<noteq> fid" using calculation av by (auto simp: available_def)
      ultimately show "unat f < pool_size ?b2 \<and> fm_page_id (frames ?b2 ! unat f) = INVALID_PAGE_ID"
        using pool_shapeD(5,6) [OF S, of f] by simp
    next
      fix pid f assume a: "page_table ?b2 pid = Some f"
      then have "page_table b pid = Some f" using gf oth by blast
      then show "unat f < pool_size ?b2 \<and> f \<notin> set (free_list ?b2) \<and> fm_page_id (frames ?b2 ! unat f) = pid"
        using pool_shapeD(8-10) [OF S, of pid f] gf [OF a] by simp
    qed (use pool_shapeD(1-4) [OF S] in simp_all)
    moreover have "pool_replacer {fid} ?b2"
      unfolding pool_replacer_def occ pi
      using pool_replacerD [OF R] len
      by (auto dest!: set_update_subset_insert [THEN subsetD])
    moreover have "pool_disk ?b2"
    proof (rule pool_diskI)
      fix pid f assume a: "page_table ?b2 pid = Some f"
      then have t: "page_table b pid = Some f" "f \<noteq> fid" "pid \<noteq> ?old" using gf oth by auto
      show "unat pid < unat (next_page_id (disk_manager ?b2))" using pool_diskD(3) [OF D t(1)] d(2) by simp
      show "page_bytes (pages ?b2 ! unat f) = disk_page (disk_manager ?b2) pid"
        if "pins ?b2 f = 0" "\<not> fm_dirty (frames ?b2 ! unat f)"
        using pool_diskD(4) [OF D t(1)] that t d(3) unfolding pi by simp
    qed (use d pool_diskD(2) [OF D] in simp_all)
    moreover have "logical ?b2 = logical b"
      using old(1) d(3) by (auto simp: logical_def fun_eq_iff split: option.splits)
    ultimately show ?thesis
      using that [OF ev] nf oth d(2) by (simp add: pool_inv_def)
  qed
qed

lemma pins_upd_frame:
  assumes "unat fid < length (frames b)" "frames b' = (frames b)[unat fid := m]"
  shows "pins b' = (pins b)(fid := nat (fm_pin_count m))"
proof
  fix g show "pins b' g = ((pins b)(fid := nat (fm_pin_count m))) g"
    using assms by (cases "g = fid") (simp_all add: pins_def)
qed

lemma install_page_correct:
  assumes inv: "pool_inv {fid} b" and av: "unat fid < pool_size b" "fid \<notin> set (free_list b)"
    and nf: "\<And>q. page_table b q \<noteq> Some fid"
    and pid: "page_table b pid = None" "unat pid < unat (next_page_id (disk_manager b))"
    and b'_def: "b' = install_page fid pid page b"
  shows "pool_inv {} b'" "logical b' = (logical b)(pid := page_bytes page)"
proof -
  note S = pool_invD(1) [OF inv] and R = pool_invD(2) [OF inv] and D = pool_invD(3) [OF inv]
  let ?m = "\<lparr>fm_page_id = pid, fm_pin_count = 1, fm_dirty = False\<rparr>"
  have b': "pool_size b' = pool_size b" "disk_manager b' = disk_manager b" "free_list b' = free_list b"
    "pages b' = (pages b)[unat fid := page]" "frames b' = (frames b)[unat fid := ?m]"
    "page_table b' = (page_table b)(pid \<mapsto> fid)" "replacer b' = set_evictable fid False (record_access fid (replacer b))"
    by (simp_all add: b'_def install_page_def)
  have len: "unat fid < length (frames b)" "unat fid < length (pages b)" using av(1) pool_shapeD(1,2) [OF S] by simp_all
  have occ: "occupied b' {} = insert fid (occupied b {fid})" using av by (auto simp: occupied_def b')
  have pi: "pins b' = (pins b)(fid := 1)" using pins_upd_frame [OF len(1) b'(5)] by simp
  have t: "page_table b' q = Some g \<longleftrightarrow> (q = pid \<and> g = fid) \<or> (g \<noteq> fid \<and> page_table b q = Some g)" for q g
    using nf [of q] pid(1) by (auto simp: b'(6))
  have "pool_shape {} b'"
  proof (rule pool_shapeI)
    fix f assume f: "f \<in> set (free_list b')"
    then have "f \<noteq> fid" using av(2) b'(3) by auto
    then show "unat f < pool_size b' \<and> fm_page_id (frames b' ! unat f) = INVALID_PAGE_ID"
      using pool_shapeD(5,6) [OF S, of f] f by (simp add: b')
  next
    fix f assume f: "f \<in> occupied b' {}"
    show "page_table b' (fm_page_id (frames b' ! unat f)) = Some f"
    proof (cases "f = fid")
      case True
      then show ?thesis using len by (simp add: b'(5,6))
    next
      case False
      then have "f \<in> occupied b {fid}" using f occ by simp
      then show ?thesis using pool_shapeD(7) [OF S] t False by (simp add: b'(5))
    qed
  next
    fix q f assume "page_table b' q = Some f"
    then show "unat f < pool_size b' \<and> f \<notin> set (free_list b') \<and> fm_page_id (frames b' ! unat f) = q"
      using t [of q f] pool_shapeD(8-10) [OF S, of q f] len av by (cases "f = fid") (auto simp: b'(1,3,5))
  qed (use pool_shapeD(1-4) [OF S] in \<open>simp_all add: b'\<close>)
  moreover have "pool_replacer {} b'"
  proof -
    have "dom (entries (replacer b')) = occupied b' {}"
      using lru.pin(2) [OF pool_replacerD(2) [OF R], of 1 fid] pool_replacerD(1) [OF R] by (simp add: b'(7) occ)
    moreover have "lru.pinned_inv (replacer b') (pins b')"
      using lru.pin(1) [OF pool_replacerD(2) [OF R], of 1 fid] by (simp add: b'(7) pi)
    moreover have "\<forall>m \<in> set (frames b'). 0 \<le> fm_pin_count m"
      using pool_replacerD(3) [OF R] by (auto simp: b'(5) dest!: set_update_subset_insert [THEN subsetD])
    ultimately show ?thesis by (simp add: pool_replacer_def)
  qed
  moreover have "pool_disk b'"
  proof (rule pool_diskI)
    fix q f assume a: "page_table b' q = Some f"
    show "unat q < unat (next_page_id (disk_manager b'))"
      using a t [of q f] pid(2) pool_diskD(3) [OF D, of q f] by (auto simp: b'(2))
    show "page_bytes (pages b' ! unat f) = disk_page (disk_manager b') q"
      if "pins b' f = 0" "\<not> fm_dirty (frames b' ! unat f)"
    proof -
      have "f \<noteq> fid" using that(1) pi by auto
      then show ?thesis using a t [of q f] pool_diskD(4) [OF D, of q f] that by (simp add: b'(2,4,5) pi)
    qed
  qed (use pool_diskD(1,2) [OF D] in \<open>simp_all add: b'\<close>)
  ultimately show "pool_inv {} b'" by (simp add: pool_inv_def)
  show "logical b' = (logical b)(pid := page_bytes page)"
  proof
    fix q
    show "logical b' q = ((logical b)(pid := page_bytes page)) q"
    proof (cases "page_table b q")
      case None
      then show ?thesis using len by (simp add: logical_def b')
    next
      case (Some g)
      then show ?thesis using nf [of q] pid(1) by (auto simp: logical_def b')
    qed
  qed
qed

subsection \<open>The operations\<close>

text \<open>A pinned page keeps its frame and its contents.\<close>

definition keeps_pinned :: "BufferPoolManager \<Rightarrow> BufferPoolManager \<Rightarrow> bool" where
  "keeps_pinned b b' \<longleftrightarrow> (\<forall>q g. page_table b q = Some g \<longrightarrow> 0 < pins b g \<longrightarrow>
     page_table b' q = Some g \<and> pages b' ! unat g = pages b ! unat g)"

definition fresh_page :: "u64 \<Rightarrow> bytes" where
  "fresh_page pid = page_bytes (page_init pid (\<lambda>_. 0))"

lemma mem_write_agree: "(\<And>a. a < n \<Longrightarrow> p a = q a) \<Longrightarrow> a < n \<Longrightarrow> mem_write p x bs a = mem_write q x bs a"
  by (simp add: mem_write_def)

lemma page_init_bytes: "page_bytes (page_init pid p) = fresh_page pid"
proof -
  let ?z = "replicate PAGE_SIZE 0 :: bytes"
  have 0: "mem_write p 0 ?z a = mem_write (\<lambda>_. 0) 0 ?z a" if "a < PAGE_SIZE" for a
    using that by (simp add: mem_write_def)
  have "page_init pid p a = page_init pid (\<lambda>_. 0) a" if "a < PAGE_SIZE" for a
    unfolding page_init_def Let_def set_lsn_def set_slot_count_def set_free_space_ptr_def wr64_def wr16_def
    by (rule mem_write_agree [where n = PAGE_SIZE], rule mem_write_agree [where n = PAGE_SIZE],
        rule mem_write_agree [where n = PAGE_SIZE], rule mem_write_agree [where n = PAGE_SIZE],
        rule mem_write_agree [where n = PAGE_SIZE]) (use that 0 in auto)
  then show ?thesis unfolding fresh_page_def by (intro mem_read_cong) simp
qed

lemma refill_frame:
  assumes inv: "pool_inv {fid} b" and av: "available fid b"
    and pid: "page_table b pid = None" "unat pid < unat (next_page_id (disk_manager b))"
  obtains b2 where "evict_frame fid b = Inr b2" "logical b2 = logical b"
    "next_page_id (disk_manager b2) = next_page_id (disk_manager b)" "pages b2 = pages b" "pool_size b2 = pool_size b"
    "disk_ok (disk_manager b2)" "length (pages b2) = pool_size b2" "page_table b2 pid = None"
    "\<And>page. pool_inv {} (install_page fid pid page b2)"
    "\<And>page. logical (install_page fid pid page b2) = (logical b)(pid := page_bytes page)"
    "\<And>page. keeps_pinned b (install_page fid pid page b2)"
proof (rule evict_frame_correct [OF inv av])
  fix b2
  assume E: "evict_frame fid b = Inr b2" "pool_inv {fid} b2" "\<And>pid. page_table b2 pid \<noteq> Some fid"
    "logical b2 = logical b" "next_page_id (disk_manager b2) = next_page_id (disk_manager b)"
    "\<And>pid g. g \<noteq> fid \<Longrightarrow> page_table b2 pid = Some g \<longleftrightarrow> page_table b pid = Some g"
    "pool_size b2 = pool_size b" "pages b2 = pages b" "\<And>g. g \<noteq> fid \<Longrightarrow> frames b2 ! unat g = frames b ! unat g"
    "free_list b2 = free_list b" "replacer b2 = replacer b"
  have f: "unat fid < pool_size b2" "fid \<notin> set (free_list b2)" using av E(7,10) by (simp_all add: available_def)
  have none: "page_table b2 pid = None" using E(3,6) pid(1) by (metis not_Some_eq)
  note I = install_page_correct [OF E(2) f E(3) none pid(2) [folded E(5)] refl]
  have kp: "keeps_pinned b (install_page fid pid page b2)" for page
    unfolding keeps_pinned_def
  proof (intro allI impI)
    fix q g assume g: "page_table b q = Some g" "0 < pins b g"
    have "g \<noteq> fid"
    proof
      assume "g = fid"
      moreover have "q \<noteq> INVALID_PAGE_ID" using resident_not_invalid [OF pool_invD(3) [OF inv] g(1)] .
      ultimately show False using av g pool_shapeD(10) [OF pool_invD(1) [OF inv] g(1)] by (auto simp: available_def)
    qed
    moreover have "q \<noteq> pid" using g(1) pid(1) by auto
    ultimately show "page_table (install_page fid pid page b2) q = Some g \<and>
        pages (install_page fid pid page b2) ! unat g = pages b ! unat g"
      using E(6,8) g(1) by (simp add: install_page_def)
  qed
  show ?thesis
    using that [OF E(1,4,5,8,7) _ _ none I(1) I(2) [unfolded E(4)] kp]
      pool_diskD(1) [OF pool_invD(3) [OF E(2)]] pool_shapeD(1) [OF pool_invD(1) [OF E(2)]] by blast
qed

lemma bump_inv:
  assumes inv: "pool_inv hole b" and n: "unat (next_page_id (disk_manager b)) < 2 ^ 51"
    and b': "b' = b\<lparr>disk_manager := (disk_manager b)\<lparr>next_page_id := next_page_id (disk_manager b) + 1\<rparr>\<rparr>"
  shows "pool_inv hole b'" "logical b' = logical b" "pins b' = pins b"
    "unat (next_page_id (disk_manager b')) = Suc (unat (next_page_id (disk_manager b)))"
proof -
  have s: "unat (next_page_id (disk_manager b) + 1) = Suc (unat (next_page_id (disk_manager b)))"
    using n by (intro unat_Suc_u64) simp
  have dp: "disk_page (disk_manager b') = disk_page (disk_manager b)" by (simp add: b' disk_page_def fun_eq_iff)
  show "logical b' = logical b" by (rule ext) (simp add: logical_def b' disk_page_def split: option.split)
  show p: "pins b' = pins b" by (simp add: b' pins_def fun_eq_iff)
  show "unat (next_page_id (disk_manager b')) = Suc (unat (next_page_id (disk_manager b)))" using s by (simp add: b')
  have occ: "occupied b' hole = occupied b hole" by (simp add: occupied_def b')
  have "pool_shape hole b'" using pool_invD(1) [OF inv] by (simp add: pool_shape_def b' occupied_def)
  moreover have "pool_replacer hole b'" using pool_invD(2) [OF inv] p occ by (simp add: pool_replacer_def b')
  moreover have "pool_disk b'"
  proof (rule pool_diskI)
    fix q f assume "page_table b' q = Some f"
    then have q: "page_table b q = Some f" by (simp add: b')
    show "unat q < unat (next_page_id (disk_manager b'))" using pool_diskD(3) [OF pool_invD(3) [OF inv] q] s by (simp add: b')
    show "page_bytes (pages b' ! unat f) = disk_page (disk_manager b') q"
      if "pins b' f = 0" "\<not> fm_dirty (frames b' ! unat f)"
      using pool_diskD(4) [OF pool_invD(3) [OF inv] q] that unfolding dp p by (simp add: b')
  qed (use pool_diskD(1) [OF pool_invD(3) [OF inv]] s n in \<open>simp_all add: b' disk_ok_def\<close>)
  ultimately show "pool_inv hole b'" by (simp add: pool_inv_def)
qed

lemma same_pages_pins: "same_pages b b1 \<Longrightarrow> pins b1 = pins b"
  by (simp add: same_pages_def pins_def fun_eq_iff)

lemma keeps_pinned_same: "same_pages b b1 \<Longrightarrow> keeps_pinned b1 b' \<Longrightarrow> keeps_pinned b b'"
  using same_pages_pins [of b b1] by (simp add: keeps_pinned_def same_pages_def)

lemma new_page_correct:
  assumes inv: "pool_inv {} b" and n: "unat (next_page_id (disk_manager b)) < 2 ^ 51"
  shows "case new_page order b of
      Inl e \<Rightarrow> False
    | Inr (None, b') \<Rightarrow> b' = b \<and> (set order = dom (entries (replacer b)) \<longrightarrow> (\<forall>g :: u32. unat g < pool_size b \<longrightarrow> 0 < pins b g))
    | Inr (Some (pid, fid), b') \<Rightarrow> pool_inv {} b' \<and> pid = next_page_id (disk_manager b) \<and>
        logical b' = (logical b)(pid := fresh_page pid) \<and> page_table b' pid = Some fid \<and> keeps_pinned b b' \<and>
        unat (next_page_id (disk_manager b')) = Suc (unat pid)"
proof (cases "find_available_frame order b")
  case (Pair out b1)
  show ?thesis
  proof (cases out)
    case None
    then show ?thesis using find_available_none [OF inv] Pair by (simp add: new_page_def)
  next
    case (Some fid)
    note F = find_available_some [OF inv Pair [unfolded Some]]
    let ?pid = "next_page_id (disk_manager b)"
    have dm: "disk_manager b1 = disk_manager b" using F(3) by (simp add: same_pages_def)
    let ?b = "b1\<lparr>disk_manager := (disk_manager b1)\<lparr>next_page_id := next_page_id (disk_manager b1) + 1\<rparr>\<rparr>"
    note B = bump_inv [OF F(1) n [folded dm] refl]
    have av: "available fid ?b" using F(2) B(3) by (simp add: available_def)
    have none: "page_table ?b ?pid = None"
    proof (rule ccontr)
      assume "page_table ?b ?pid \<noteq> None"
      then obtain g where "page_table b1 ?pid = Some g" by auto
      then show False using pool_diskD(3) [OF pool_invD(3) [OF F(1)]] dm by fastforce
    qed
    have lt: "unat ?pid < unat (next_page_id (disk_manager ?b))" using B(4) dm by simp
    have kp: "keeps_pinned b b'" if "keeps_pinned ?b b'" for b'
      using that B(3) keeps_pinned_same [OF F(3), of b'] by (simp add: keeps_pinned_def)
    show ?thesis
    proof (rule refill_frame [OF B(1) av none lt])
      fix b2
      assume "evict_frame fid ?b = Inr b2" "\<And>page. pool_inv {} (install_page fid ?pid page b2)"
        "\<And>page. logical (install_page fid ?pid page b2) = (logical ?b)(?pid := page_bytes page)"
        "\<And>page. keeps_pinned ?b (install_page fid ?pid page b2)"
        "next_page_id (disk_manager b2) = next_page_id (disk_manager ?b)"
      then show ?thesis
        using Pair Some B(2,4) same_pages_logical [OF F(3)] kp dm page_init_bytes [of ?pid]
        by (simp add: new_page_def allocate_page_def) (simp add: install_page_def)
    qed
  qed
qed

text \<open>
  Changing the pin count, the dirty flag or the contents of a resident page: the structure of the
  pool stays as it is.
\<close>

definition touches :: "u32 \<Rightarrow> FrameMeta \<Rightarrow> BufferPoolManager \<Rightarrow> BufferPoolManager \<Rightarrow> bool" where
  "touches fid m b b' \<longleftrightarrow> pool_size b' = pool_size b \<and> free_list b' = free_list b \<and> page_table b' = page_table b \<and>
     frames b' = (frames b)[unat fid := m] \<and> fm_page_id m = fm_page_id (frames b ! unat fid) \<and> 0 \<le> fm_pin_count m \<and>
     length (pages b') = length (pages b)"

lemma touches_frames:
  assumes "touches fid m b b'" "unat fid < length (frames b)"
  shows "frames b' ! unat g = (if g = fid then m else frames b ! unat g)"
    "pins b' = (pins b)(fid := nat (fm_pin_count m))" "occupied b' h = occupied b h"
    "fm_page_id (frames b' ! unat g) = fm_page_id (frames b ! unat g)"
proof -
  show f: "frames b' ! unat g = (if g = fid then m else frames b ! unat g)" for g
    using assms by (simp add: touches_def)
  show "pins b' = (pins b)(fid := nat (fm_pin_count m))"
    using assms by (intro pins_upd_frame) (simp_all add: touches_def)
  show "occupied b' h = occupied b h" using assms(1) by (simp add: occupied_def touches_def)
  show "fm_page_id (frames b' ! unat g) = fm_page_id (frames b ! unat g)"
    using assms(1) by (simp add: f) (simp add: touches_def)
qed

lemma touches_shape:
  assumes S: "pool_shape {} b" and t: "touches fid m b b'" and len: "unat fid < length (frames b)"
  shows "pool_shape {} b'"
proof (rule pool_shapeI)
  note T = touches_frames [OF t len]
  fix f assume f: "f \<in> occupied b' {}"
  show "page_table b' (fm_page_id (frames b' ! unat f)) = Some f"
    using pool_shapeD(7) [OF S f [unfolded T(3)]] t unfolding T(4) by (simp add: touches_def)
next
  note T = touches_frames [OF t len]
  fix f assume "f \<in> set (free_list b')"
  then show "unat f < pool_size b' \<and> fm_page_id (frames b' ! unat f) = INVALID_PAGE_ID"
    using pool_shapeD(5,6) [OF S, of f] t unfolding T(4) by (simp add: touches_def)
next
  note T = touches_frames [OF t len]
  fix q f assume "page_table b' q = Some f"
  then show "unat f < pool_size b' \<and> f \<notin> set (free_list b') \<and> fm_page_id (frames b' ! unat f) = q"
    using pool_shapeD(8-10) [OF S, of q f] t unfolding T(4) by (simp add: touches_def)
qed (use pool_shapeD(1-4) [OF S] t in \<open>simp_all add: touches_def\<close>)

lemma touches_replacer:
  assumes R: "pool_replacer {} b" and t: "touches fid m b b'" and len: "unat fid < length (frames b)"
    and p: "lru.pinned_inv (replacer b') ((pins b)(fid := nat (fm_pin_count m)))"
    and d: "dom (entries (replacer b')) = dom (entries (replacer b))"
  shows "pool_replacer {} b'"
proof -
  have "\<forall>m \<in> set (frames b'). 0 \<le> fm_pin_count m"
    using pool_replacerD(3) [OF R] t by (auto simp: touches_def dest!: set_update_subset_insert [THEN subsetD])
  then show ?thesis
    using p d pool_replacerD(1) [OF R] touches_frames(2,3) [OF t len] by (simp add: pool_replacer_def)
qed

lemma touches_disk:
  assumes S: "pool_shape {} b" and D: "pool_disk b" and t: "touches fid m b b'" and hit: "page_table b pid = Some fid"
    and d: "disk_ok (disk_manager b')" "next_page_id (disk_manager b') = next_page_id (disk_manager b)"
      "\<And>q. q \<noteq> pid \<Longrightarrow> disk_page (disk_manager b') q = disk_page (disk_manager b) q"
      "\<And>g. g \<noteq> fid \<Longrightarrow> pages b' ! unat g = pages b ! unat g"
    and own: "nat (fm_pin_count m) = 0 \<Longrightarrow> \<not> fm_dirty m \<Longrightarrow>
      page_bytes (pages b' ! unat fid) = disk_page (disk_manager b') pid"
  shows "pool_disk b'"
proof (rule pool_diskI)
  have len: "unat fid < length (frames b)" using pool_shapeD(2,8) [OF S] hit by simp
  note T = touches_frames [OF t len]
  fix q f assume "page_table b' q = Some f"
  then have q: "page_table b q = Some f" using t by (simp add: touches_def)
  show "unat q < unat (next_page_id (disk_manager b'))" using pool_diskD(3) [OF D q] d(2) by simp
  show "page_bytes (pages b' ! unat f) = disk_page (disk_manager b') q"
    if c: "pins b' f = 0" "\<not> fm_dirty (frames b' ! unat f)"
  proof (cases "f = fid")
    case True
    then have "q = pid" using resident_unique [OF S] q hit by blast
    then show ?thesis using c own True by (simp add: T(1,2))
  next
    case False
    then have "q \<noteq> pid" using q hit by auto
    then show ?thesis using False c pool_diskD(4) [OF D q] d(3) d(4) [OF False] by (simp add: T(1,2))
  qed
qed (use pool_diskD(2) [OF D] d in simp_all)

lemma resident_facts:
  assumes inv: "pool_inv {} b" and hit: "page_table b pid = Some fid"
  shows "unat fid < length (frames b)" "unat fid < length (pages b)" "fid \<in> dom (entries (replacer b))"
    "0 \<le> fm_pin_count (frames b ! unat fid)" "valid_page pid"
proof -
  note S = pool_invD(1) [OF inv] and R = pool_invD(2) [OF inv]
  show len: "unat fid < length (frames b)" "unat fid < length (pages b)"
    using pool_shapeD(1,2,8) [OF S] hit by simp_all
  show "fid \<in> dom (entries (replacer b))"
    using pool_shapeD(8,9) [OF S hit] pool_replacerD(1) [OF R] by (simp add: occupied_def)
  show "0 \<le> fm_pin_count (frames b ! unat fid)" using pool_replacerD(3) [OF R] len nth_mem by blast
  show "valid_page pid" using valid_resident [OF pool_invD(3) [OF inv] hit] .
qed

lemma logical_hit: "page_table b pid = Some fid \<Longrightarrow> logical b pid = page_bytes (pages b ! unat fid)"
  by (simp add: logical_def)

text \<open>Taking one more pin on a resident page.\<close>

lemma pin_hit:
  assumes inv: "pool_inv {} b" and hit: "page_table b pid = Some fid"
    and b': "b' = b\<lparr>frames := (frames b)[unat fid := (frames b ! unat fid)\<lparr>fm_pin_count := fm_pin_count (frames b ! unat fid) + 1\<rparr>],
      replacer := set_evictable fid False (record_access fid (replacer b))\<rparr>"
  shows "pool_inv {} b'" "logical b' = logical b" "keeps_pinned b b'"
proof -
  note S = pool_invD(1) [OF inv] and R = pool_invD(2) [OF inv] and D = pool_invD(3) [OF inv]
  note F = resident_facts [OF inv hit]
  let ?m = "(frames b ! unat fid)\<lparr>fm_pin_count := fm_pin_count (frames b ! unat fid) + 1\<rparr>"
  have t: "touches fid ?m b b'" using F(4) by (simp add: touches_def b')
  have rep: "replacer b' = set_evictable fid False (record_access fid (replacer b))" by (simp add: b')
  have pos: "0 < nat (fm_pin_count ?m)" using F(4) by simp
  have "pool_replacer {} b'"
    using touches_replacer [OF R t F(1)] lru.pin [OF pool_replacerD(2) [OF R] pos, of fid]
    unfolding rep insert_absorb [OF F(3)] by blast
  moreover have "pool_disk b'"
    by (rule touches_disk [OF S D t hit]) (use pool_diskD(1) [OF D] pos in \<open>simp_all add: b'\<close>)
  ultimately show "pool_inv {} b'" using touches_shape [OF S t F(1)] by (simp add: pool_inv_def)
  show "logical b' = logical b" by (rule ext) (simp add: logical_def b' split: option.split)
  show "keeps_pinned b b'" by (simp add: keeps_pinned_def b')
qed

lemma fetch_page_correct:
  assumes inv: "pool_inv {} b" and n: "unat pid < unat (next_page_id (disk_manager b))"
  shows "case fetch_page order pid b of
      Inl e \<Rightarrow> False
    | Inr (None, b') \<Rightarrow> b' = b \<and> (set order = dom (entries (replacer b)) \<longrightarrow> (\<forall>g :: u32. unat g < pool_size b \<longrightarrow> 0 < pins b g))
    | Inr (Some fid, b') \<Rightarrow> pool_inv {} b' \<and> logical b' = logical b \<and> page_table b' pid = Some fid \<and>
        page_bytes (pages b' ! unat fid) = logical b pid \<and> keeps_pinned b b' \<and>
        next_page_id (disk_manager b') = next_page_id (disk_manager b)"
proof (cases "page_table b pid")
  case (Some fid)
  let ?b = "b\<lparr>frames := (frames b)[unat fid := (frames b ! unat fid)\<lparr>fm_pin_count := fm_pin_count (frames b ! unat fid) + 1\<rparr>],
      replacer := set_evictable fid False (record_access fid (replacer b))\<rparr>"
  have "fetch_page order pid b = Inr (Some fid, ?b)" using Some by (simp add: fetch_page_def Let_def)
  then show ?thesis using pin_hit [OF inv Some refl] Some by (simp add: logical_hit)
next
  case miss: None
  show ?thesis
  proof (cases "find_available_frame order b")
    case (Pair out b1)
    show ?thesis
    proof (cases out)
      case None
      then show ?thesis using find_available_none [OF inv] Pair miss by (simp add: fetch_page_def)
    next
      case (Some fid)
      note F = find_available_some [OF inv Pair [unfolded Some]]
      have sp: "page_table b1 pid = None" "disk_manager b1 = disk_manager b" using F(3) miss by (simp_all add: same_pages_def)
      show ?thesis
      proof (rule refill_frame [OF F(1,2) sp(1) n [folded sp(2)]])
        fix b2
        assume E: "evict_frame fid b1 = Inr b2" "logical b2 = logical b1" "\<And>page. pool_inv {} (install_page fid pid page b2)"
          "\<And>page. logical (install_page fid pid page b2) = (logical b1)(pid := page_bytes page)"
          "\<And>page. keeps_pinned b1 (install_page fid pid page b2)" "disk_ok (disk_manager b2)"
          "next_page_id (disk_manager b2) = next_page_id (disk_manager b1)" "page_table b2 pid = None"
          "length (pages b2) = pool_size b2" "pool_size b2 = pool_size b1"
        let ?p = "pages b2 ! unat fid"
        let ?p' = "mem_write ?p 0 (read_page pid (page_bytes ?p) (disk_manager b2))"
        have v: "valid_page pid" using n pool_diskD(2) [OF pool_invD(3) [OF inv]] by (simp add: valid_page_def)
        have rd: "read_page pid (page_bytes ?p) (disk_manager b2) = logical b pid"
          using read_page_correct [OF E(6) v] E(2,8) same_pages_logical [OF F(3)]
          by (metis length_mem_read logical_def option.case(1))
        have len: "length (logical b pid) = PAGE_SIZE" by (simp add: logical_def disk_page_def split: option.split)
        have pb: "page_bytes ?p' = logical b pid" using rd len by (simp add: mem_read_write_same)
        have f: "unat fid < length (pages b2)" using F(2) E(9,10) by (simp add: available_def)
        have "fetch_page order pid b = Inr (Some fid, install_page fid pid ?p' b2)"
          using miss Pair Some E(1) by (simp add: fetch_page_def Let_def)
        moreover have "(logical b1)(pid := logical b pid) = logical b" using same_pages_logical [OF F(3)] by simp
        moreover have "next_page_id (disk_manager (install_page fid pid ?p' b2)) = next_page_id (disk_manager b)"
          "page_table (install_page fid pid ?p' b2) pid = Some fid" "pages (install_page fid pid ?p' b2) ! unat fid = ?p'"
          using E(7) sp(2) f by (simp_all add: install_page_def)
        ultimately show ?thesis
          using E(3,4) keeps_pinned_same [OF F(3) E(5)] pb by simp
      qed
    qed
  qed
qed

text \<open>
  What a client owes the pool when it drops the last pin without the dirty flag: the page must be
  as on disk, or already marked dirty.
\<close>

definition honest_unpin :: "u64 \<Rightarrow> bool \<Rightarrow> BufferPoolManager \<Rightarrow> bool" where
  "honest_unpin pid is_dirty b \<longleftrightarrow> (case page_table b pid of
     None \<Rightarrow> True
   | Some fid \<Rightarrow> is_dirty \<or> fm_dirty (frames b ! unat fid) \<or> 1 < pins b fid \<or>
       page_bytes (pages b ! unat fid) = disk_page (disk_manager b) pid)"

lemma unpin_page_correct:
  assumes inv: "pool_inv {} b" and h: "honest_unpin pid is_dirty b" and u: "unpin_page pid is_dirty b = (ok, b')"
  shows "pool_inv {} b'" "logical b' = logical b" "disk_manager b' = disk_manager b"
    "ok \<longleftrightarrow> (\<exists>fid. page_table b pid = Some fid \<and> 0 < pins b fid)"
proof -
  note S = pool_invD(1) [OF inv] and R = pool_invD(2) [OF inv] and D = pool_invD(3) [OF inv]
  have "pool_inv {} b' \<and> logical b' = logical b \<and> disk_manager b' = disk_manager b \<and>
    (ok \<longleftrightarrow> (\<exists>fid. page_table b pid = Some fid \<and> 0 < pins b fid))"
  proof (cases "\<exists>fid. page_table b pid = Some fid \<and> 0 < pins b fid")
    case False
    then have "unpin_page pid is_dirty b = (False, b)"
      by (auto simp: unpin_page_def pins_def Let_def split: option.split)
    then show ?thesis using u inv False by auto
  next
    case True
    then obtain fid where hit: "page_table b pid = Some fid" and pos: "0 < pins b fid" by blast
    note F = resident_facts [OF inv hit]
    let ?o = "frames b ! unat fid"
    let ?m = "?o\<lparr>fm_dirty := (if is_dirty then True else fm_dirty ?o), fm_pin_count := fm_pin_count ?o - 1\<rparr>"
    have pc: "fm_pin_count ?o = int (pins b fid)" using F(4) by (simp add: pins_def)
    have b': "ok" "b' = (if fm_pin_count ?m = 0
        then b\<lparr>frames := (frames b)[unat fid := ?m], replacer := set_evictable fid True (replacer b)\<rparr>
        else b\<lparr>frames := (frames b)[unat fid := ?m]\<rparr>)"
      using u hit pos pc by (auto simp: unpin_page_def Let_def)
    have t: "touches fid ?m b b'" using pos pc by (auto simp: touches_def b'(2))
    have rep: "replacer b' = (if fm_pin_count ?m = 0 then set_evictable fid True (replacer b) else replacer b)"
      by (simp add: b'(2))
    have "pool_replacer {} b'"
    proof (rule touches_replacer [OF R t F(1)])
      show "lru.pinned_inv (replacer b') ((pins b)(fid := nat (fm_pin_count ?m)))"
        using lru.unpin_last(1) [OF pool_replacerD(2) [OF R] F(3)]
          lru.unpin_more [OF pool_replacerD(2) [OF R] pos, of "nat (fm_pin_count ?m)"] pos pc
        by (cases "fm_pin_count ?m = 0") (simp_all add: rep)
      show "dom (entries (replacer b')) = dom (entries (replacer b))"
        using lru.unpin_last(2) [OF pool_replacerD(2) [OF R] F(3)] by (simp add: rep)
    qed
    moreover have "pool_disk b'"
    proof (rule touches_disk [OF S D t hit])
      assume "nat (fm_pin_count ?m) = 0" "\<not> fm_dirty ?m"
      then show "page_bytes (pages b' ! unat fid) = disk_page (disk_manager b') pid"
        using h hit pos pc by (auto simp: honest_unpin_def b'(2) split: if_splits)
    qed (use pool_diskD(1) [OF D] in \<open>simp_all add: b'(2)\<close>)
    moreover have "logical b' = logical b" by (rule ext) (simp add: logical_def b'(2) split: option.split)
    ultimately show ?thesis using touches_shape [OF S t F(1)] True b' by (simp add: pool_inv_def)
  qed
  then show "pool_inv {} b'" "logical b' = logical b" "disk_manager b' = disk_manager b"
    "ok \<longleftrightarrow> (\<exists>fid. page_table b pid = Some fid \<and> 0 < pins b fid)" by auto
qed

text \<open>Writing a resident page to disk, by \<open>flush_page\<close> or in the loop of \<open>flush_all_pages\<close>.\<close>

lemma write_back:
  assumes inv: "pool_inv {} b" and hit: "page_table b pid = Some fid"
  obtains d b' where "write_page pid (page_bytes (pages b ! unat fid)) (disk_manager b) = Inr d"
    "b' = b\<lparr>disk_manager := d, frames := (frames b)[unat fid := (frames b ! unat fid)\<lparr>fm_dirty := False\<rparr>]\<rparr>"
    "pool_inv {} b'" "logical b' = logical b" "page_table b' = page_table b"
    "next_page_id (disk_manager b') = next_page_id (disk_manager b)"
    "disk_page (disk_manager b') = (disk_page (disk_manager b))(pid := logical b pid)" "pages b' = pages b"
    "\<And>g. g \<noteq> fid \<Longrightarrow> fm_dirty (frames b' ! unat g) = fm_dirty (frames b ! unat g)" "pins b' = pins b"
proof -
  note S = pool_invD(1) [OF inv] and R = pool_invD(2) [OF inv] and D = pool_invD(3) [OF inv]
  note F = resident_facts [OF inv hit]
  let ?m = "(frames b ! unat fid)\<lparr>fm_dirty := False\<rparr>"
  obtain d where d: "write_page pid (page_bytes (pages b ! unat fid)) (disk_manager b) = Inr d" "disk_ok d"
    "next_page_id d = next_page_id (disk_manager b)"
    "disk_page d = (disk_page (disk_manager b))(pid := page_bytes (pages b ! unat fid))"
    using write_page_correct [OF pool_diskD(1) [OF D] F(5), of "page_bytes (pages b ! unat fid)"] by auto
  define b' where "b' = b\<lparr>disk_manager := d, frames := (frames b)[unat fid := ?m]\<rparr>"
  have t: "touches fid ?m b b'" using F(4) by (simp add: touches_def b'_def)
  have pi: "(pins b)(fid := nat (fm_pin_count ?m)) = pins b" by (simp add: pins_def fun_eq_iff)
  have "pool_replacer {} b'"
    by (rule touches_replacer [OF R t F(1)]) (use pool_replacerD(2) [OF R] in \<open>simp_all only: pi\<close>, simp_all add: b'_def)
  moreover have "pool_disk b'"
    by (rule touches_disk [OF S D t hit]) (use d in \<open>simp_all add: b'_def\<close>)
  ultimately have inv': "pool_inv {} b'" using touches_shape [OF S t F(1)] by (simp add: pool_inv_def)
  have log: "logical b' = logical b" using hit d(4) by (auto simp: logical_def b'_def fun_eq_iff split: option.split)
  have pins: "pins b' = pins b" using touches_frames(2) [OF t F(1)] pi by simp
  show ?thesis
    using that [OF d(1) b'_def inv' log _ _ _ _ _ pins] d touches_frames(1) [OF t F(1)] hit
    by (simp add: b'_def logical_hit)
qed

lemma flush_page_correct:
  assumes inv: "pool_inv {} b"
  shows "\<exists>ok b'. flush_page pid b = Inr (ok, b') \<and> pool_inv {} b' \<and> logical b' = logical b \<and>
    next_page_id (disk_manager b') = next_page_id (disk_manager b) \<and>
    (ok \<longleftrightarrow> page_table b pid \<noteq> None) \<and> (ok \<longrightarrow> disk_page (disk_manager b') pid = logical b pid)"
proof (cases "page_table b pid")
  case None
  then show ?thesis using inv by (intro exI [of _ False]) (simp add: flush_page_def)
next
  case (Some fid)
  show ?thesis by (rule write_back [OF inv Some]) (intro exI [of _ True], simp add: flush_page_def Some)
qed

lemma flush_all_correct:
  assumes "pool_inv {} b"
  shows "\<exists>b'. flush_all_pages order b = Inr b' \<and> pool_inv {} b' \<and> logical b' = logical b \<and>
    page_table b' = page_table b \<and> next_page_id (disk_manager b') = next_page_id (disk_manager b) \<and>
    (\<forall>g. fm_dirty (frames b' ! unat (g :: u32)) \<longrightarrow> fm_dirty (frames b ! unat g)) \<and>
    (\<forall>pid. (pid \<in> set order \<and> (\<exists>f. page_table b pid = Some f \<and> fm_dirty (frames b ! unat f))) \<longrightarrow>
       disk_page (disk_manager b') pid = logical b pid) \<and>
    (\<forall>pid. disk_page (disk_manager b) pid = logical b pid \<longrightarrow> disk_page (disk_manager b') pid = logical b pid)"
  using assms
proof (induction order arbitrary: b)
  case (Cons pid rest)
  show ?case
  proof (cases "\<exists>f. page_table b pid = Some f \<and> fm_dirty (frames b ! unat f)")
    case False
    then have "flush_all_pages (pid # rest) b = flush_all_pages rest b" by (auto split: option.split)
    then show ?thesis using Cons.IH [OF Cons.prems] False by auto
  next
    case True
    then obtain f where f: "page_table b pid = Some f" "fm_dirty (frames b ! unat f)" by blast
    show ?thesis
    proof (rule write_back [OF Cons.prems f(1)])
      fix d b1
      assume W: "write_page pid (page_bytes (pages b ! unat f)) (disk_manager b) = Inr d"
        "b1 = b\<lparr>disk_manager := d, frames := (frames b)[unat f := (frames b ! unat f)\<lparr>fm_dirty := False\<rparr>]\<rparr>"
        "pool_inv {} b1" "logical b1 = logical b" "page_table b1 = page_table b"
        "next_page_id (disk_manager b1) = next_page_id (disk_manager b)"
        "disk_page (disk_manager b1) = (disk_page (disk_manager b))(pid := logical b pid)"
        "\<And>g. g \<noteq> f \<Longrightarrow> fm_dirty (frames b1 ! unat g) = fm_dirty (frames b ! unat g)"
      have e: "flush_all_pages (pid # rest) b = flush_all_pages rest b1" using f W(1,2) by simp
      obtain b' where I: "flush_all_pages rest b1 = Inr b'" "pool_inv {} b'" "logical b' = logical b1"
        "page_table b' = page_table b1" "next_page_id (disk_manager b') = next_page_id (disk_manager b1)"
        "\<And>g :: u32. fm_dirty (frames b' ! unat g) \<Longrightarrow> fm_dirty (frames b1 ! unat g)"
        "\<And>q f. q \<in> set rest \<Longrightarrow> page_table b1 q = Some f \<Longrightarrow> fm_dirty (frames b1 ! unat f) \<Longrightarrow>
           disk_page (disk_manager b') q = logical b1 q"
        "\<And>q. disk_page (disk_manager b1) q = logical b1 q \<Longrightarrow> disk_page (disk_manager b') q = logical b1 q"
        using Cons.IH [OF W(3)] by blast
      have dirty: "fm_dirty (frames b ! unat g)" if "fm_dirty (frames b' ! unat g)" for g :: u32
        using I(6) [OF that] W(8) [of g] f(2) by (cases "g = f") auto
      have clean: "disk_page (disk_manager b') q = logical b q" if "disk_page (disk_manager b) q = logical b q \<or> q = pid" for q
        using I(8) [of q] W(4,7) that by (auto split: if_splits)
      have "disk_page (disk_manager b') q = logical b q"
        if q: "q \<in> set (pid # rest)" "page_table b q = Some g" "fm_dirty (frames b ! unat g)" for q g
      proof (cases "q = pid")
        case False
        then have "g \<noteq> f" using resident_unique [OF pool_invD(1) [OF Cons.prems] f(1)] q(2) by blast
        then show ?thesis using I(7) [of q g] q False W(4,5,8) by simp
      qed (use clean in simp)
      then show ?thesis
        using e I(1-5) W(4-6) dirty clean by auto
    qed
  qed
qed simp

lemma client_write_correct:
  assumes inv: "pool_inv {} b" and hit: "page_table b pid = Some fid" and pin: "0 < pins b fid" and len: "length data = PAGE_SIZE"
  shows "pool_inv {} (client_write fid data b)" "logical (client_write fid data b) = (logical b)(pid := data)"
proof -
  note S = pool_invD(1) [OF inv] and R = pool_invD(2) [OF inv] and D = pool_invD(3) [OF inv]
  note F = resident_facts [OF inv hit]
  let ?b = "client_write fid data b" and ?m = "frames b ! unat fid"
  have t: "touches fid ?m b ?b" using F(4) by (simp add: touches_def client_write_def)
  have pi: "(pins b)(fid := nat (fm_pin_count ?m)) = pins b" by (simp add: pins_def fun_eq_iff)
  have "pool_replacer {} ?b"
    by (rule touches_replacer [OF R t F(1)]) (use pool_replacerD(2) [OF R] in \<open>simp_all only: pi\<close>, simp_all add: client_write_def)
  moreover have "pool_disk ?b"
    by (rule touches_disk [OF S D t hit]) (use pool_diskD(1) [OF D] pin in \<open>simp_all add: client_write_def pins_def\<close>)
  ultimately show "pool_inv {} ?b" using touches_shape [OF S t F(1)] by (simp add: pool_inv_def)
  show "logical ?b = (logical b)(pid := data)"
  proof
    fix q
    show "logical ?b q = ((logical b)(pid := data)) q"
    proof (cases "q = pid")
      case True
      then show ?thesis using hit F(2) len by (simp add: logical_def client_write_def mem_read_write_same)
    next
      case False
      then have "page_table b q \<noteq> Some fid" using resident_unique [OF S hit] by blast
      then show ?thesis using False by (auto simp: logical_def client_write_def split: option.split)
    qed
  qed
qed

lemma bpm_init_inv:
  assumes n: "length ps = n" "n \<le> 2 ^ 32" and d: "disk_ok d" "unat (next_page_id d) \<le> 2 ^ 51"
  shows "pool_inv {} (bpm_init n k d ps)" "logical (bpm_init n k d ps) = disk_page d"
proof -
  let ?b = "bpm_init n k d ps"
  have u: "unat (of_nat i :: u32) = i" if "i < n" for i using that n(2) by (intro unat_of_nat_u32) simp
  have "inj_on (of_nat :: nat \<Rightarrow> u32) {0..<n}" by (rule inj_onI) (metis atLeastLessThan_iff u)
  then have dist: "distinct (free_list ?b)" by (simp add: bpm_init_def distinct_map)
  have free: "f \<in> set (free_list ?b) \<longleftrightarrow> unat f < n" for f :: u32
  proof -
    have "f \<in> of_nat ` {0..<n}" if "unat f < n" using imageI [of "unat f" "{0..<n}" "of_nat :: nat \<Rightarrow> u32"] that by simp
    moreover have "unat f < n" if "f \<in> of_nat ` {0..<n}" using that u by auto
    ultimately show ?thesis by (auto simp: bpm_init_def)
  qed
  have sz: "pool_size ?b = n" by (simp add: bpm_init_def)
  have occ: "occupied ?b {} = {}" using free unfolding occupied_def sz by blast
  have "pool_shape {} ?b"
  proof (rule pool_shapeI)
    fix f assume "f \<in> set (free_list ?b)"
    then have "unat f < n" using free by simp
    then show "unat f < pool_size ?b \<and> fm_page_id (frames ?b ! unat f) = INVALID_PAGE_ID" by (simp add: bpm_init_def)
  qed (use dist occ n in \<open>simp_all add: bpm_init_def\<close>)
  moreover have "pool_replacer {} ?b"
    unfolding pool_replacer_def occ lru.pinned_inv_def lru_ok_def
    by (auto simp: bpm_init_def lru_init_def evictable_set_def evictable_def)
  moreover have "pool_disk ?b" using d by (simp add: pool_disk_def bpm_init_def)
  ultimately show "pool_inv {} ?b" by (simp add: pool_inv_def)
  show "logical ?b = disk_page d" by (rule ext) (simp add: logical_def bpm_init_def)
qed

subsection \<open>Histories\<close>

datatype pool_op = NewPage "u32 list" | Fetch "u32 list" u64 | Unpin u64 bool | Flush u64
  | FlushAll "u64 list" | WritePage u64 bytes

text \<open>A step of the pool, and of the page store that specifies it.\<close>

fun pool_step :: "pool_op \<Rightarrow> BufferPoolManager \<times> (u64 \<Rightarrow> bytes) \<Rightarrow> disk_error + BufferPoolManager \<times> (u64 \<Rightarrow> bytes)" where
  "pool_step (NewPage order) (b, st) = (case new_page order b of
     Inl e \<Rightarrow> Inl e | Inr (None, b') \<Rightarrow> Inr (b', st)
   | Inr (Some (pid, fid), b') \<Rightarrow> Inr (b', st(pid := fresh_page pid)))"
| "pool_step (Fetch order pid) (b, st) = (case fetch_page order pid b of
     Inl e \<Rightarrow> Inl e | Inr (out, b') \<Rightarrow> Inr (b', st))"
| "pool_step (Unpin pid is_dirty) (b, st) = Inr (snd (unpin_page pid is_dirty b), st)"
| "pool_step (Flush pid) (b, st) = (case flush_page pid b of Inl e \<Rightarrow> Inl e | Inr (ok, b') \<Rightarrow> Inr (b', st))"
| "pool_step (FlushAll order) (b, st) = (case flush_all_pages order b of Inl e \<Rightarrow> Inl e | Inr b' \<Rightarrow> Inr (b', st))"
| "pool_step (WritePage pid data) (b, st) = (case page_table b pid of
     None \<Rightarrow> Inr (b, st) | Some fid \<Rightarrow> Inr (client_write fid data b, st(pid := data)))"

text \<open>The clients fetch allocated pages, write to pages they have pinned, and report changes.\<close>

fun honest :: "pool_op \<Rightarrow> BufferPoolManager \<Rightarrow> bool" where
  "honest (NewPage order) b \<longleftrightarrow> unat (next_page_id (disk_manager b)) < 2 ^ 51"
| "honest (Fetch order pid) b \<longleftrightarrow> unat pid < unat (next_page_id (disk_manager b))"
| "honest (Unpin pid is_dirty) b \<longleftrightarrow> honest_unpin pid is_dirty b"
| "honest (Flush pid) b \<longleftrightarrow> True"
| "honest (FlushAll order) b \<longleftrightarrow> True"
| "honest (WritePage pid data) b \<longleftrightarrow>
     (case page_table b pid of None \<Rightarrow> False | Some fid \<Rightarrow> 0 < pins b fid) \<and> length data = PAGE_SIZE"

fun pool_run :: "pool_op list \<Rightarrow> BufferPoolManager \<times> (u64 \<Rightarrow> bytes) \<Rightarrow> disk_error + BufferPoolManager \<times> (u64 \<Rightarrow> bytes)" where
  "pool_run [] s = Inr s"
| "pool_run (op # ops) s = (case pool_step op s of Inl e \<Rightarrow> Inl e | Inr s' \<Rightarrow> pool_run ops s')"

fun honest_run :: "pool_op list \<Rightarrow> BufferPoolManager \<times> (u64 \<Rightarrow> bytes) \<Rightarrow> bool" where
  "honest_run [] s \<longleftrightarrow> True"
| "honest_run (op # ops) s \<longleftrightarrow> honest op (fst s) \<and>
     (case pool_step op s of Inl e \<Rightarrow> True | Inr s' \<Rightarrow> honest_run ops s')"

lemma pool_step_correct:
  assumes inv: "pool_inv {} b" and h: "honest op b"
  obtains b' where "pool_step op (b, logical b) = Inr (b', logical b')" "pool_inv {} b'"
proof -
  have "\<exists>b'. pool_step op (b, logical b) = Inr (b', logical b') \<and> pool_inv {} b'"
  proof (cases op)
    case (NewPage order)
    then show ?thesis
      using new_page_correct [OF inv, of order] h inv by (auto split: sum.splits prod.splits option.splits)
  next
    case (Fetch order pid)
    then show ?thesis
      using fetch_page_correct [OF inv, of pid order] h inv by (auto split: sum.splits prod.splits option.splits)
  next
    case (Unpin pid is_dirty)
    then show ?thesis
      using unpin_page_correct(1,2) [OF inv, of pid is_dirty "fst (unpin_page pid is_dirty b)" "snd (unpin_page pid is_dirty b)"] h
      by simp
  next
    case (Flush pid)
    then show ?thesis using flush_page_correct [OF inv, of pid] by auto
  next
    case (FlushAll order)
    then show ?thesis using flush_all_correct [OF inv, of order] by auto
  next
    case (WritePage pid data)
    then obtain fid where "page_table b pid = Some fid" "0 < pins b fid" "length data = PAGE_SIZE"
      using h by (auto split: option.splits)
    then show ?thesis using client_write_correct [OF inv, of pid fid data] WritePage by simp
  qed
  then show ?thesis using that by blast
qed

lemma pool_run_correct:
  assumes "pool_inv {} b" "honest_run ops (b, logical b)"
  shows "\<exists>b'. pool_run ops (b, logical b) = Inr (b', logical b') \<and> pool_inv {} b'"
  using assms
proof (induction ops arbitrary: b)
  case (Cons op ops)
  then have "honest op b" by simp
  then show ?case
    by (rule pool_step_correct [OF Cons.prems(1)]) (use Cons in auto)
qed simp

text \<open>A pool of one frame in which a page is created, written and unpinned.\<close>

definition sample_disk :: disk where
  "sample_disk = \<lparr>disk_file = (\<lambda>_. 0), disk_len = 0, next_page_id = 0\<rparr>"

definition sample_data :: bytes where
  "sample_data = replicate PAGE_SIZE 7"

definition sample_ops :: "pool_op list" where
  "sample_ops = [NewPage [], WritePage 0 sample_data, Unpin 0 True]"

definition sample_node :: "bool \<Rightarrow> u32 \<rightharpoonup> FrameNode" where
  "sample_node e = [0 \<mapsto> \<lparr>history = [1], is_evictable = e\<rparr>]"

definition sample_pool :: BufferPoolManager where
  "sample_pool = \<lparr>pool_size = 1, disk_manager = sample_disk\<lparr>next_page_id := 1\<rparr>,
     replacer = \<lparr>num_frames = 1, lru_k = 2, curr_size = 1, current_timestamp = 1, entries = sample_node True\<rparr>,
     pages = [mem_write (page_init 0 (\<lambda>_. 0)) 0 sample_data],
     frames = [\<lparr>fm_page_id = 0, fm_pin_count = 0, fm_dirty = True\<rparr>], free_list = [], page_table = [0 \<mapsto> 0]\<rparr>"

lemma sample_disk_ok: "disk_ok sample_disk" "unat (next_page_id sample_disk) \<le> 2 ^ 51"
  by (simp_all add: sample_disk_def disk_ok_def)

lemma sample_run:
  "pool_run sample_ops (bpm_init 1 2 sample_disk [\<lambda>_. 0], disk_page sample_disk) =
     Inr (sample_pool, (disk_page sample_disk)(0 := sample_data))"
  "honest_run sample_ops (bpm_init 1 2 sample_disk [\<lambda>_. 0], disk_page sample_disk)"
proof -
  let ?b0 = "bpm_init 1 2 sample_disk [\<lambda>_. 0]"
  let ?b1 = "\<lparr>pool_size = 1, disk_manager = sample_disk\<lparr>next_page_id := 1\<rparr>,
     replacer = \<lparr>num_frames = 1, lru_k = 2, curr_size = 0, current_timestamp = 1, entries = sample_node False\<rparr>,
     pages = [page_init 0 (\<lambda>_. 0)],
     frames = [\<lparr>fm_page_id = 0, fm_pin_count = 1, fm_dirty = False\<rparr>], free_list = [], page_table = [0 \<mapsto> 0]\<rparr>"
  have n: "new_page [] ?b0 = Inr (Some (0, 0), ?b1)"
    by (simp add: new_page_def bpm_init_def find_available_frame_def allocate_page_def sample_disk_def
        evict_frame_def install_page_def lru_init_def record_access_def set_evictable_def push_history_def
        sample_node_def Let_def)
  let ?b2 = "client_write 0 sample_data ?b1"
  have u: "unpin_page 0 True ?b2 = (True, sample_pool)"
    by (simp add: unpin_page_def client_write_def set_evictable_def sample_node_def sample_pool_def Let_def)
  have len: "length sample_data = PAGE_SIZE" by (simp add: sample_data_def)
  show "pool_run sample_ops (?b0, disk_page sample_disk) =
     Inr (sample_pool, (disk_page sample_disk)(0 := sample_data))"
    by (simp add: sample_ops_def n u del: One_nat_def)
  show "honest_run sample_ops (?b0, disk_page sample_disk)"
    by (simp add: sample_ops_def n u len pins_def honest_unpin_def client_write_def del: One_nat_def)
      (simp add: bpm_init_def sample_disk_def)
qed





text \<open>
  The destructor's \<open>flush_all_pages\<close> never fails, and afterwards the disk holds the current
  contents of every page that is dirty or not pinned.
\<close>

theorem buffer_pool_durable:
  assumes "length ps = n" "n \<le> 2 ^ 32" "disk_ok d" "unat (next_page_id d) \<le> 2 ^ 51"
    "honest_run ops (bpm_init n k d ps, disk_page d)"
    "pool_run ops (bpm_init n k d ps, disk_page d) = Inr (b, st)" "set order = dom (page_table b)"
  shows "\<exists>b'. flush_all_pages order b = Inr b' \<and>
    (\<forall>pid. (\<forall>fid. page_table b pid = Some fid \<longrightarrow> fm_dirty (frames b ! unat fid) \<or> pins b fid = 0) \<longrightarrow>
       disk_page (disk_manager b') pid = st pid)"
proof -
  note I = bpm_init_inv [OF assms(1-4), of k]
  have b: "pool_inv {} b" "st = logical b" using pool_run_correct [OF I(1), of ops] assms(5,6) unfolding I(2) by auto
  obtain b' where F: "flush_all_pages order b = Inr b'"
    "\<And>pid f. pid \<in> set order \<Longrightarrow> page_table b pid = Some f \<Longrightarrow> fm_dirty (frames b ! unat f) \<Longrightarrow>
      disk_page (disk_manager b') pid = logical b pid"
    "\<And>pid. disk_page (disk_manager b) pid = logical b pid \<Longrightarrow> disk_page (disk_manager b') pid = logical b pid"
    using flush_all_correct [OF b(1), of order] by blast
  have "disk_page (disk_manager b') pid = st pid"
    if p: "\<forall>fid. page_table b pid = Some fid \<longrightarrow> fm_dirty (frames b ! unat fid) \<or> pins b fid = 0" for pid
  proof (cases "page_table b pid")
    case None
    then show ?thesis using F(3) [of pid] b(2) by (simp add: logical_def)
  next
    case (Some fid)
    show ?thesis
    proof (cases "fm_dirty (frames b ! unat fid)")
      case True
      then show ?thesis using F(2) [OF _ Some True] Some assms(7) b(2) by auto
    next
      case False
      then have "page_bytes (pages b ! unat fid) = disk_page (disk_manager b) pid"
        using pool_diskD(4) [OF pool_invD(3) [OF b(1)] Some] p Some by auto
      then show ?thesis using F(3) [of pid] Some b(2) by (simp add: logical_def)
    qed
  qed
  then show ?thesis using F(1) by blast
qed

theorem buffer_pool_durable_witness:
  "set [0] = dom (page_table sample_pool) \<and>
   (\<exists>b'. flush_all_pages [0] sample_pool = Inr b' \<and> disk_page (disk_manager b') 0 = sample_data)"
proof -
  have d: "set [0] = dom (page_table sample_pool)" by (simp add: sample_pool_def)
  have len: "length [\<lambda>_ :: nat. 0 :: u8] = 1" "(1 :: nat) \<le> 2 ^ 32" by simp_all
  have dirty: "\<forall>fid. page_table sample_pool 0 = Some fid \<longrightarrow> fm_dirty (frames sample_pool ! unat fid) \<or> pins sample_pool fid = 0"
    by (simp add: sample_pool_def)
  show ?thesis
    using buffer_pool_durable [OF len sample_disk_ok sample_run(2,1) d] dirty d by auto
qed

text \<open>A one-frame pool that holds the clean page \<open>pid\<close>, pinned or evictable.\<close>

definition one_pool :: "u64 \<Rightarrow> u64 \<Rightarrow> bool \<Rightarrow> memory \<Rightarrow> u64 \<Rightarrow> BufferPoolManager" where
  "one_pool next pid e page t =
     \<lparr>pool_size = 1, disk_manager = sample_disk\<lparr>next_page_id := next\<rparr>,
      replacer = \<lparr>num_frames = 1, lru_k = 2, curr_size = (if e then 1 else 0), current_timestamp = t,
        entries = [0 \<mapsto> \<lparr>history = [t], is_evictable = e\<rparr>]\<rparr>,
      pages = [page], frames = [\<lparr>fm_page_id = pid, fm_pin_count = (if e then 0 else 1), fm_dirty = False\<rparr>],
      free_list = [], page_table = [pid \<mapsto> 0]\<rparr>"

lemma one_pool_victim:
  "find_available_frame [0] (one_pool next pid True page t) =
     (Some 0, (one_pool next pid True page t)\<lparr>replacer :=
        \<lparr>num_frames = 1, lru_k = 2, curr_size = 0, current_timestamp = t, entries = Map.empty\<rparr>\<rparr>)"
  by (simp add: find_available_frame_def one_pool_def victim_def victim_step_def victim_loop_init_def Let_def)

lemma one_pool_steps:
  assumes "pid \<noteq> INVALID_PAGE_ID"
  shows "new_page [] (bpm_init 1 2 sample_disk [\<lambda>_. 0]) = Inr (Some (0, 0), one_pool 1 0 False (page_init 0 (\<lambda>_. 0)) 1)"
    "unpin_page pid False (one_pool next pid False page t) = (True, one_pool next pid True page t)"
    "new_page [0] (one_pool next pid True page t) =
       Inr (Some (next, 0), one_pool (next + 1) next False (page_init next page) (t + 1))"
    "q \<noteq> pid \<Longrightarrow> fetch_page [0] q (one_pool next pid True page t) =
       Inr (Some 0, one_pool next q False (mem_write page 0 (read_page q (page_bytes page) (sample_disk\<lparr>next_page_id := next\<rparr>))) (t + 1))"
proof -
  show "new_page [] (bpm_init 1 2 sample_disk [\<lambda>_. 0]) = Inr (Some (0, 0), one_pool 1 0 False (page_init 0 (\<lambda>_. 0)) 1)"
    by (simp add: new_page_def bpm_init_def find_available_frame_def allocate_page_def sample_disk_def
        evict_frame_def install_page_def lru_init_def record_access_def set_evictable_def push_history_def
        one_pool_def Let_def)
  show "unpin_page pid False (one_pool next pid False page t) = (True, one_pool next pid True page t)"
    by (simp add: unpin_page_def one_pool_def set_evictable_def Let_def)
  show "new_page [0] (one_pool next pid True page t) =
       Inr (Some (next, 0), one_pool (next + 1) next False (page_init next page) (t + 1))"
    using assms unfolding new_page_def one_pool_victim
    by (simp add: one_pool_def allocate_page_def evict_frame_def install_page_def record_access_def
        set_evictable_def push_history_def Let_def)
  show "fetch_page [0] q (one_pool next pid True page t) =
       Inr (Some 0, one_pool next q False (mem_write page 0 (read_page q (page_bytes page) (sample_disk\<lparr>next_page_id := next\<rparr>))) (t + 1))"
    if "q \<noteq> pid"
    using assms that unfolding fetch_page_def one_pool_victim
    by (simp add: one_pool_def evict_frame_def install_page_def record_access_def
        set_evictable_def push_history_def Let_def)
qed

text \<open>
  C38: \<open>new_page\<close> does not mark the page it initialises as dirty. In a pool of one frame, a page that is
  created and unpinned unchanged is dropped when the frame is reused: fetched again it is all
  zeros, its free-space pointer is 0 instead of 4096, and the page can hold no tuple.
\<close>

theorem new_page_header_lost:
  "\<exists>b st. pool_run [NewPage [], Unpin 0 False, NewPage [0], Unpin 1 False, Fetch [0] 0]
      (bpm_init 1 2 sample_disk [\<lambda>_. 0], disk_page sample_disk) = Inr (b, st) \<and>
    page_bytes (pages b ! 0) = replicate PAGE_SIZE 0 \<and> free_space_ptr (pages b ! 0) = 0 \<and>
    free_space_ptr (page_init 0 (\<lambda>_. 0)) = 4096"
proof -
  let ?z = "replicate PAGE_SIZE 0 :: bytes" and ?d = "sample_disk\<lparr>next_page_id := 2\<rparr>"
  have ids: "(0 :: u64) \<noteq> INVALID_PAGE_ID" "(1 :: u64) \<noteq> INVALID_PAGE_ID" by (simp_all add: INVALID_PAGE_ID_def)
  have rd: "read_page 0 buf ?d = ?z" for buf
    by (simp add: read_page_def page_offset_def sample_disk_def Let_def)
  have run: "\<exists>st pg. pool_run [NewPage [], Unpin 0 False, NewPage [0], Unpin 1 False, Fetch [0] 0]
      (bpm_init 1 2 sample_disk [\<lambda>_. 0], disk_page sample_disk) = Inr (one_pool 2 0 False (mem_write pg 0 ?z) 3, st)"
    by (simp add: one_pool_steps [OF ids(1)] one_pool_steps [OF ids(2)] rd del: One_nat_def) blast
  have "page_bytes (mem_write pg 0 ?z) = ?z" "free_space_ptr (mem_write pg 0 ?z) = 0" for pg
  proof -
    show "page_bytes (mem_write pg 0 ?z) = ?z" by (simp add: mem_read_write_same)
    have "mem_read (mem_write pg 0 ?z) 18 2 = replicate 2 0"
      by (rule mem_read_zero) (simp add: mem_write_def PAGE_SIZE_def)
    then show "free_space_ptr (mem_write pg 0 ?z) = 0"
      by (simp add: free_space_ptr_def rd16_def numeral_2_eq_2)
  qed
  then show ?thesis using run page_init_fields(2) [of 0 "\<lambda>_. 0"] by (fastforce simp: one_pool_def)
qed

end
