(* ===== verification/Buddy_Allocator.thy ===== *)
theory Buddy_Allocator
  imports Sys_Prelude "HOL-Library.Multiset"
begin

text \<open>
  The binary buddy allocator of \<open>slab_and_buddy_allocator/buddy_allocator.hpp\<close>. A pointer into the
  mapped arena is its offset from \<open>raw_memory_\<close>; \<open>nullptr\<close> is \<open>None\<close>. The free lists are the vectors
  of the code, with \<open>push_back\<close> at the end. Each call runs under the mutex and is one step. The
  invariant is that free and live blocks together tile the arena and that no two buddies are both
  free; its consequences are disjointness, completeness of allocation and full coalescing.
\<close>

definition MIN_BLOCK_SIZE :: nat where
  "MIN_BLOCK_SIZE = 4096"

definition MAX_ORDER :: nat where
  "MAX_ORDER = 8"

definition POOL_SIZE :: nat where
  "POOL_SIZE = push_bit MAX_ORDER MIN_BLOCK_SIZE"

record BuddyAllocator =
  free_lists :: "nat \<Rightarrow> nat list"
  allocated_bytes :: u64
  split_count :: u64
  merge_count :: u64

datatype alloc_error = BadAlloc

definition buddy_init :: "bool \<Rightarrow> alloc_error + BuddyAllocator" where
  "buddy_init mapped = (if \<not> mapped then Inl BadAlloc
     else Inr \<lparr>free_lists = (\<lambda>_. [])(MAX_ORDER := [0]), allocated_bytes = 0, split_count = 0, merge_count = 0\<rparr>)"

definition order_to_size :: "nat \<Rightarrow> nat" where
  "order_to_size order = push_bit order MIN_BLOCK_SIZE"

function size_to_order_loop :: "nat \<Rightarrow> nat \<Rightarrow> nat \<Rightarrow> nat" where
  "size_to_order_loop bytes sz order =
     (if sz < bytes \<and> order < MAX_ORDER then size_to_order_loop bytes (push_bit 1 sz) (order + 1) else order)"
  by pat_completeness auto

termination
  by (relation "measure (\<lambda>(bytes, sz, order). MAX_ORDER - order)") auto

definition size_to_order :: "nat \<Rightarrow> nat" where
  "size_to_order bytes = (if bytes \<le> MIN_BLOCK_SIZE then 0 else size_to_order_loop bytes MIN_BLOCK_SIZE 0)"

function find_order :: "(nat \<Rightarrow> nat list) \<Rightarrow> nat \<Rightarrow> nat" where
  "find_order fl current = (if current \<le> MAX_ORDER \<and> fl current = [] then find_order fl (current + 1) else current)"
  by pat_completeness auto

termination
  by (relation "measure (\<lambda>(fl, current). Suc MAX_ORDER - current)") auto

function split_loop :: "nat \<Rightarrow> nat \<Rightarrow> nat \<Rightarrow> BuddyAllocator \<Rightarrow> BuddyAllocator" where
  "split_loop block order current b =
     (if current > order then
        (let current' = current - 1; buddy = block + order_to_size current'
         in split_loop block order current'
              (b\<lparr>free_lists := (free_lists b)(current' := free_lists b current' @ [buddy]),
                 split_count := split_count b + 1\<rparr>))
      else b)"
  by pat_completeness auto

termination
  by (relation "measure (\<lambda>(block, order, current, b). current)") auto

definition buddy_allocate :: "nat \<Rightarrow> BuddyAllocator \<Rightarrow> nat option \<times> BuddyAllocator" where
  "buddy_allocate bytes b =
     (if bytes = 0 \<or> bytes > POOL_SIZE then (None, b)
      else let order = size_to_order bytes
      in if order > MAX_ORDER then (None, b)
      else let current = find_order (free_lists b) order
      in if current > MAX_ORDER then (None, b)
      else let block = last (free_lists b current);
               b1 = b\<lparr>free_lists := (free_lists b)(current := butlast (free_lists b current))\<rparr>;
               b2 = split_loop block order current b1
      in (Some block, b2\<lparr>allocated_bytes := allocated_bytes b2 + of_nat (order_to_size order)\<rparr>))"

function merge_loop :: "nat \<Rightarrow> nat \<Rightarrow> BuddyAllocator \<Rightarrow> nat \<times> nat \<times> BuddyAllocator" where
  "merge_loop block order b =
     (if order < MAX_ORDER then
        (let buddy = block XOR order_to_size order; fl = free_lists b order
         in if buddy \<notin> set fl then (block, order, b)
            else merge_loop (if block < buddy then block else buddy) (order + 1)
                   (b\<lparr>free_lists := (free_lists b)(order := remove1 buddy fl), merge_count := merge_count b + 1\<rparr>))
      else (block, order, b))"
  by pat_completeness auto

termination
  by (relation "measure (\<lambda>(block, order, b). MAX_ORDER - order)") auto

definition buddy_deallocate :: "nat option \<Rightarrow> nat \<Rightarrow> BuddyAllocator \<Rightarrow> BuddyAllocator" where
  "buddy_deallocate ptr bytes b =
     (case ptr of None \<Rightarrow> b
      | Some block \<Rightarrow>
          if bytes = 0 then b
          else let order = size_to_order bytes
          in if order > MAX_ORDER then b
          else let b1 = b\<lparr>allocated_bytes := allocated_bytes b - of_nat (order_to_size order)\<rparr>;
                   (block', order', b2) = merge_loop block order b1
          in b2\<lparr>free_lists := (free_lists b2)(order' := free_lists b2 order' @ [block'])\<rparr>)"

declare size_to_order_loop.simps [simp del] find_order.simps [simp del]
  split_loop.simps [simp del] merge_loop.simps [simp del]

subsection \<open>Orders and sizes\<close>

lemma order_to_size_eq: "order_to_size k = 4096 * 2 ^ k"
  by (simp add: order_to_size_def MIN_BLOCK_SIZE_def push_bit_eq_mult)

lemma order_to_size_pow2: "order_to_size k = 2 ^ (12 + k)"
  by (simp add: order_to_size_eq power_add)

lemma order_to_size_pos [simp]: "0 < order_to_size k"
  by (simp add: order_to_size_eq)

lemma order_to_size_Suc: "order_to_size (Suc k) = order_to_size k + order_to_size k"
  by (simp add: order_to_size_eq)

lemma order_to_size_mono: "k \<le> n \<Longrightarrow> order_to_size k \<le> order_to_size n"
  by (simp add: order_to_size_eq)

lemma POOL_SIZE_eq: "POOL_SIZE = order_to_size MAX_ORDER"
  by (simp add: POOL_SIZE_def order_to_size_def)

lemma size_to_order_loop_spec:
  "sz = order_to_size order \<Longrightarrow> order \<le> MAX_ORDER \<Longrightarrow> (\<And>k. k < order \<Longrightarrow> order_to_size k < bytes) \<Longrightarrow>
   r = size_to_order_loop bytes sz order \<Longrightarrow>
   r \<le> MAX_ORDER \<and> (r < MAX_ORDER \<longrightarrow> bytes \<le> order_to_size r) \<and> (\<forall>k<r. order_to_size k < bytes)"
proof (induction bytes sz order rule: size_to_order_loop.induct)
  case (1 bytes sz order)
  show ?case
  proof (cases "sz < bytes \<and> order < MAX_ORDER")
    case True
    have e1: "push_bit 1 sz = order_to_size (order + 1)"
      using "1.prems"(1) by (simp add: order_to_size_def push_bit_push_bit)
    have e2: "order_to_size k < bytes" if "k < order + 1" for k
      using that True "1.prems"(1,3) by (cases "k = order") auto
    have e3: "r = size_to_order_loop bytes (push_bit 1 sz) (order + 1)"
      using "1.prems"(4) True by (simp add: size_to_order_loop.simps [of bytes sz order])
    show ?thesis by (rule "1.IH" [OF True e1 _ e2 e3]) (use True in simp)
  next
    case False
    then have "r = order" using "1.prems"(4) unfolding size_to_order_loop.simps [of bytes sz order] by (simp only: if_False)
    then show ?thesis using "1.prems"(1-3) False by auto
  qed
qed

lemma size_to_order_le [simp]: "size_to_order bytes \<le> MAX_ORDER"
  using size_to_order_loop_spec [of MIN_BLOCK_SIZE 0 bytes]
  by (auto simp: size_to_order_def order_to_size_def)

lemma size_to_order_least:
  assumes "bytes \<le> POOL_SIZE"
  shows "bytes \<le> order_to_size k \<longleftrightarrow> size_to_order bytes \<le> k"
proof -
  let ?r = "size_to_order bytes"
  have "(?r < MAX_ORDER \<longrightarrow> bytes \<le> order_to_size ?r) \<and> (\<forall>k<?r. order_to_size k < bytes)"
    using size_to_order_loop_spec [of MIN_BLOCK_SIZE 0 bytes]
    by (auto simp: size_to_order_def order_to_size_def)
  then have "bytes \<le> order_to_size ?r" "\<forall>k<?r. order_to_size k < bytes"
    using assms size_to_order_le [of bytes] by (auto simp: POOL_SIZE_eq order.order_iff_strict simp del: size_to_order_le)
  then show ?thesis using order_to_size_mono [of ?r k] by (meson le_less_linear le_trans not_le)
qed

subsection \<open>Aligned blocks and buddies\<close>

definition aligned :: "nat \<times> nat \<Rightarrow> bool" where
  "aligned p \<longleftrightarrow> snd p \<le> MAX_ORDER \<and> order_to_size (snd p) dvd fst p"

definition covers :: "nat \<times> nat \<Rightarrow> nat \<Rightarrow> bool" where
  "covers p x \<longleftrightarrow> fst p \<le> x \<and> x < fst p + order_to_size (snd p)"

lemma covers_div:
  assumes "order_to_size k dvd a"
  shows "covers (a, k) x \<longleftrightarrow> x div order_to_size k = a div order_to_size k"
proof -
  obtain q where a: "a = order_to_size k * q" using assms by (rule dvdE)
  have "x div order_to_size k = q \<longleftrightarrow> order_to_size k * q \<le> x \<and> x < order_to_size k * q + order_to_size k"
    by (metis add.commute div_nat_eqI dividend_less_times_div mult.commute mult_Suc_right order_to_size_pos
        times_div_less_eq_dividend)
  then show ?thesis by (simp add: covers_def a)
qed

lemma div_order_mono:
  assumes "k \<le> n" "x div order_to_size k = y div order_to_size k"
  shows "x div order_to_size n = y div order_to_size n"
proof -
  have "order_to_size n = order_to_size k * 2 ^ (n - k)"
    using assms(1) by (simp add: order_to_size_pow2 flip: power_add)
  then show ?thesis using assms(2) by (simp add: div_mult2_eq)
qed

lemma covers_refl [simp]: "covers (a, k) a"
  by (simp add: covers_def)

lemma buddy_xor_even:
  assumes "even (a div order_to_size k)"
  shows "a XOR order_to_size k = a + order_to_size k"
proof -
  have "a XOR order_to_size k = flip_bit (12 + k) a"
    by (simp add: flip_bit_eq_xor order_to_size_pow2 push_bit_eq_mult)
  then show ?thesis
    using assms by (simp add: flip_bit_eq_if set_bit_eq bit_iff_odd order_to_size_pow2)
qed

lemma buddy_xor:
  "order_to_size k * q XOR order_to_size k =
     (if even q then order_to_size k * (q + 1) else order_to_size k * (q - 1))"
proof (cases "even q")
  case True
  then show ?thesis using buddy_xor_even [of "order_to_size k * q" k] by simp
next
  case False
  then obtain r where r: "q = 2 * r + 1" by (rule oddE)
  have "order_to_size k * (2 * r) XOR order_to_size k = order_to_size k * q"
    using buddy_xor_even [of "order_to_size k * (2 * r)" k] by (simp add: r)
  then have "order_to_size k * q XOR order_to_size k = order_to_size k * (2 * r)"
    by (metis xor.assoc xor_self_eq xor.right_neutral)
  then show ?thesis by (simp add: r)
qed

lemma buddy_facts:
  assumes "order_to_size k dvd a"
  shows "order_to_size k dvd a XOR order_to_size k"
    and "(a XOR order_to_size k) div order_to_size (Suc k) = a div order_to_size (Suc k)"
    and "(a XOR order_to_size k) div order_to_size k \<noteq> a div order_to_size k"
    and "(a XOR order_to_size k) XOR order_to_size k = a"
    and "order_to_size (Suc k) dvd min a (a XOR order_to_size k)"
    and "max a (a XOR order_to_size k) = min a (a XOR order_to_size k) + order_to_size k"
proof -
  define s where "s = order_to_size k"
  have s: "0 < s" "order_to_size (Suc k) = 2 * s" by (simp_all add: s_def order_to_size_Suc)
  obtain q where a: "a = s * q" using assms by (auto simp: s_def elim: dvdE)
  have x: "s * q XOR s = (if even q then s * (q + 1) else s * (q - 1))"
    unfolding s_def by (rule buddy_xor)
  have h: "s * n div (2 * s) = n div 2" for n
    using s(1) by (metis div_mult_mult1 mult.commute less_numeral_extra(3))
  have e: "even q \<or> (\<exists>r. q = 2 * r + 1)" by (meson oddE)
  show "order_to_size k dvd a XOR order_to_size k" by (simp add: x a s_def [symmetric])
  show "(a XOR order_to_size k) div order_to_size (Suc k) = a div order_to_size (Suc k)"
    using e by (auto simp: x a s(2) h s_def [symmetric] simp del: mult_Suc_right)
  show "(a XOR order_to_size k) div order_to_size k \<noteq> a div order_to_size k"
    using s(1) e by (auto simp: x a s_def [symmetric])
  show "(a XOR order_to_size k) XOR order_to_size k = a"
    by (simp add: xor.assoc)
  show "order_to_size (Suc k) dvd min a (a XOR order_to_size k)"
    using e by (auto simp: x a s(2) s_def [symmetric] min_def elim!: evenE)
  show "max a (a XOR order_to_size k) = min a (a XOR order_to_size k) + order_to_size k"
    using e s(1) by (auto simp: x a s_def [symmetric] max_def min_def)
qed

lemma buddy_neq: "a XOR order_to_size k \<noteq> a"
  by (metis less_numeral_extra(3) order_to_size_pos xor.assoc xor_self_eq xor.left_neutral)

subsection \<open>The free lists as a multiset of blocks\<close>

definition free_blocks :: "(nat \<Rightarrow> nat list) \<Rightarrow> (nat \<times> nat) multiset" where
  "free_blocks fl = (\<Sum>k\<le>MAX_ORDER. image_mset (\<lambda>a. (a, k)) (mset (fl k)))"

lemma free_blocks_upd:
  assumes "k \<le> MAX_ORDER"
  shows "free_blocks (fl(k := xs)) + image_mset (\<lambda>a. (a, k)) (mset (fl k)) =
    free_blocks fl + image_mset (\<lambda>a. (a, k)) (mset xs)"
proof -
  let ?g = "\<lambda>f j. image_mset (\<lambda>a. (a, j)) (mset (f j))"
  have sp: "free_blocks f = ?g f k + (\<Sum>j\<in>{..MAX_ORDER} - {k}. ?g f j)" for f
    unfolding free_blocks_def using assms by (subst sum.remove [of _ k]) auto
  have "(\<Sum>j\<in>{..MAX_ORDER} - {k}. ?g (fl(k := xs)) j) = (\<Sum>j\<in>{..MAX_ORDER} - {k}. ?g fl j)"
    by (rule sum.cong) auto
  then show ?thesis using sp [of fl] sp [of "fl(k := xs)"] by simp
qed

lemma free_blocks_push:
  "k \<le> MAX_ORDER \<Longrightarrow> free_blocks (fl(k := fl k @ [a])) = add_mset (a, k) (free_blocks fl)"
  using free_blocks_upd [of k fl "fl k @ [a]"] by simp

lemma free_blocks_pop:
  assumes "k \<le> MAX_ORDER" "fl k \<noteq> []"
  shows "add_mset (last (fl k), k) (free_blocks (fl(k := butlast (fl k)))) = free_blocks fl"
proof -
  have "mset (fl k) = add_mset (last (fl k)) (mset (butlast (fl k)))"
    using assms(2) by (metis append_butlast_last_id add_mset_add_single mset.simps mset_append union_commute)
  then show ?thesis using free_blocks_upd [of k fl "butlast (fl k)"] assms(1) by simp
qed

lemma free_blocks_remove1:
  assumes "k \<le> MAX_ORDER" "a \<in> set (fl k)"
  shows "add_mset (a, k) (free_blocks (fl(k := remove1 a (fl k)))) = free_blocks fl"
proof -
  have "mset (fl k) = add_mset a (mset (remove1 a (fl k)))" using assms(2) by simp
  then have "image_mset (\<lambda>a. (a, k)) (mset (fl k)) = add_mset (a, k) (image_mset (\<lambda>a. (a, k)) (mset (remove1 a (fl k))))"
    by (metis (no_types, lifting) image_mset_add_mset)
  then show ?thesis using free_blocks_upd [of k fl "remove1 a (fl k)"] assms(1) by simp
qed

lemma mem_free_blocks: "(a, k) \<in># free_blocks fl \<longleftrightarrow> k \<le> MAX_ORDER \<and> a \<in> set (fl k)"
  by (auto simp: free_blocks_def set_mset_sum)

lemma free_lists_single:
  assumes "free_blocks fl = {#(a, k)#}"
  shows "fl k = [a]"
proof -
  have k: "k \<le> MAX_ORDER" "a \<in> set (fl k)" using assms mem_free_blocks [of a k fl] by simp_all
  have "size (free_blocks (fl(k := [])) + image_mset (\<lambda>a. (a, k)) (mset (fl k))) = size (free_blocks fl)"
    using free_blocks_upd [OF k(1), of fl "[]"] by simp
  then have "length (fl k) \<le> 1" using assms by simp
  then show ?thesis using k(2) by (cases "fl k") auto
qed

subsection \<open>Tilings of the arena\<close>

definition cover :: "(nat \<times> nat) multiset \<Rightarrow> nat \<Rightarrow> nat" where
  "cover M x = size (filter_mset (\<lambda>p. covers p x) M)"

definition tiled :: "(nat \<times> nat) multiset \<Rightarrow> bool" where
  "tiled M \<longleftrightarrow> (\<forall>p\<in>#M. aligned p) \<and> (\<forall>x. cover M x = (if x < POOL_SIZE then 1 else 0))"

lemma cover_add [simp]: "cover (add_mset p M) x = (if covers p x then Suc (cover M x) else cover M x)"
  by (simp add: cover_def)

lemma cover_mem: "p \<in># M \<Longrightarrow> covers p x \<Longrightarrow> 0 < cover M x"
  unfolding cover_def by (metis mem_Collect_eq nonempty_has_size set_mset_empty set_mset_filter empty_iff)

lemma cover_witness: "0 < cover M x \<Longrightarrow> \<exists>p. p \<in># M \<and> covers p x"
  unfolding cover_def by (metis (mono_tags, lifting) filter_mset_eq_conv mem_Collect_eq multiset_nonemptyE
      nonempty_has_size set_mset_filter)

lemma tiled_unique:
  assumes "tiled (add_mset p M)" "q \<in># M" "covers p x" "covers q x"
  shows False
  using cover_mem [OF assms(2,4)] assms(1,3) by (auto simp: tiled_def split: if_splits dest!: spec [of _ x])

lemma tiled_unique':
  assumes "tiled M" "p \<in># M" "q \<in># M" "covers p x" "covers q x"
  shows "p = q"
proof (rule ccontr)
  assume "p \<noteq> q"
  then have "q \<in># M - {#p#}"
    using assms(2,3) by (metis insertE insert_DiffM set_mset_add_mset_insert)
  moreover have "tiled (add_mset p (M - {#p#}))" using assms(1,2) by simp
  ultimately show False using tiled_unique assms(4,5) by blast
qed

lemma tiled_aligned: "tiled M \<Longrightarrow> (a, k) \<in># M \<Longrightarrow> k \<le> MAX_ORDER \<and> order_to_size k dvd a"
  by (auto simp: tiled_def aligned_def)

lemma tiled_bound: "tiled M \<Longrightarrow> p \<in># M \<Longrightarrow> covers p x \<Longrightarrow> x < POOL_SIZE"
  using cover_mem [of p M x] by (fastforce simp: tiled_def split: if_splits)

lemma tiled_covered: "tiled M \<Longrightarrow> x < POOL_SIZE \<Longrightarrow> \<exists>p. p \<in># M \<and> covers p x"
  by (rule cover_witness) (simp add: tiled_def)

lemma cover_halves:
  "cover (add_mset (a, k) (add_mset (a + order_to_size k, k) M)) x = cover (add_mset (a, Suc k) M) x"
  by (simp add: covers_def order_to_size_Suc)

lemma tiled_split:
  assumes "tiled (add_mset (a, Suc k) M)"
  shows "tiled (add_mset (a, k) (add_mset (a + order_to_size k, k) M))"
proof -
  have "aligned (a, Suc k)" using assms by (simp add: tiled_def)
  then have "aligned (a, k)" "aligned (a + order_to_size k, k)"
    by (auto simp: aligned_def order_to_size_Suc mult_2 [symmetric] elim: dvd_mult_right)
  then show ?thesis using assms by (simp add: tiled_def cover_halves del: cover_add)
qed

lemma tiled_merge:
  assumes t: "tiled (add_mset (a, k) (add_mset (a XOR order_to_size k, k) M))" and k: "k < MAX_ORDER"
  shows "tiled (add_mset (min a (a XOR order_to_size k), Suc k) M)"
proof -
  define c where "c = min a (a XOR order_to_size k)"
  have al: "order_to_size k dvd a" using t by (simp add: tiled_def aligned_def)
  have "(a = c \<and> a XOR order_to_size k = c + order_to_size k) \<or> (a = c + order_to_size k \<and> a XOR order_to_size k = c)"
    using buddy_facts(6) [OF al] by (auto simp: c_def min_def max_def split: if_splits)
  then have t': "tiled (add_mset (c, k) (add_mset (c + order_to_size k, k) M))"
    using t by (elim disjE conjE) (simp_all only: add_mset_commute)
  have "aligned (c, Suc k)" using buddy_facts(5) [OF al] k by (simp add: aligned_def c_def)
  then show ?thesis using t' by (simp add: tiled_def cover_halves c_def [symmetric] del: cover_add)
qed

subsection \<open>The loops keep the tiling\<close>

definition pool_tiled :: "BuddyAllocator \<Rightarrow> (nat \<times> nat) multiset \<Rightarrow> bool" where
  "pool_tiled b M \<longleftrightarrow> (\<forall>k>MAX_ORDER. free_lists b k = []) \<and> tiled (free_blocks (free_lists b) + M) \<and>
     split_count b - merge_count b + 1 = of_nat (size (free_blocks (free_lists b) + M))"

definition coalesced :: "(nat \<Rightarrow> nat list) \<Rightarrow> bool" where
  "coalesced fl \<longleftrightarrow> (\<forall>k<MAX_ORDER. \<forall>a\<in>set (fl k). a XOR order_to_size k \<notin> set (fl k))"

lemma find_order_spec:
  "r = find_order fl current \<Longrightarrow>
   current \<le> r \<and> (r \<le> MAX_ORDER \<longrightarrow> fl r \<noteq> []) \<and> (\<forall>k. current \<le> k \<longrightarrow> k < r \<longrightarrow> k \<le> MAX_ORDER \<longrightarrow> fl k = [])"
proof (induction fl current rule: find_order.induct)
  case (1 fl current)
  show ?case
  proof (cases "current \<le> MAX_ORDER \<and> fl current = []")
    case True
    then have "r = find_order fl (current + 1)" using "1.prems" by (simp add: find_order.simps [of fl current])
    from "1.IH" [OF True this] True show ?thesis by (metis Suc_eq_plus1 Suc_leD Suc_leI le_neq_implies_less)
  next
    case False
    then have "r = current" using "1.prems" unfolding find_order.simps [of fl current] by (simp only: if_False)
    then show ?thesis using False by auto
  qed
qed

lemma pool_tiled_split:
  assumes "pool_tiled b (add_mset (block, Suc k) L)" "k < MAX_ORDER"
  shows "pool_tiled (b\<lparr>free_lists := (free_lists b)(k := free_lists b k @ [block + order_to_size k]),
                      split_count := split_count b + 1\<rparr>) (add_mset (block, k) L)"
  using assms tiled_split [of block k "free_blocks (free_lists b) + L"]
  by (auto simp: pool_tiled_def free_blocks_push add_mset_commute algebra_simps)

lemma split_loop_spec:
  "order \<le> current \<Longrightarrow> current \<le> MAX_ORDER \<Longrightarrow> pool_tiled b (add_mset (block, current) L) \<Longrightarrow>
   b' = split_loop block order current b \<Longrightarrow>
   pool_tiled b' (add_mset (block, order) L) \<and> allocated_bytes b' = allocated_bytes b \<and>
   (\<forall>k. \<forall>a\<in>set (free_lists b' k).
      a \<in> set (free_lists b k) \<or> order \<le> k \<and> k < current \<and> a = block + order_to_size k)"
proof (induction block order current b rule: split_loop.induct)
  case (1 block order current b)
  show ?case
  proof (cases "current > order")
    case True
    define k where "k = current - 1"
    define b1 where "b1 = b\<lparr>free_lists := (free_lists b)(k := free_lists b k @ [block + order_to_size k]),
                      split_count := split_count b + 1\<rparr>"
    have k: "current = Suc k" "order \<le> k" "k < MAX_ORDER" using True "1.prems"(2) by (auto simp: k_def)
    have t: "pool_tiled b1 (add_mset (block, k) L)"
      unfolding b1_def using "1.prems"(3) k(1,3) by (intro pool_tiled_split) auto
    have e: "b' = split_loop block order k b1"
      using True "1.prems"(4) by (simp add: split_loop.simps [of block order current b] k_def b1_def Let_def)
    have "pool_tiled b' (add_mset (block, order) L) \<and> allocated_bytes b' = allocated_bytes b1 \<and>
     (\<forall>j. \<forall>a\<in>set (free_lists b' j).
        a \<in> set (free_lists b1 j) \<or> order \<le> j \<and> j < k \<and> a = block + order_to_size j)"
      using "1.IH" [OF True k_def refl k(2) _ t [unfolded b1_def] e [unfolded b1_def]] k(3) by (simp add: b1_def)
    then show ?thesis using k by (fastforce simp: b1_def less_Suc_eq split: if_splits)
  next
    case False
    then have "current = order" "b' = b"
      using "1.prems"(1) "1.prems"(4) [unfolded split_loop.simps [of block order current b]] by simp_all
    then show ?thesis using "1.prems"(3) by auto
  qed
qed

lemma pool_tiled_merge:
  assumes "pool_tiled b (add_mset (block, k) L)" "k < MAX_ORDER" "block XOR order_to_size k \<in> set (free_lists b k)"
  shows "pool_tiled (b\<lparr>free_lists := (free_lists b)(k := remove1 (block XOR order_to_size k) (free_lists b k)),
                      merge_count := merge_count b + 1\<rparr>)
           (add_mset (min block (block XOR order_to_size k), Suc k) L)"
proof -
  define fl' where "fl' = (free_lists b)(k := remove1 (block XOR order_to_size k) (free_lists b k))"
  have f: "free_blocks (free_lists b) = add_mset (block XOR order_to_size k, k) (free_blocks fl')"
    using free_blocks_remove1 [of k _ "free_lists b"] assms(2,3) by (simp add: fl'_def)
  have "tiled (add_mset (min block (block XOR order_to_size k), Suc k) (free_blocks fl' + L))"
    using assms(1,2) by (intro tiled_merge) (simp_all add: pool_tiled_def f add_mset_commute)
  then show ?thesis using assms(1,2)
    by (auto simp: pool_tiled_def f fl'_def [symmetric] algebra_simps) (auto simp: fl'_def)
qed

lemma coalesced_remove1:
  "coalesced fl \<Longrightarrow> coalesced (fl(k := remove1 a (fl k)))"
  by (auto simp: coalesced_def dest: notin_set_remove1)

lemma merge_loop_spec:
  "order \<le> MAX_ORDER \<Longrightarrow> pool_tiled b (add_mset (block, order) L) \<Longrightarrow> coalesced (free_lists b) \<Longrightarrow>
   (block', order', b') = merge_loop block order b \<Longrightarrow>
   pool_tiled b' (add_mset (block', order') L) \<and> coalesced (free_lists b') \<and> order' \<le> MAX_ORDER \<and>
   allocated_bytes b' = allocated_bytes b \<and>
   (order' < MAX_ORDER \<longrightarrow> block' XOR order_to_size order' \<notin> set (free_lists b' order'))"
proof (induction block order b rule: merge_loop.induct)
  case (1 block order b)
  define buddy where "buddy = block XOR order_to_size order"
  show ?case
  proof (cases "order < MAX_ORDER \<and> buddy \<in> set (free_lists b order)")
    case True
    define b1 where "b1 = b\<lparr>free_lists := (free_lists b)(order := remove1 buddy (free_lists b order)),
                        merge_count := merge_count b + 1\<rparr>"
    define c where "c = (if block < buddy then block else buddy)"
    have c: "c = min block (block XOR order_to_size order)" by (auto simp: c_def buddy_def min_def)
    have t: "pool_tiled b1 (add_mset (c, order + 1) L)" "coalesced (free_lists b1)"
      using pool_tiled_merge [OF "1.prems"(2)] True coalesced_remove1 [OF "1.prems"(3)]
      by (auto simp: b1_def buddy_def c)
    have e: "(block', order', b') = merge_loop c (order + 1) b1"
      using True "1.prems"(4) by (simp add: merge_loop.simps [of block order b] buddy_def b1_def c_def Let_def)
    show ?thesis
      using "1.IH" [of buddy "free_lists b order"] t e True by (simp add: buddy_def [symmetric] b1_def [symmetric] c_def [symmetric])
        (simp add: b1_def)
  next
    case False
    then have "(block', order', b') = (block, order, b)"
      using "1.prems"(4) by (auto simp: merge_loop.simps [of block order b] buddy_def Let_def)
    then show ?thesis using "1.prems"(1-3) False by (auto simp: buddy_def)
  qed
qed

subsection \<open>Live allocations and histories of calls\<close>

text \<open>The caller's view: the pointers it holds, each with the size it asked for.\<close>

type_synonym live = "(nat \<times> nat) list"

definition block_size :: "nat \<Rightarrow> nat" where
  "block_size bytes = order_to_size (size_to_order bytes)"

definition live_blocks :: "live \<Rightarrow> (nat \<times> nat) multiset" where
  "live_blocks ls = image_mset (\<lambda>(p, n). (p, size_to_order n)) (mset ls)"

definition buddy_ok :: "BuddyAllocator \<times> live \<Rightarrow> bool" where
  "buddy_ok s \<longleftrightarrow> pool_tiled (fst s) (live_blocks (snd s)) \<and> coalesced (free_lists (fst s)) \<and>
     allocated_bytes (fst s) = of_nat (\<Sum>(p, n)\<leftarrow>snd s. block_size n) \<and>
     (\<forall>(p, n)\<in>set (snd s). 0 < n \<and> n \<le> POOL_SIZE)"

datatype buddy_op = Allocate nat | Deallocate nat nat

text \<open>A caller that frees what it does not hold is outside the contract: the run is \<open>None\<close>.\<close>

fun buddy_step :: "buddy_op \<Rightarrow> BuddyAllocator \<times> live \<Rightarrow> (BuddyAllocator \<times> live) option" where
  "buddy_step (Allocate n) (b, ls) =
     (case buddy_allocate n b of (None, b') \<Rightarrow> Some (b', ls) | (Some p, b') \<Rightarrow> Some (b', (p, n) # ls))"
| "buddy_step (Deallocate p n) (b, ls) =
     (if (p, n) \<in> set ls then Some (buddy_deallocate (Some p) n b, remove1 (p, n) ls) else None)"

fun buddy_run :: "buddy_op list \<Rightarrow> BuddyAllocator \<times> live \<Rightarrow> (BuddyAllocator \<times> live) option" where
  "buddy_run [] s = Some s"
| "buddy_run (c # cs) s = (case buddy_step c s of None \<Rightarrow> None | Some s' \<Rightarrow> buddy_run cs s')"

lemma buddy_allocate_cases:
  assumes "buddy_allocate n b = (r, b')"
  shows "(r = None \<and> b' = b \<and> (n = 0 \<or> POOL_SIZE < n \<or> (\<forall>k\<ge>size_to_order n. k \<le> MAX_ORDER \<longrightarrow> free_lists b k = []))) \<or>
    (\<exists>k block. r = Some block \<and> 0 < n \<and> n \<le> POOL_SIZE \<and> size_to_order n \<le> k \<and> k \<le> MAX_ORDER \<and>
       free_lists b k \<noteq> [] \<and> block = last (free_lists b k) \<and>
       (let b2 = split_loop block (size_to_order n) k (b\<lparr>free_lists := (free_lists b)(k := butlast (free_lists b k))\<rparr>)
        in b' = b2\<lparr>allocated_bytes := allocated_bytes b2 + of_nat (block_size n)\<rparr>))"
proof -
  define k where "k = find_order (free_lists b) (size_to_order n)"
  have sp: "size_to_order n \<le> k" "k \<le> MAX_ORDER \<Longrightarrow> free_lists b k \<noteq> []"
    "\<And>j. size_to_order n \<le> j \<Longrightarrow> j < k \<Longrightarrow> j \<le> MAX_ORDER \<Longrightarrow> free_lists b j = []"
    using find_order_spec [OF k_def] by blast+
  show ?thesis
  proof (cases "n = 0 \<or> POOL_SIZE < n \<or> MAX_ORDER < k")
    case True
    then have "r = None" "b' = b"
      using assms by (auto simp: buddy_allocate_def k_def [symmetric] Let_def split: if_splits)
    then show ?thesis using True sp(3) by fastforce
  next
    case False
    then show ?thesis using assms sp(1,2)
      by (auto simp: buddy_allocate_def k_def [symmetric] Let_def block_size_def not_less intro!: exI [of _ k])
  qed
qed

lemma buddy_allocate_ok:
  assumes ok: "buddy_ok (b, ls)" and al: "buddy_allocate n b = (Some p, b')"
  shows "buddy_ok (b', (p, n) # ls)"
proof -
  define L where "L = live_blocks ls"
  obtain k b1 b2 where k: "0 < n" "n \<le> POOL_SIZE" "size_to_order n \<le> k" "k \<le> MAX_ORDER" "free_lists b k \<noteq> []"
    and p: "p = last (free_lists b k)" and b1: "b1 = b\<lparr>free_lists := (free_lists b)(k := butlast (free_lists b k))\<rparr>"
    and b2: "b2 = split_loop p (size_to_order n) k b1"
    and b': "b' = b2\<lparr>allocated_bytes := allocated_bytes b2 + of_nat (block_size n)\<rparr>"
    using buddy_allocate_cases [OF al] by (auto simp: Let_def)
  have inv: "pool_tiled b L" "coalesced (free_lists b)" using ok by (auto simp: buddy_ok_def L_def)
  have f: "free_blocks (free_lists b) = add_mset (p, k) (free_blocks (free_lists b1))"
    using free_blocks_pop [of k "free_lists b"] k(4,5) by (simp add: b1 p)
  have t1: "pool_tiled b1 (add_mset (p, k) L)"
    using inv(1) k(4) unfolding pool_tiled_def f by (simp add: b1)
  note sp = split_loop_spec [OF k(3,4) t1 b2]
  have old: "a \<in> set (free_lists b j)" if "a \<in> set (free_lists b1 j)" for a j
    using that by (auto simp: b1 split: if_splits dest: in_set_butlastD)
  have pa: "order_to_size k dvd p" using t1 by (auto simp: pool_tiled_def dest!: tiled_aligned [of _ p k])
  have new: "(p + order_to_size j) XOR order_to_size j = p \<and> p XOR order_to_size j = p + order_to_size j" if "j < k" for j
  proof -
    have "order_to_size j * 2 dvd order_to_size k"
      using that by (simp add: order_to_size_pow2 le_imp_power_dvd flip: power_Suc2)
    then have "order_to_size j * 2 dvd p" using pa dvd_trans by blast
    then have "even (p div order_to_size j)" by (auto elim!: dvdE)
    then have "p XOR order_to_size j = p + order_to_size j" by (rule buddy_xor_even)
    then show ?thesis by (metis xor.assoc xor_self_eq xor.right_neutral)
  qed
  have nfree: "p \<notin> set (free_lists b2 j)" if "j \<le> MAX_ORDER" for j
    using tiled_unique [of "(p, size_to_order n)" "free_blocks (free_lists b2) + L" "(p, j)" p] sp that
    by (auto simp: pool_tiled_def mem_free_blocks)
  have "coalesced (free_lists b2)"
    unfolding coalesced_def
  proof (intro allI impI ballI notI)
    fix j a assume j: "j < MAX_ORDER" and a: "a \<in> set (free_lists b2 j)" "a XOR order_to_size j \<in> set (free_lists b2 j)"
    have "a \<noteq> p + order_to_size j \<or> \<not> j < k" "a XOR order_to_size j \<noteq> p + order_to_size j \<or> \<not> j < k"
      using new [of j] nfree [of j] a j by (metis less_imp_le xor.assoc xor_self_eq xor.right_neutral)+
    then have "a \<in> set (free_lists b j)" "a XOR order_to_size j \<in> set (free_lists b j)"
      using sp a old by blast+
    then show False using inv(2) j by (auto simp: coalesced_def)
  qed
  then show ?thesis using sp k ok
    by (auto simp: buddy_ok_def b' live_blocks_def L_def pool_tiled_def b1 block_size_def)
qed

lemma buddy_deallocate_ok:
  assumes ok: "buddy_ok (b, ls)" and l: "(p, n) \<in> set ls"
  shows "buddy_ok (buddy_deallocate (Some p) n b, remove1 (p, n) ls)"
proof -
  define k where "k = size_to_order n"
  define b1 where "b1 = b\<lparr>allocated_bytes := allocated_bytes b - of_nat (order_to_size k)\<rparr>"
  obtain block k' b2 where m: "(block, k', b2) = merge_loop p k b1" by (metis prod_cases3)
  define L where "L = live_blocks (remove1 (p, n) ls)"
  have pm: "mset ls = add_mset (p, n) (mset (remove1 (p, n) ls))" using l by simp
  then have lb: "live_blocks ls = add_mset (p, k) L"
    unfolding live_blocks_def L_def k_def by (metis (no_types, lifting) image_mset_add_mset case_prod_conv)
  have inv: "pool_tiled b1 (add_mset (p, k) L)" "coalesced (free_lists b1)" "k \<le> MAX_ORDER"
    using ok by (auto simp: buddy_ok_def b1_def pool_tiled_def lb k_def)
  note sp = merge_loop_spec [OF inv(3,1,2) m]
  have n: "n \<noteq> 0" using ok l by (auto simp: buddy_ok_def)
  have d: "buddy_deallocate (Some p) n b = b2\<lparr>free_lists := (free_lists b2)(k' := free_lists b2 k' @ [block])\<rparr>"
    using m [symmetric] n inv(3) by (simp add: buddy_deallocate_def k_def [symmetric] b1_def [symmetric] Let_def split: prod.splits)
  have fb: "free_blocks ((free_lists b2)(k' := free_lists b2 k' @ [block])) = add_mset (block, k') (free_blocks (free_lists b2))"
    using sp by (intro free_blocks_push) simp
  have "coalesced ((free_lists b2)(k' := free_lists b2 k' @ [block]))"
    using sp by (auto simp: coalesced_def xor.assoc buddy_neq)
  moreover have "(\<Sum>(p, n)\<leftarrow>ls. block_size n) = block_size n + (\<Sum>(p, n)\<leftarrow>remove1 (p, n) ls. block_size n)"
    by (metis (no_types, lifting) l case_prod_conv sum_list_map_remove1)
  ultimately show ?thesis using sp ok
    by (auto simp: buddy_ok_def d pool_tiled_def fb L_def b1_def block_size_def k_def dest: notin_set_remove1)
qed

lemma buddy_step_ok: "buddy_ok s \<Longrightarrow> buddy_step c s = Some s' \<Longrightarrow> buddy_ok s'"
proof (cases c)
  case (Allocate n)
  assume ok: "buddy_ok s" and st: "buddy_step c s = Some s'"
  obtain b ls r b' where s: "s = (b, ls)" "buddy_allocate n b = (r, b')" by (metis surj_pair)
  show ?thesis
  proof (cases r)
    case None
    then show ?thesis using buddy_allocate_cases [OF s(2)] ok st s Allocate by auto
  next
    case (Some p)
    then show ?thesis using buddy_allocate_ok [of b ls n p b'] ok st s Allocate by auto
  qed
next
  case (Deallocate p n)
  assume "buddy_ok s" "buddy_step c s = Some s'"
  then show ?thesis using buddy_deallocate_ok Deallocate by (cases s) (auto split: if_splits)
qed

lemma buddy_run_ok: "buddy_ok s \<Longrightarrow> buddy_run cs s = Some s' \<Longrightarrow> buddy_ok s'"
  by (induction cs arbitrary: s) (auto split: option.splits dest: buddy_step_ok)

lemma buddy_init_ok:
  assumes "buddy_init True = Inr b"
  shows "buddy_ok (b, [])"
proof -
  have b: "b = \<lparr>free_lists = (\<lambda>_. [])(MAX_ORDER := [0]), allocated_bytes = 0, split_count = 0, merge_count = 0\<rparr>"
    using assms by (simp add: buddy_init_def)
  have "free_blocks (\<lambda>_. []) = {#}" by (simp add: free_blocks_def)
  then have "free_blocks (free_lists b) = {#(0, MAX_ORDER)#}"
    using free_blocks_push [of MAX_ORDER "\<lambda>_. []" 0] by (simp add: b)
  then show ?thesis
    by (auto simp: buddy_ok_def pool_tiled_def tiled_def live_blocks_def coalesced_def aligned_def cover_def
        covers_def POOL_SIZE_eq) (simp_all add: b)
qed

subsection \<open>Consequences of the invariant\<close>

lemma tiled_end: "tiled M \<Longrightarrow> (a, k) \<in># M \<Longrightarrow> a + order_to_size k \<le> POOL_SIZE"
  using tiled_bound [of M "(a, k)" "a + (order_to_size k - 1)"] order_to_size_pos [of k]
  unfolding covers_def gr0_conv_Suc by auto

lemma sum_covers:
  "a + order_to_size k \<le> POOL_SIZE \<Longrightarrow> (\<Sum>x<POOL_SIZE. if covers (a, k) x then 1 else 0 :: nat) = order_to_size k"
proof -
  assume "a + order_to_size k \<le> POOL_SIZE"
  then have "{..<POOL_SIZE} \<inter> {x. covers (a, k) x} = {a..<a + order_to_size k}" by (auto simp: covers_def)
  then show ?thesis by (simp add: sum.If_cases)
qed

lemma sum_cover:
  "(\<And>a k. (a, k) \<in># M \<Longrightarrow> a + order_to_size k \<le> POOL_SIZE) \<Longrightarrow>
   (\<Sum>x<POOL_SIZE. cover M x) = (\<Sum>p\<in>#M. order_to_size (snd p))"
proof (induction M)
  case empty
  then show ?case by (simp add: cover_def)
next
  case (add p M)
  obtain a k where p: "p = (a, k)" by (cases p)
  have "(\<Sum>x<POOL_SIZE. cover (add_mset p M) x) =
      (\<Sum>x<POOL_SIZE. if covers (a, k) x then 1 else 0) + (\<Sum>x<POOL_SIZE. cover M x)"
    unfolding p sum.distrib [symmetric] by (rule sum.cong) simp_all
  then show ?case using add.IH add.prems sum_covers [of a k] by (simp add: p)
qed

lemma tiled_total: "tiled M \<Longrightarrow> (\<Sum>p\<in>#M. order_to_size (snd p)) = POOL_SIZE"
  using sum_cover [of M] tiled_end [of M] by (simp add: tiled_def)

lemma live_total: "(\<Sum>p\<in>#live_blocks ls. order_to_size (snd p)) = (\<Sum>(p, n)\<leftarrow>ls. block_size n)"
  by (induction ls) (auto simp: live_blocks_def block_size_def)

lemma buddy_ok_bytes:
  assumes "buddy_ok (b, ls)"
  shows "unat (allocated_bytes b) = (\<Sum>(p, n)\<leftarrow>ls. block_size n)"
    "unat (allocated_bytes b) + (\<Sum>p\<in>#free_blocks (free_lists b). order_to_size (snd p)) = POOL_SIZE"
proof -
  have t: "(\<Sum>(p, n)\<leftarrow>ls. block_size n) + (\<Sum>p\<in>#free_blocks (free_lists b). order_to_size (snd p)) = POOL_SIZE"
    using assms tiled_total by (fastforce simp: buddy_ok_def pool_tiled_def live_total [symmetric])
  then have "(\<Sum>(p, n)\<leftarrow>ls. block_size n) < 18446744073709551616"
    by (simp add: POOL_SIZE_def MIN_BLOCK_SIZE_def MAX_ORDER_def push_bit_eq_mult)
  then show e: "unat (allocated_bytes b) = (\<Sum>(p, n)\<leftarrow>ls. block_size n)"
    using assms by (simp add: buddy_ok_def unat_of_nat_u64)
  show "unat (allocated_bytes b) + (\<Sum>p\<in>#free_blocks (free_lists b). order_to_size (snd p)) = POOL_SIZE"
    using t e by simp
qed

lemma live_blocks_nth:
  assumes "i < length ls" "j < length ls" "i \<noteq> j"
  shows "\<exists>M. live_blocks ls = add_mset (fst (ls ! i), size_to_order (snd (ls ! i))) M \<and>
    (fst (ls ! j), size_to_order (snd (ls ! j))) \<in># M"
proof -
  define rest where "rest = take i ls @ drop (Suc i) ls"
  have "ls = take i ls @ ls ! i # drop (Suc i) ls" using assms(1) by (rule id_take_nth_drop)
  then have m: "mset ls = add_mset (ls ! i) (mset rest)"
    by (metis rest_def mset_append mset.simps(2) union_mset_add_mset_right)
  have "ls ! j \<in> set rest"
  proof (cases "j < i")
    case True
    then show ?thesis using assms by (auto simp: rest_def in_set_conv_nth intro!: exI [of _ j])
  next
    case False
    then have "ls ! j = drop (Suc i) ls ! (j - Suc i)" "j - Suc i < length (drop (Suc i) ls)" using assms by auto
    then show ?thesis unfolding rest_def by (metis Un_iff nth_mem set_append)
  qed
  then show ?thesis
    by (intro exI [of _ "live_blocks rest"]) (auto simp: live_blocks_def m case_prod_unfold)
qed

lemma mem_pool_blocks:
  "(a, k) \<in># free_blocks fl + M \<longleftrightarrow> k \<le> MAX_ORDER \<and> a \<in> set (fl k) \<or> (a, k) \<in># M"
  by (simp add: mem_free_blocks)

text \<open>
  Coalescing is complete: an aligned range of order \<open>k\<close> none of whose bytes belongs to a live block
  lies in a free block of at least that order. The smallest free block inside the range would
  otherwise have a free buddy.
\<close>

lemma free_range_block:
  assumes t: "tiled (free_blocks fl + M)" and co: "coalesced fl"
    and a: "order_to_size k dvd a" "a + order_to_size k \<le> POOL_SIZE"
    and free: "\<And>x p. covers (a, k) x \<Longrightarrow> p \<in># M \<Longrightarrow> \<not> covers p x"
  shows "\<exists>c j. k \<le> j \<and> j \<le> MAX_ORDER \<and> c \<in> set (fl j)"
proof (rule ccontr)
  assume "\<not> ?thesis"
  then have small: "j < k" if "c \<in> set (fl j)" "j \<le> MAX_ORDER" for c j using that by (meson not_le)
  let ?B = "free_blocks fl + M"
  have "order_to_size k \<le> order_to_size MAX_ORDER" using a(2) by (simp add: POOL_SIZE_eq)
  then have kM: "k \<le> MAX_ORDER" by (simp add: order_to_size_eq)
  have blk: "\<exists>d j. d \<in> set (fl j) \<and> j \<le> MAX_ORDER \<and> covers (d, j) x \<and> order_to_size j dvd d \<and> (d, j) \<in># ?B"
    if x: "covers (a, k) x" for x
  proof -
    have "x < POOL_SIZE" using x a(2) by (simp add: covers_def)
    then obtain p where p: "p \<in># ?B" "covers p x" using tiled_covered [OF t] by blast
    then have "p \<in># free_blocks fl" using free [OF x, of p] by (metis union_iff)
    then show ?thesis using p tiled_aligned [OF t] by (cases p) (auto simp: mem_free_blocks)
  qed
  define S where "S = {j. \<exists>c. c \<in> set (fl j) \<and> j \<le> MAX_ORDER \<and> covers (a, k) c}"
  have "S \<noteq> {}"
  proof -
    obtain d j where d: "d \<in> set (fl j)" "j \<le> MAX_ORDER" "covers (d, j) a" "order_to_size j dvd d"
      using blk [of a] by auto
    have "d div order_to_size k = a div order_to_size k"
      using d small [of d j] covers_div [of j d a] by (intro div_order_mono [of j k]) auto
    then have "covers (a, k) d" using covers_div [OF a(1)] by simp
    then show ?thesis using d by (auto simp: S_def)
  qed
  then have "(LEAST j. j \<in> S) \<in> S" by (meson LeastI ex_in_conv)
  moreover define m where "m = (LEAST j. j \<in> S)"
  ultimately obtain c where c: "c \<in> set (fl m)" "m \<le> MAX_ORDER" "covers (a, k) c" by (auto simp: S_def)
  have cB: "(c, m) \<in># ?B" using c by (simp add: mem_free_blocks)
  have ca: "order_to_size m dvd c" using tiled_aligned [OF t cB] by simp
  have mk: "m < k" using small c by blast
  define e where "e = c XOR order_to_size m"
  have ee: "e div order_to_size (Suc m) = c div order_to_size (Suc m)" "order_to_size m dvd e"
    using buddy_facts(1,2) [OF ca] by (auto simp: e_def)
  have "e div order_to_size k = a div order_to_size k"
    using div_order_mono [OF _ ee(1), of k] mk c(3) covers_div [OF a(1)] by simp
  then have "covers (a, k) e" using covers_div [OF a(1)] by simp
  then obtain d j where d: "d \<in> set (fl j)" "j \<le> MAX_ORDER" "covers (d, j) e" "order_to_size j dvd d" "(d, j) \<in># ?B"
    using blk [of e] by blast
  have ed: "e div order_to_size j = d div order_to_size j" using covers_div d(3,4) by blast
  have "d div order_to_size k = a div order_to_size k"
    using div_order_mono [OF _ ed, of k] small [OF d(1,2)] \<open>e div order_to_size k = a div order_to_size k\<close> by simp
  then have "j \<in> S" using d(1,2) covers_div [OF a(1)] by (auto simp: S_def)
  then have "m \<le> j" unfolding m_def by (rule Least_le)
  show False
  proof (cases "j = m")
    case True
    then have "d = e" using ed ee(2) d(4) by (metis dvd_div_mult_self)
    then show False using co d(1) c(1) mk kM True by (auto simp: coalesced_def e_def)
  next
    case False
    then have "c div order_to_size j = d div order_to_size j"
      using div_order_mono [OF _ ee(1), of j] \<open>m \<le> j\<close> ed by simp
    then have "covers (d, j) c" using covers_div d(4) by blast
    then show False using tiled_unique' [OF t cB d(5), of c] False by simp
  qed
qed

lemmas buddy_eval = buddy_allocate_def buddy_deallocate_def size_to_order_def size_to_order_loop.simps
  find_order.simps split_loop.simps merge_loop.simps MIN_BLOCK_SIZE_def MAX_ORDER_def POOL_SIZE_def order_to_size_def
  Let_def

definition sample_buddy :: BuddyAllocator where
  "sample_buddy = \<lparr>free_lists = (\<lambda>_. [])(MAX_ORDER := [0]), allocated_bytes = 0, split_count = 0, merge_count = 0\<rparr>"

lemma sample_buddy_init: "buddy_init True = Inr sample_buddy"
  by (simp add: buddy_init_def sample_buddy_def)

text \<open>
  C5: every history of allocations and frees keeps the caller's blocks aligned to their size, inside
  the arena, large enough and pairwise disjoint, and \<open>get_allocated_bytes\<close> is the sum of their
  block sizes.
\<close>

theorem buddy_blocks_disjoint:
  assumes "buddy_init True = Inr b0" and "buddy_run cs (b0, []) = Some (b, ls)"
  shows "(\<forall>i<length ls. case ls ! i of (p, n) \<Rightarrow>
           n \<le> block_size n \<and> block_size n dvd p \<and> p + block_size n \<le> POOL_SIZE \<and>
           (\<forall>j<length ls. case ls ! j of (q, m) \<Rightarrow> i \<noteq> j \<longrightarrow> p + block_size n \<le> q \<or> q + block_size m \<le> p)) \<and>
    unat (allocated_bytes b) = (\<Sum>(p, n)\<leftarrow>ls. block_size n)"
proof -
  have ok: "buddy_ok (b, ls)" using buddy_run_ok [OF buddy_init_ok [OF assms(1)] assms(2)] .
  then have t: "tiled (free_blocks (free_lists b) + live_blocks ls)" by (simp add: buddy_ok_def pool_tiled_def)
  have one: "n \<le> block_size n \<and> block_size n dvd p \<and> p + block_size n \<le> POOL_SIZE" if "(p, n) \<in> set ls" for p n
  proof -
    have "(p, size_to_order n) \<in># free_blocks (free_lists b) + live_blocks ls"
      using that by (auto simp: live_blocks_def intro!: image_eqI [of _ _ "(p, n)"])
    moreover have "n \<le> POOL_SIZE" using ok that by (auto simp: buddy_ok_def)
    ultimately show ?thesis using tiled_aligned [OF t] tiled_end [OF t] size_to_order_least
      by (auto simp: block_size_def)
  qed
  have two: "fst (ls ! i) + block_size (snd (ls ! i)) \<le> fst (ls ! j) \<or> fst (ls ! j) + block_size (snd (ls ! j)) \<le> fst (ls ! i)"
    if ij: "i < length ls" "j < length ls" "i \<noteq> j" for i j
  proof -
    let ?p = "(fst (ls ! i), size_to_order (snd (ls ! i)))" and ?q = "(fst (ls ! j), size_to_order (snd (ls ! j)))"
    obtain M where M: "live_blocks ls = add_mset ?p M" "?q \<in># M" using live_blocks_nth [OF ij] by blast
    have "tiled (add_mset ?p (free_blocks (free_lists b) + M))" using t M(1) by simp
    then have "\<not> (covers ?p x \<and> covers ?q x)" for x using tiled_unique M(2) by (meson union_iff)
    from this [of "max (fst (ls ! i)) (fst (ls ! j))"] show ?thesis
      by (auto simp: covers_def block_size_def max_def not_le split: if_splits)
  qed
  have one': "snd (ls ! i) \<le> block_size (snd (ls ! i)) \<and> block_size (snd (ls ! i)) dvd fst (ls ! i) \<and>
      fst (ls ! i) + block_size (snd (ls ! i)) \<le> POOL_SIZE" if "i < length ls" for i
    using that by (intro one) simp
  show ?thesis
    by (rule conjI [OF _ buddy_ok_bytes(1) [OF ok]], unfold split_beta, intro conjI allI impI two) (simp_all add: one')
qed

theorem buddy_blocks_disjoint_witness:
  "case buddy_run [Allocate 5000, Allocate 100, Deallocate 0 5000, Allocate 300000] (sample_buddy, []) of
     Some (b, ls) \<Rightarrow> ls = [(524288, 300000), (8192, 100)] \<and>
       unat (allocated_bytes b) = (\<Sum>(p, n)\<leftarrow>ls. block_size n) \<and>
       fst (ls ! 1) + block_size (snd (ls ! 1)) \<le> fst (ls ! 0)
   | None \<Rightarrow> False"
proof -
  let ?ls = "[(524288, 300000), (8192, 100)] :: live"
  have "map_option snd (buddy_run [Allocate 5000, Allocate 100, Deallocate 0 5000, Allocate 300000] (sample_buddy, []))
      = Some ?ls"
    by (simp add: buddy_eval sample_buddy_def)
  then obtain b where b: "buddy_run [Allocate 5000, Allocate 100, Deallocate 0 5000, Allocate 300000] (sample_buddy, [])
      = Some (b, ?ls)" by auto
  have "fst (?ls ! 1) + block_size (snd (?ls ! 1)) \<le> fst (?ls ! 0) \<or> fst (?ls ! 0) + block_size (snd (?ls ! 0)) \<le> fst (?ls ! 1)"
    "unat (allocated_bytes b) = (\<Sum>(p, n)\<leftarrow>?ls. block_size n)"
    using buddy_blocks_disjoint [OF sample_buddy_init b] by (auto simp: less_Suc_eq)
  then show ?thesis unfolding b by simp
qed

text \<open>
  C21: an allocation is refused only for a size of zero or beyond the arena, or when every aligned
  range of the rounded size contains a byte of a live block: coalescing on every free leaves no
  fragmentation that a buddy allocator could avoid.
\<close>

theorem buddy_allocate_complete:
  assumes "buddy_init True = Inr b0" and "buddy_run cs (b0, []) = Some (b, ls)" and "0 < n" "n \<le> POOL_SIZE"
  shows "fst (buddy_allocate n b) = None \<longleftrightarrow>
    (\<forall>a. block_size n dvd a \<longrightarrow> a + block_size n \<le> POOL_SIZE \<longrightarrow>
      (\<exists>(p, m)\<in>set ls. p < a + block_size n \<and> a < p + block_size m))"
proof
  have ok: "buddy_ok (b, ls)" using buddy_run_ok [OF buddy_init_ok [OF assms(1)] assms(2)] .
  then have t: "tiled (free_blocks (free_lists b) + live_blocks ls)" and co: "coalesced (free_lists b)"
    by (simp_all add: buddy_ok_def pool_tiled_def)
  obtain r b' where al: "buddy_allocate n b = (r, b')" by (metis surj_pair)
  {
    assume "fst (buddy_allocate n b) = None"
    then have none: "\<forall>k\<ge>size_to_order n. k \<le> MAX_ORDER \<longrightarrow> free_lists b k = []"
      using buddy_allocate_cases [OF al] al assms(3,4) by auto
    show "\<forall>a. block_size n dvd a \<longrightarrow> a + block_size n \<le> POOL_SIZE \<longrightarrow>
      (\<exists>(p, m)\<in>set ls. p < a + block_size n \<and> a < p + block_size m)"
    proof (intro allI impI)
      fix a assume a: "block_size n dvd a" "a + block_size n \<le> POOL_SIZE"
      obtain x q where "covers (a, size_to_order n) x" "q \<in># live_blocks ls" "covers q x"
        using free_range_block [OF t co a [unfolded block_size_def]] none by fastforce
      then obtain p m where "(p, m) \<in> set ls" "p < a + block_size n" "a < p + block_size m"
        by (auto simp: live_blocks_def covers_def block_size_def)
      then show "\<exists>(p, m)\<in>set ls. p < a + block_size n \<and> a < p + block_size m" by blast
    qed
  }
  {
    assume r: "\<forall>a. block_size n dvd a \<longrightarrow> a + block_size n \<le> POOL_SIZE \<longrightarrow>
      (\<exists>(p, m)\<in>set ls. p < a + block_size n \<and> a < p + block_size m)"
    show "fst (buddy_allocate n b) = None"
    proof (rule ccontr)
      assume "fst (buddy_allocate n b) \<noteq> None"
      then obtain p where p: "buddy_allocate n b = (Some p, b')" using al by auto
      have ok': "buddy_ok (b', (p, n) # ls)" by (rule buddy_allocate_ok [OF ok p])
      then have t': "tiled (add_mset (p, size_to_order n) (free_blocks (free_lists b') + live_blocks ls))"
        by (simp add: buddy_ok_def pool_tiled_def live_blocks_def)
      then obtain q m where q: "(q, m) \<in> set ls" "q < p + block_size n" "p < q + block_size m"
        using r tiled_aligned [OF t', of p "size_to_order n"] tiled_end [OF t', of p "size_to_order n"]
        by (fastforce simp: block_size_def)
      have "(q, size_to_order m) \<in># free_blocks (free_lists b') + live_blocks ls"
        using q(1) by (auto simp: live_blocks_def intro!: image_eqI [of _ _ "(q, m)"])
      from tiled_unique [OF t' this, of "max p q"] q show False
        by (auto simp: covers_def block_size_def)
    qed
  }
qed

theorem buddy_allocate_complete_witness:
  "case buddy_run [Allocate 600000] (sample_buddy, []) of Some (b, ls) \<Rightarrow>
     fst (buddy_allocate 1 b) = None \<and> ls = [(0, 600000)] \<and> block_size 600000 = POOL_SIZE
   | None \<Rightarrow> False"
proof -
  have "map_option snd (buddy_run [Allocate 600000] (sample_buddy, [])) = Some [(0, 600000)]"
    by (simp add: buddy_eval sample_buddy_def)
  then obtain b where b: "buddy_run [Allocate 600000] (sample_buddy, []) = Some (b, [(0, 600000)])" by auto
  have full: "block_size 600000 = POOL_SIZE" by (simp add: block_size_def buddy_eval)
  have one: "(1 :: nat) \<le> POOL_SIZE" by (simp add: buddy_eval)
  have "fst (buddy_allocate 1 b) = None"
    using buddy_allocate_complete [OF sample_buddy_init b, of 1] one full
      size_to_order_least [of 1 "size_to_order 1"]
    by (auto simp: block_size_def intro: less_le_trans)
  then show ?thesis using b full by simp
qed

text \<open>
  C34: once everything has been freed the arena is one free block of the largest order again,
  whatever the order of the frees.
\<close>

theorem buddy_all_freed:
  assumes "buddy_init True = Inr b0" and "buddy_run cs (b0, []) = Some (b, [])"
  shows "free_lists b = free_lists b0 \<and> allocated_bytes b = 0 \<and> split_count b = merge_count b"
proof -
  have ok: "buddy_ok (b, [])" using buddy_run_ok [OF buddy_init_ok [OF assms(1)] assms(2)] .
  then have t: "tiled (free_blocks (free_lists b) + {#})" and co: "coalesced (free_lists b)"
    and big: "\<forall>k>MAX_ORDER. free_lists b k = []"
    and cnt: "split_count b - merge_count b + 1 = of_nat (size (free_blocks (free_lists b)))"
    by (simp_all add: buddy_ok_def pool_tiled_def live_blocks_def)
  obtain c where c: "(c, MAX_ORDER) \<in># free_blocks (free_lists b)"
    using free_range_block [OF t co, of MAX_ORDER 0] by (auto simp: POOL_SIZE_eq mem_free_blocks)
  have "c = 0" using tiled_end [OF t, of c MAX_ORDER] c by (simp add: POOL_SIZE_eq)
  then obtain M where M: "free_blocks (free_lists b) = add_mset (0, MAX_ORDER) M"
    using c by (meson multi_member_split)
  have "M = {#}"
  proof (rule ccontr)
    assume "M \<noteq> {#}"
    then obtain a k where q: "(a, k) \<in># M" by (metis multiset_nonemptyE surj_pair)
    then have "a < POOL_SIZE" using tiled_bound [OF t, of "(a, k)" a] M by simp
    then show False using tiled_unique [of "(0, MAX_ORDER)" M "(a, k)" a] t q M by (simp add: covers_def POOL_SIZE_eq)
  qed
  have fl: "free_lists b k = (if k = MAX_ORDER then [0] else [])" for k
  proof -
    have "a \<notin> set (free_lists b k)" if "k \<noteq> MAX_ORDER" for a
      using that big mem_free_blocks [of a k "free_lists b"] \<open>M = {#}\<close> M by (cases "k \<le> MAX_ORDER") auto
    then have "k \<noteq> MAX_ORDER \<Longrightarrow> free_lists b k = []" by (cases "free_lists b k") (auto dest: meta_spec)
    moreover have "free_lists b MAX_ORDER = [0]"
      using free_lists_single [of "free_lists b" 0 MAX_ORDER] M \<open>M = {#}\<close> by simp
    ultimately show ?thesis by simp
  qed
  have "b0 = \<lparr>free_lists = (\<lambda>_. [])(MAX_ORDER := [0]), allocated_bytes = 0, split_count = 0, merge_count = 0\<rparr>"
    using assms(1) by (simp add: buddy_init_def)
  then show ?thesis using fl cnt M \<open>M = {#}\<close> ok by (auto simp: fun_eq_iff buddy_ok_def)
qed

theorem buddy_all_freed_witness:
  "case buddy_run [Allocate 5000, Allocate 100, Deallocate 0 5000, Deallocate 8192 100] (sample_buddy, []) of
     Some (b, ls) \<Rightarrow> ls = [] \<and> free_lists b = free_lists sample_buddy \<and> split_count b = merge_count b
   | None \<Rightarrow> False"
proof -
  have "map_option snd (buddy_run [Allocate 5000, Allocate 100, Deallocate 0 5000, Deallocate 8192 100] (sample_buddy, []))
      = Some []"
    by (simp add: buddy_eval sample_buddy_def)
  then obtain b where b: "buddy_run [Allocate 5000, Allocate 100, Deallocate 0 5000, Deallocate 8192 100] (sample_buddy, [])
      = Some (b, [])" by auto
  show ?thesis using buddy_all_freed [OF sample_buddy_init b] unfolding b by simp
qed

end
