(* ===== verification/Slab_Allocator.thy ===== *)
theory Slab_Allocator
  imports Sys_Prelude
begin

text \<open>
  The fixed-size slab allocator of \<open>slab_and_buddy_allocator/slab_allocator.hpp\<close>, on byte-addressed
  memory: a free chunk holds the address of the next free chunk in its first eight bytes, so the
  free list lives in the memory the callers write to. The result of \<open>mmap\<close> is an argument of the
  calls that may grow, and a fresh mapping does not overlap the earlier ones. The type \<open>T\<close> is its
  size and alignment; an object is its bytes.
\<close>

record SlabConfig =
  sizeof_T :: nat
  alignof_T :: nat
  ObjectsPerSlab :: nat

definition OBJECT_SIZE :: "SlabConfig \<Rightarrow> nat" where
  "OBJECT_SIZE c = (if sizeof_T c < 8 then 8 else sizeof_T c)"

definition ALIGNMENT :: "SlabConfig \<Rightarrow> nat" where
  "ALIGNMENT c = (if alignof_T c < 8 then 8 else alignof_T c)"

definition CHUNK_SIZE :: "SlabConfig \<Rightarrow> nat" where
  "CHUNK_SIZE c = unat ((of_nat (OBJECT_SIZE c) + (of_nat (ALIGNMENT c) - 1)) AND NOT (of_nat (ALIGNMENT c) - 1) :: u64)"

definition SLAB_SIZE :: "SlabConfig \<Rightarrow> nat" where
  "SLAB_SIZE c = unat (of_nat (CHUNK_SIZE c) * of_nat (ObjectsPerSlab c) :: u64)"

record SlabAllocator =
  slab_memory :: memory
  free_head :: nat
  slabs :: "nat list"
  active_objects :: u64

definition link_chunk :: "nat \<Rightarrow> SlabAllocator \<Rightarrow> SlabAllocator" where
  "link_chunk node s = s\<lparr>slab_memory := wr64 (slab_memory s) node (of_nat (free_head s)), free_head := node\<rparr>"

definition grow_slab :: "SlabConfig \<Rightarrow> nat option \<Rightarrow> SlabAllocator \<Rightarrow> SlabAllocator" where
  "grow_slab c mapped s =
     (case mapped of None \<Rightarrow> s
      | Some base \<Rightarrow>
          foldl (\<lambda>s i. link_chunk (base + i * CHUNK_SIZE c) s) (s\<lparr>slabs := slabs s @ [base]\<rparr>) [0..<ObjectsPerSlab c])"

definition slab_init :: "SlabConfig \<Rightarrow> memory \<Rightarrow> nat option \<Rightarrow> SlabAllocator" where
  "slab_init c m mapped = grow_slab c mapped \<lparr>slab_memory = m, free_head = 0, slabs = [], active_objects = 0\<rparr>"

definition slab_allocate :: "SlabConfig \<Rightarrow> nat option \<Rightarrow> SlabAllocator \<Rightarrow> nat option \<times> SlabAllocator" where
  "slab_allocate c mapped s =
     (let s1 = (if free_head s = 0 then grow_slab c mapped s else s)
      in if free_head s1 = 0 then (None, s1)
         else (Some (free_head s1),
               s1\<lparr>free_head := unat (rd64 (slab_memory s1) (free_head s1)), active_objects := active_objects s1 + 1\<rparr>))"

definition slab_deallocate :: "nat option \<Rightarrow> SlabAllocator \<Rightarrow> SlabAllocator" where
  "slab_deallocate ptr s =
     (case ptr of None \<Rightarrow> s
      | Some node \<Rightarrow> (link_chunk node s)\<lparr>active_objects := active_objects s - 1\<rparr>)"

definition construct :: "SlabConfig \<Rightarrow> nat option \<Rightarrow> bytes \<Rightarrow> SlabAllocator \<Rightarrow> nat option \<times> SlabAllocator" where
  "construct c mapped obj s =
     (case slab_allocate c mapped s of
        (None, s1) \<Rightarrow> (None, s1)
      | (Some p, s1) \<Rightarrow> (Some p, s1\<lparr>slab_memory := mem_write (slab_memory s1) p obj\<rparr>))"

definition destroy :: "nat option \<Rightarrow> bytes \<Rightarrow> SlabAllocator \<Rightarrow> SlabAllocator" where
  "destroy ptr dead s =
     (case ptr of None \<Rightarrow> s
      | Some p \<Rightarrow> slab_deallocate (Some p) (s\<lparr>slab_memory := mem_write (slab_memory s) p dead\<rparr>))"

definition get_total_capacity :: "SlabConfig \<Rightarrow> SlabAllocator \<Rightarrow> nat" where
  "get_total_capacity c s = length (slabs s) * ObjectsPerSlab c"

subsection \<open>Chunks\<close>

definition config_ok :: "SlabConfig \<Rightarrow> bool" where
  "config_ok c \<longleftrightarrow> (\<exists>k\<le>12. alignof_T c = 2 ^ k) \<and> 0 < ObjectsPerSlab c \<and>
     (sizeof_T c + 4096) * ObjectsPerSlab c < 2 ^ 63"

lemma ALIGNMENT_pow2:
  assumes "config_ok c"
  shows "\<exists>k. 3 \<le> k \<and> k \<le> 12 \<and> ALIGNMENT c = 2 ^ k"
proof -
  obtain k where k: "k \<le> 12" "alignof_T c = 2 ^ k" using assms by (auto simp: config_ok_def)
  show ?thesis
  proof (cases "k < 3")
    case True
    then have "(2::nat) ^ k < 2 ^ 3" by (rule power_strict_increasing) simp
    then show ?thesis using k by (intro exI [of _ 3]) (simp add: ALIGNMENT_def)
  next
    case False
    then have "(2::nat) ^ 3 \<le> 2 ^ k" by (intro power_increasing) simp_all
    then show ?thesis using k False by (intro exI [of _ k]) (simp add: ALIGNMENT_def)
  qed
qed

lemma CHUNK_SIZE_facts:
  assumes "config_ok c"
  shows "sizeof_T c \<le> CHUNK_SIZE c" "8 \<le> CHUNK_SIZE c" "ALIGNMENT c dvd CHUNK_SIZE c" "ALIGNMENT c dvd 4096"
    "CHUNK_SIZE c * ObjectsPerSlab c < 2 ^ 63" "SLAB_SIZE c = CHUNK_SIZE c * ObjectsPerSlab c"
proof -
  obtain k where k: "3 \<le> k" "k \<le> 12" "ALIGNMENT c = 2 ^ k" using ALIGNMENT_pow2 [OF assms] by blast
  define a where "a = ALIGNMENT c"
  define x where "x = OBJECT_SIZE c"
  have a4: "a dvd 4096" using le_imp_power_dvd [OF k(2), of "2::nat"] by (simp add: a_def k)
  have a: "0 < a" "a \<le> 4096" "8 \<le> a" using a4 power_increasing [OF k(1), of "2::nat"]
    by (auto simp: a_def k dest: dvd_imp_le)
  have n: "0 < ObjectsPerSlab c" "(sizeof_T c + 4096) * ObjectsPerSlab c < 2 ^ 63"
    using assms by (auto simp: config_ok_def)
  have "sizeof_T c + 4096 \<le> (sizeof_T c + 4096) * ObjectsPerSlab c" using n(1) by simp
  then have sz: "sizeof_T c + 4096 < 2 ^ 63" using n(2) by (rule le_less_trans)
  have x: "sizeof_T c \<le> x" "8 \<le> x" "x \<le> sizeof_T c + 8" by (auto simp: x_def OBJECT_SIZE_def)
  have ux: "unat (of_nat x :: u64) = x" using x(3) sz by (intro unat_of_nat_u64) simp
  have "CHUNK_SIZE c = unat ((of_nat x + (2 ^ k - 1)) AND NOT (2 ^ k - 1) :: u64)"
    by (simp add: CHUNK_SIZE_def x_def k(3))
  also have "\<dots> = a * ((x + a - 1) div a)"
    using k(2) x(3) sz a(2) unat_align_up [of k "of_nat x :: u64"] by (simp add: ux a_def k(3))
  finally have ch: "CHUNK_SIZE c = a * ((x + a - 1) div a)" .
  have up: "x \<le> a * ((x + a - 1) div a)" "a * ((x + a - 1) div a) \<le> x + a - 1"
    using dividend_less_times_div [OF a(1), of "x + a - 1"] by auto
  have up2: "CHUNK_SIZE c \<le> sizeof_T c + 4096"
  proof (cases "sizeof_T c < 8")
    case True
    then have "x = 8" by (simp add: x_def OBJECT_SIZE_def)
    then have "(x + a - 1) div a = 1" using a(3) by (intro div_nat_eqI) auto
    then show ?thesis using a by (simp add: ch)
  next
    case False
    then have "x = sizeof_T c" by (simp add: x_def OBJECT_SIZE_def)
    then show ?thesis using up(2) a(2) unfolding ch by linarith
  qed
  show "sizeof_T c \<le> CHUNK_SIZE c" "8 \<le> CHUNK_SIZE c" using up(1) x by (simp_all add: ch)
  show "ALIGNMENT c dvd CHUNK_SIZE c" by (simp add: ch a_def [symmetric])
  show "ALIGNMENT c dvd 4096" using a4 by (simp add: a_def)
  show m: "CHUNK_SIZE c * ObjectsPerSlab c < 2 ^ 63"
    using up2 n(2) by (meson le_less_trans mult_le_mono1)
  have "SLAB_SIZE c = unat (of_nat (CHUNK_SIZE c * ObjectsPerSlab c) :: u64)" by (simp add: SLAB_SIZE_def)
  also have "\<dots> = CHUNK_SIZE c * ObjectsPerSlab c" using m by (intro unat_of_nat_u64) simp
  finally show "SLAB_SIZE c = CHUNK_SIZE c * ObjectsPerSlab c" .
qed

definition chunks :: "SlabConfig \<Rightarrow> nat list \<Rightarrow> nat set" where
  "chunks c ss = {b + i * CHUNK_SIZE c | b i. b \<in> set ss \<and> i < ObjectsPerSlab c}"

text \<open>What \<open>mmap\<close> promises: a page-aligned address range that overlaps no earlier mapping.\<close>

definition fresh_map :: "SlabConfig \<Rightarrow> nat list \<Rightarrow> nat \<Rightarrow> bool" where
  "fresh_map c ss b \<longleftrightarrow> 0 < b \<and> 4096 dvd b \<and> b + SLAB_SIZE c < 2 ^ 64 \<and>
     (\<forall>a\<in>set ss. a + SLAB_SIZE c \<le> b \<or> b + SLAB_SIZE c \<le> a)"

fun slabs_ok :: "SlabConfig \<Rightarrow> nat list \<Rightarrow> bool" where
  "slabs_ok c [] = True"
| "slabs_ok c (b # ss) = (fresh_map c ss b \<and> slabs_ok c ss)"

lemma chunk_in_slab:
  assumes "config_ok c" "i < ObjectsPerSlab c"
  shows "i * CHUNK_SIZE c + CHUNK_SIZE c \<le> SLAB_SIZE c"
proof -
  have "Suc i * CHUNK_SIZE c \<le> ObjectsPerSlab c * CHUNK_SIZE c" using assms(2) by (intro mult_le_mono1) simp
  then show ?thesis using CHUNK_SIZE_facts(6) [OF assms(1)] by (simp add: mult.commute)
qed

lemma chunks_Cons: "chunks c (b # ss) = (\<lambda>i. b + i * CHUNK_SIZE c) ` {..<ObjectsPerSlab c} \<union> chunks c ss"
  by (auto simp: chunks_def)

lemma chunks_apart_slab:
  assumes "config_ok c" "i \<noteq> j"
  shows "b + i * CHUNK_SIZE c + CHUNK_SIZE c \<le> b + j * CHUNK_SIZE c \<or> b + j * CHUNK_SIZE c + CHUNK_SIZE c \<le> b + i * CHUNK_SIZE c"
proof -
  have "Suc i \<le> j \<or> Suc j \<le> i" using assms(2) by arith
  then have "Suc i * CHUNK_SIZE c \<le> j * CHUNK_SIZE c \<or> Suc j * CHUNK_SIZE c \<le> i * CHUNK_SIZE c"
    by (meson mult_le_mono1)
  then show ?thesis by auto
qed

lemma fresh_chunks_apart:
  assumes "config_ok c" "fresh_map c ss b" "i < ObjectsPerSlab c" "q \<in> chunks c ss"
  shows "b + i * CHUNK_SIZE c + CHUNK_SIZE c \<le> q \<or> q + CHUNK_SIZE c \<le> b + i * CHUNK_SIZE c"
proof -
  obtain a j where q: "q = a + j * CHUNK_SIZE c" "a \<in> set ss" "j < ObjectsPerSlab c"
    using assms(4) by (auto simp: chunks_def)
  then have "a + SLAB_SIZE c \<le> b \<or> b + SLAB_SIZE c \<le> a" using assms(2) by (auto simp: fresh_map_def)
  then show ?thesis using chunk_in_slab [OF assms(1,3)] chunk_in_slab [OF assms(1) q(3)] q(1) by auto
qed

lemma chunks_apart:
  assumes "config_ok c"
  shows "slabs_ok c ss \<Longrightarrow> p \<in> chunks c ss \<Longrightarrow> q \<in> chunks c ss \<Longrightarrow> p \<noteq> q \<Longrightarrow>
    p + CHUNK_SIZE c \<le> q \<or> q + CHUNK_SIZE c \<le> p"
proof (induction ss)
  case Nil
  then show ?case by (simp add: chunks_def)
next
  case (Cons b ss)
  have f: "fresh_map c ss b" "slabs_ok c ss" using Cons.prems(1) by simp_all
  consider (both) i j where "p = b + i * CHUNK_SIZE c" "q = b + j * CHUNK_SIZE c"
    | (left) i where "i < ObjectsPerSlab c" "p = b + i * CHUNK_SIZE c" "q \<in> chunks c ss"
    | (right) i where "i < ObjectsPerSlab c" "q = b + i * CHUNK_SIZE c" "p \<in> chunks c ss"
    | (old) "p \<in> chunks c ss" "q \<in> chunks c ss"
    using Cons.prems(2,3) by (auto simp: chunks_Cons)
  then show ?case
  proof cases
    case both
    then have "i \<noteq> j" using Cons.prems(4) by auto
    then show ?thesis using chunks_apart_slab [OF assms, of i j b] both by simp
  next
    case left
    then show ?thesis using fresh_chunks_apart [OF assms f(1)] by blast
  next
    case right
    then show ?thesis using fresh_chunks_apart [OF assms f(1)] by blast
  next
    case old
    then show ?thesis using Cons.IH f(2) Cons.prems(4) by blast
  qed
qed

lemma chunk_facts:
  assumes "config_ok c"
  shows "slabs_ok c ss \<Longrightarrow> p \<in> chunks c ss \<Longrightarrow> 0 < p \<and> p < 2 ^ 64 \<and> ALIGNMENT c dvd p"
proof (induction ss)
  case Nil
  then show ?case by (simp add: chunks_def)
next
  case (Cons b ss)
  show ?case
  proof (cases "p \<in> chunks c ss")
    case False
    then obtain i where p: "i < ObjectsPerSlab c" "p = b + i * CHUNK_SIZE c"
      using Cons.prems(2) by (auto simp: chunks_Cons)
    have "0 < b" "4096 dvd b" "b + SLAB_SIZE c < 2 ^ 64" using Cons.prems(1) by (simp_all add: fresh_map_def)
    moreover have "ALIGNMENT c dvd b" using CHUNK_SIZE_facts(4) [OF assms] \<open>4096 dvd b\<close> by (rule dvd_trans)
    ultimately show ?thesis using p chunk_in_slab [OF assms p(1)] CHUNK_SIZE_facts(3) [OF assms] by auto
  qed (use Cons in simp)
qed

lemma chunks_rev [simp]: "chunks c (rev ss) = chunks c ss"
  by (simp add: chunks_def)

lemma chunks_snoc: "chunks c (ss @ [b]) = chunks c (b # ss)"
  by (simp add: chunks_def)

lemma finite_chunks [simp]: "finite (chunks c ss)"
proof -
  have "chunks c ss = (\<lambda>(b, i). b + i * CHUNK_SIZE c) ` (set ss \<times> {..<ObjectsPerSlab c})"
    by (auto simp: chunks_def image_iff)
  then show ?thesis by simp
qed

lemma card_chunks:
  assumes "config_ok c"
  shows "slabs_ok c ss \<Longrightarrow> card (chunks c ss) = length ss * ObjectsPerSlab c"
proof (induction ss)
  case Nil
  then show ?case by (simp add: chunks_def)
next
  case (Cons b ss)
  let ?new = "(\<lambda>i. b + i * CHUNK_SIZE c) ` {..<ObjectsPerSlab c}"
  have pos: "0 < CHUNK_SIZE c" using CHUNK_SIZE_facts(2) [OF assms] by simp
  then have "card ?new = ObjectsPerSlab c" by (subst card_image) (auto intro!: inj_onI)
  moreover have "?new \<inter> chunks c ss = {}"
    using fresh_chunks_apart [OF assms, of ss b] Cons.prems pos by fastforce
  ultimately show ?case using Cons by (simp add: chunks_Cons card_Un_disjoint)
qed

subsection \<open>The intrusive free list\<close>

fun chain :: "memory \<Rightarrow> nat \<Rightarrow> nat list \<Rightarrow> bool" where
  "chain m h [] = (h = 0)"
| "chain m h (x # xs) = (h = x \<and> 0 < x \<and> chain m (unat (rd64 m x)) xs)"

lemma chain_frame:
  "(\<And>x. x \<in> set xs \<Longrightarrow> rd64 m' x = rd64 m x) \<Longrightarrow> chain m h xs \<Longrightarrow> chain m' h xs"
  by (induction xs arbitrary: h) auto

lemma chain_write:
  assumes "chain m h fs" "\<And>x. x \<in> set fs \<Longrightarrow> x + 8 \<le> a \<or> a + length bs \<le> x"
  shows "chain (mem_write m a bs) h fs"
  using assms by (intro chain_frame [OF _ assms(1)] rd64_disjoint) auto

definition slab_inv :: "SlabConfig \<Rightarrow> SlabAllocator \<Rightarrow> nat list \<Rightarrow> nat set \<Rightarrow> bool" where
  "slab_inv c s fs live \<longleftrightarrow>
     chain (slab_memory s) (free_head s) fs \<and> distinct fs \<and> set fs \<inter> live = {} \<and>
     set fs \<union> live = chunks c (slabs s) \<and> slabs_ok c (rev (slabs s)) \<and> free_head s < 2 ^ 64 \<and>
     active_objects s = of_nat (card live)"

lemma link_chunk_chain:
  assumes "chain (slab_memory s) (free_head s) fs" "free_head s < 2 ^ 64" "0 < p"
    and "\<And>x. x \<in> set fs \<Longrightarrow> x + 8 \<le> p \<or> p + 8 \<le> x"
  shows "chain (slab_memory (link_chunk p s)) (free_head (link_chunk p s)) (p # fs)"
  using assms chain_write [OF assms(1), of p "le_bytes 8 (unat (of_nat (free_head s) :: u64))"]
  by (simp add: link_chunk_def unat_of_nat_u64) (simp add: wr64_def unat_of_nat_u64)

lemma link_chunk_frame:
  assumes "a + n \<le> p \<or> p + 8 \<le> a"
  shows "mem_read (slab_memory (link_chunk p s)) a n = mem_read (slab_memory s) a n"
  using assms by (simp add: link_chunk_def wr64_def mem_read_write_disjoint)

lemma grow_loop:
  assumes c: "config_ok c" and f: "fresh_map c ss b" and ss: "slabs_ok c ss"
    and ch: "chain (slab_memory s) (free_head s) fs" "set fs \<subseteq> chunks c ss" "free_head s < 2 ^ 64"
  shows "n \<le> ObjectsPerSlab c \<Longrightarrow>
    s' = foldl (\<lambda>s i. link_chunk (b + i * CHUNK_SIZE c) s) s [0..<n] \<Longrightarrow>
    chain (slab_memory s') (free_head s') (rev (map (\<lambda>i. b + i * CHUNK_SIZE c) [0..<n]) @ fs) \<and>
    free_head s' < 2 ^ 64 \<and> slabs s' = slabs s \<and> active_objects s' = active_objects s \<and>
    (\<forall>q\<in>chunks c ss. mem_read (slab_memory s') q (CHUNK_SIZE c) = mem_read (slab_memory s) q (CHUNK_SIZE c))"
proof (induction n arbitrary: s')
  case 0
  then show ?case using ch by simp
next
  case (Suc n)
  define p where "p = b + n * CHUNK_SIZE c"
  define s1 where "s1 = foldl (\<lambda>s i. link_chunk (b + i * CHUNK_SIZE c) s) s [0..<n]"
  define dn where "dn = rev (map (\<lambda>i. b + i * CHUNK_SIZE c) [0..<n]) @ fs"
  have n: "n < ObjectsPerSlab c" using Suc.prems(1) by simp
  have s': "s' = link_chunk p s1" using Suc.prems(2) by (simp add: s1_def p_def)
  note IH = Suc.IH [OF less_imp_le [OF n] s1_def, folded dn_def]
  have "p \<in> chunks c (b # ss)" using n by (auto simp: chunks_Cons p_def)
  then have p: "0 < p" "p < 2 ^ 64" using chunk_facts [OF c, of "b # ss" p] f ss by simp_all
  have ap: "x + 8 \<le> p \<or> p + 8 \<le> x" if "x \<in> set dn" for x
  proof -
    have x: "x \<in> chunks c (b # ss)" using that n ch(2) by (auto simp: dn_def chunks_Cons)
    have "x \<noteq> p"
    proof
      assume "x = p"
      moreover have "p \<notin> chunks c ss" using fresh_chunks_apart [OF c f n] CHUNK_SIZE_facts(2) [OF c] by (fastforce simp: p_def)
      ultimately show False using that ch(2) CHUNK_SIZE_facts(2) [OF c] by (auto simp: dn_def p_def)
    qed
    then show ?thesis
      using chunks_apart [OF c _ x \<open>p \<in> chunks c (b # ss)\<close>] f ss CHUNK_SIZE_facts(2) [OF c] by auto
  qed
  have "chain (slab_memory s') (free_head s') (p # dn)"
    unfolding s' using IH p(1) ap by (intro link_chunk_chain) auto
  moreover have "mem_read (slab_memory s') q (CHUNK_SIZE c) = mem_read (slab_memory s1) q (CHUNK_SIZE c)"
    if "q \<in> chunks c ss" for q
    unfolding s' using fresh_chunks_apart [OF c f n that] CHUNK_SIZE_facts(2) [OF c]
    by (intro link_chunk_frame) (auto simp: p_def)
  ultimately show ?case using IH p(2) by (simp add: s' link_chunk_def dn_def p_def)
qed

lemma grow_slab_inv:
  assumes c: "config_ok c" and inv: "slab_inv c s fs live" and f: "fresh_map c (slabs s) b"
  shows "slab_inv c (grow_slab c (Some b) s) (rev (map (\<lambda>i. b + i * CHUNK_SIZE c) [0..<ObjectsPerSlab c]) @ fs) live \<and>
    (\<forall>q\<in>live. mem_read (slab_memory (grow_slab c (Some b) s)) q (CHUNK_SIZE c) = mem_read (slab_memory s) q (CHUNK_SIZE c))"
proof -
  let ?ss = "rev (slabs s)" and ?new = "rev (map (\<lambda>i. b + i * CHUNK_SIZE c) [0..<ObjectsPerSlab c])"
  let ?s0 = "s\<lparr>slabs := slabs s @ [b]\<rparr>"
  define s' where "s' = grow_slab c (Some b) s"
  have f': "fresh_map c ?ss b" using f by (simp add: fresh_map_def)
  have i: "chain (slab_memory ?s0) (free_head ?s0) fs" "set fs \<subseteq> chunks c ?ss" "slabs_ok c ?ss" "free_head ?s0 < 2 ^ 64"
    "distinct fs" "set fs \<inter> live = {}" "set fs \<union> live = chunks c ?ss"
    using inv by (auto simp: slab_inv_def)
  have s': "s' = foldl (\<lambda>s i. link_chunk (b + i * CHUNK_SIZE c) s) ?s0 [0..<ObjectsPerSlab c]"
    by (simp add: s'_def grow_slab_def)
  note g = grow_loop [OF c f' i(3,1,2,4) order_refl s']
  have pos: "0 < CHUNK_SIZE c" using CHUNK_SIZE_facts(2) [OF c] by simp
  then have "distinct ?new" by (auto simp: distinct_map intro!: inj_onI)
  moreover have "set ?new \<inter> chunks c ?ss = {}"
    using fresh_chunks_apart [OF c f'] pos by fastforce
  ultimately have "distinct (?new @ fs)" "set (?new @ fs) \<inter> live = {}"
    using i(5-7) by auto
  moreover have "set (?new @ fs) \<union> live = chunks c (slabs s')"
    using g i(7) by (auto simp: chunks_snoc chunks_Cons)
  ultimately show ?thesis unfolding s'_def [symmetric]
    using g i(3,7) f' inv by (auto simp: slab_inv_def)
qed

subsection \<open>Histories of calls\<close>

text \<open>
  \<open>cells\<close> is the callers' view: the pointers they hold, each with the bytes of its chunk. A caller
  writes inside the chunks it holds and frees only those; an object has \<open>sizeof_T\<close> bytes. Anything
  else is outside the contract and the run is \<open>None\<close>.
\<close>

datatype slab_op =
  Allocate "nat option" | Deallocate nat | Construct "nat option" bytes | Destroy nat bytes | ClientWrite nat nat bytes

definition map_ok :: "SlabConfig \<Rightarrow> nat option \<Rightarrow> SlabAllocator \<Rightarrow> bool" where
  "map_ok c mapped s \<longleftrightarrow> (case mapped of None \<Rightarrow> True | Some b \<Rightarrow> free_head s = 0 \<longrightarrow> fresh_map c (slabs s) b)"

definition overwrite :: "nat \<Rightarrow> bytes \<Rightarrow> bytes \<Rightarrow> bytes" where
  "overwrite off new old = take off old @ new @ drop (off + length new) old"

type_synonym slab_view = "SlabAllocator \<times> (nat \<rightharpoonup> bytes)"

fun slab_step :: "SlabConfig \<Rightarrow> slab_op \<Rightarrow> slab_view \<Rightarrow> slab_view option" where
  "slab_step c (Allocate mapped) (s, cells) =
     (if \<not> map_ok c mapped s then None
      else case slab_allocate c mapped s of (None, s') \<Rightarrow> Some (s', cells)
      | (Some p, s') \<Rightarrow> Some (s', cells(p \<mapsto> mem_read (slab_memory s') p (CHUNK_SIZE c))))"
| "slab_step c (Deallocate p) (s, cells) =
     (if p \<notin> dom cells then None else Some (slab_deallocate (Some p) s, cells(p := None)))"
| "slab_step c (Construct mapped obj) (s, cells) =
     (if \<not> map_ok c mapped s \<or> length obj \<noteq> sizeof_T c then None
      else case construct c mapped obj s of (None, s') \<Rightarrow> Some (s', cells)
      | (Some p, s') \<Rightarrow> Some (s', cells(p \<mapsto> overwrite 0 obj (mem_read (slab_memory s') p (CHUNK_SIZE c)))))"
| "slab_step c (Destroy p dead) (s, cells) =
     (if p \<notin> dom cells \<or> length dead \<noteq> sizeof_T c then None else Some (destroy (Some p) dead s, cells(p := None)))"
| "slab_step c (ClientWrite p off bs) (s, cells) =
     (case cells p of None \<Rightarrow> None
      | Some old \<Rightarrow> if off + length bs > CHUNK_SIZE c then None
          else Some (s\<lparr>slab_memory := mem_write (slab_memory s) (p + off) bs\<rparr>, cells(p \<mapsto> overwrite off bs old)))"

fun slab_run :: "SlabConfig \<Rightarrow> slab_op list \<Rightarrow> slab_view \<Rightarrow> slab_view option" where
  "slab_run c [] v = Some v"
| "slab_run c (x # xs) v = (case slab_step c x v of None \<Rightarrow> None | Some v' \<Rightarrow> slab_run c xs v')"

definition slab_ok :: "SlabConfig \<Rightarrow> slab_view \<Rightarrow> bool" where
  "slab_ok c v \<longleftrightarrow> (\<exists>fs. slab_inv c (fst v) fs (dom (snd v))) \<and>
     (\<forall>p bs. snd v p = Some bs \<longrightarrow> mem_read (slab_memory (fst v)) p (CHUNK_SIZE c) = bs)"

lemma mem_read_overwrite:
  assumes "off + length bs \<le> n"
  shows "mem_read (mem_write m (p + off) bs) p n = overwrite off bs (mem_read m p n)"
  using assms by (intro nth_equalityI) (auto simp: overwrite_def mem_write_def nth_append mem_read_def)

lemma slab_inv_live:
  assumes c: "config_ok c" and inv: "slab_inv c s fs live" and p: "p \<in> live" and q: "q \<in> set fs \<union> live" "q \<noteq> p"
  shows "p + CHUNK_SIZE c \<le> q \<or> q + CHUNK_SIZE c \<le> p"
proof -
  have "slabs_ok c (rev (slabs s))" "p \<in> chunks c (rev (slabs s))" "q \<in> chunks c (rev (slabs s))"
    using inv p q by (auto simp: slab_inv_def)
  then show ?thesis using chunks_apart [OF c] q(2) by blast
qed

lemma client_write_ok:
  assumes c: "config_ok c" and ok: "slab_ok c (s, cells)" and p: "cells p = Some old" and b: "off + length bs \<le> CHUNK_SIZE c"
  shows "slab_ok c (s\<lparr>slab_memory := mem_write (slab_memory s) (p + off) bs\<rparr>, cells(p \<mapsto> overwrite off bs old))"
proof -
  obtain fs where inv: "slab_inv c s fs (dom cells)"
    and ct: "\<And>q b. cells q = Some b \<Longrightarrow> mem_read (slab_memory s) q (CHUNK_SIZE c) = b"
    using ok by (auto simp: slab_ok_def)
  have d: "p \<in> dom cells" "dom (cells(p \<mapsto> overwrite off bs old)) = dom cells" using p by auto
  have "chain (mem_write (slab_memory s) (p + off) bs) (free_head s) fs"
  proof (rule chain_write)
    show "chain (slab_memory s) (free_head s) fs" using inv by (simp add: slab_inv_def)
    fix x assume "x \<in> set fs"
    then have "p + CHUNK_SIZE c \<le> x \<or> x + CHUNK_SIZE c \<le> p"
      using slab_inv_live [OF c inv d(1), of x] inv d(1) by (auto simp: slab_inv_def)
    then show "x + 8 \<le> p + off \<or> p + off + length bs \<le> x" using b CHUNK_SIZE_facts(2) [OF c] by auto
  qed
  moreover have "mem_read (mem_write (slab_memory s) (p + off) bs) q (CHUNK_SIZE c) = b'"
    if q: "(cells(p \<mapsto> overwrite off bs old)) q = Some b'" for q b'
  proof (cases "q = p")
    case True
    then show ?thesis using q ct [OF p] mem_read_overwrite [OF b] by simp
  next
    case False
    then have "p + CHUNK_SIZE c \<le> q \<or> q + CHUNK_SIZE c \<le> p"
      using slab_inv_live [OF c inv d(1), of q] q by auto
    then have "mem_read (mem_write (slab_memory s) (p + off) bs) q (CHUNK_SIZE c) = mem_read (slab_memory s) q (CHUNK_SIZE c)"
      using b by (intro mem_read_write_disjoint) auto
    then show ?thesis using q False ct by simp
  qed
  ultimately show ?thesis using inv d(2) by (auto simp: slab_ok_def slab_inv_def simp del: dom_fun_upd)
qed

lemma deallocate_ok:
  assumes c: "config_ok c" and ok: "slab_ok c (s, cells)" and p: "p \<in> dom cells"
  shows "slab_ok c (slab_deallocate (Some p) s, cells(p := None))"
proof -
  obtain fs where inv: "slab_inv c s fs (dom cells)"
    and ct: "\<And>q b. cells q = Some b \<Longrightarrow> mem_read (slab_memory s) q (CHUNK_SIZE c) = b"
    using ok by (auto simp: slab_ok_def)
  let ?s = "slab_deallocate (Some p) s"
  have pc: "p \<in> chunks c (rev (slabs s))" "slabs_ok c (rev (slabs s))" "p \<notin> set fs" using inv p by (auto simp: slab_inv_def)
  have ap: "p + CHUNK_SIZE c \<le> x \<or> x + CHUNK_SIZE c \<le> p" if "x \<in> set fs \<union> dom cells" "x \<noteq> p" for x
    using slab_inv_live [OF c inv p that] .
  have "finite (dom cells)" using inv finite_chunks [of c "slabs s"] unfolding slab_inv_def by (metis finite_Un)
  then have cd: "card (dom cells) = Suc (card (dom cells - {p}))" using p by (simp only: card_Suc_Diff1)
  have "active_objects ?s = of_nat (card (dom cells)) - 1" using inv by (simp add: slab_deallocate_def slab_inv_def)
  then have "active_objects ?s = of_nat (card (dom cells - {p}))" unfolding cd by simp
  moreover have "chain (slab_memory ?s) (free_head ?s) (p # fs)"
    using link_chunk_chain [of s fs p] inv chunk_facts [OF c pc(2,1)] ap pc(3) CHUNK_SIZE_facts(2) [OF c]
    by (fastforce simp: slab_deallocate_def slab_inv_def)
  moreover have "mem_read (slab_memory ?s) q (CHUNK_SIZE c) = b'" if q: "(cells(p := None)) q = Some b'" for q b'
  proof -
    have nq: "q \<noteq> p" "cells q = Some b'" using q by (auto split: if_splits)
    then have "q \<in> set fs \<union> dom cells" by auto
    from ap [OF this nq(1)] have "mem_read (slab_memory (link_chunk p s)) q (CHUNK_SIZE c) = mem_read (slab_memory s) q (CHUNK_SIZE c)"
      using CHUNK_SIZE_facts(2) [OF c] by (intro link_chunk_frame) auto
    then show ?thesis using ct nq by (simp add: slab_deallocate_def)
  qed
  moreover have "set (p # fs) \<union> (dom cells - {p}) = chunks c (slabs s)" using inv p by (auto simp: slab_inv_def)
  moreover have "free_head ?s < 2 ^ 64" "slabs ?s = slabs s"
    using chunk_facts [OF c pc(2,1)] by (simp_all add: slab_deallocate_def link_chunk_def)
  ultimately have "slab_inv c ?s (p # fs) (dom cells - {p})"
    using inv pc(3) unfolding slab_inv_def by auto
  then show ?thesis using \<open>\<And>q b'. (cells(p := None)) q = Some b' \<Longrightarrow> mem_read (slab_memory ?s) q (CHUNK_SIZE c) = b'\<close>
    by (auto simp: slab_ok_def)
qed

lemma grow_if_empty_ok:
  assumes c: "config_ok c" and ok: "slab_ok c (s, cells)" and m: "map_ok c mapped s"
    and s1: "s1 = (if free_head s = 0 then grow_slab c mapped s else s)"
  shows "slab_ok c (s1, cells) \<and>
    (free_head s1 = 0 \<longrightarrow> mapped = None \<and> s1 = s \<and> dom cells = chunks c (slabs s))"
proof -
  obtain fs where inv: "slab_inv c s fs (dom cells)"
    and ct: "\<And>q b. cells q = Some b \<Longrightarrow> mem_read (slab_memory s) q (CHUNK_SIZE c) = b"
    using ok by (auto simp: slab_ok_def)
  show ?thesis
  proof (cases "free_head s = 0 \<and> mapped \<noteq> None")
    case True
    then obtain b where b: "mapped = Some b" "fresh_map c (slabs s) b" using m by (auto simp: map_ok_def)
    let ?fs = "rev (map (\<lambda>i. b + i * CHUNK_SIZE c) [0..<ObjectsPerSlab c]) @ fs"
    have g: "slab_inv c s1 ?fs (dom cells)" "\<forall>q\<in>dom cells. mem_read (slab_memory s1) q (CHUNK_SIZE c) = mem_read (slab_memory s) q (CHUNK_SIZE c)"
      using grow_slab_inv [OF c inv b(2)] s1 b(1) True by simp_all
    have "?fs \<noteq> []" using c by (simp add: config_ok_def)
    then have "free_head s1 \<noteq> 0" using g(1) by (cases ?fs) (auto simp: slab_inv_def)
    then show ?thesis using g ct by (auto simp: slab_ok_def)
  next
    case False
    then have "s1 = s" using s1 by (auto simp: grow_slab_def)
    moreover have "free_head s = 0 \<Longrightarrow> fs = []" using inv by (cases fs) (auto simp: slab_inv_def)
    ultimately show ?thesis using False ok inv by (auto simp: slab_inv_def)
  qed
qed

lemma slab_allocate_ok:
  assumes c: "config_ok c" and ok: "slab_ok c (s, cells)" and m: "map_ok c mapped s" and al: "slab_allocate c mapped s = (r, s')"
  shows "case r of None \<Rightarrow> s' = s \<and> mapped = None \<and> dom cells = chunks c (slabs s)
    | Some p \<Rightarrow> slab_ok c (s', cells(p \<mapsto> mem_read (slab_memory s') p (CHUNK_SIZE c)))"
proof -
  define s1 where "s1 = (if free_head s = 0 then grow_slab c mapped s else s)"
  have g: "slab_ok c (s1, cells)" "free_head s1 = 0 \<longrightarrow> mapped = None \<and> s1 = s \<and> dom cells = chunks c (slabs s)"
    using grow_if_empty_ok [OF c ok m s1_def] by simp_all
  have e: "slab_allocate c mapped s = (if free_head s1 = 0 then (None, s1) else (Some (free_head s1),
      s1\<lparr>free_head := unat (rd64 (slab_memory s1) (free_head s1)), active_objects := active_objects s1 + 1\<rparr>))"
    by (simp add: slab_allocate_def s1_def Let_def)
  show ?thesis
  proof (cases "free_head s1 = 0")
    case True
    then show ?thesis using al g(2) unfolding e by auto
  next
    case False
    define p where "p = free_head s1"
    have r: "r = Some p" "s' = s1\<lparr>free_head := unat (rd64 (slab_memory s1) p), active_objects := active_objects s1 + 1\<rparr>"
      using al False unfolding e by (auto simp: p_def)
    obtain fs where inv: "slab_inv c s1 fs (dom cells)"
      and ct: "\<And>q b. cells q = Some b \<Longrightarrow> mem_read (slab_memory s1) q (CHUNK_SIZE c) = b"
      using g(1) by (auto simp: slab_ok_def)
    obtain fs' where fs: "fs = p # fs'" using inv False by (cases fs) (auto simp: slab_inv_def p_def)
    have "p \<notin> dom cells" using inv fs by (auto simp: slab_inv_def)
    moreover have "finite (dom cells)" using inv finite_chunks [of c "slabs s1"] unfolding slab_inv_def by (metis finite_Un)
    moreover have "unat (rd64 (slab_memory s1) p) < 2 ^ 64" using unat_u64_less by simp
    ultimately have "slab_inv c s' fs' (insert p (dom cells))"
      using inv fs unfolding slab_inv_def r(2) by (auto simp: card_insert_if add.commute)
    then show ?thesis using ct r by (auto simp: slab_ok_def)
  qed
qed

lemma overwrite_idem: "off + length bs \<le> length xs \<Longrightarrow> overwrite off bs (overwrite off bs xs) = overwrite off bs xs"
  by (auto simp: overwrite_def)

lemma slab_step_ok:
  assumes c: "config_ok c" and ok: "slab_ok c v" and st: "slab_step c x v = Some v'"
  shows "slab_ok c v'"
proof -
  obtain s cells where v: "v = (s, cells)" by (cases v)
  have ok': "slab_ok c (s, cells)" using ok v by simp
  show ?thesis
  proof (cases x)
    case (Allocate mapped)
    obtain r s' where r: "slab_allocate c mapped s = (r, s')" by (metis surj_pair)
    have m: "map_ok c mapped s" using st by (simp add: v Allocate split: if_splits)
    show ?thesis
    proof (cases r)
      case None
      then have "s' = s" using slab_allocate_ok [OF c ok' m r] by simp
      then show ?thesis using ok' st m r None by (simp add: v Allocate)
    next
      case (Some p)
      then show ?thesis using slab_allocate_ok [OF c ok' m r] st m r by (simp add: v Allocate)
    qed
  next
    case (Deallocate p)
    then show ?thesis using st deallocate_ok [OF c ok'] by (auto simp: v split: if_splits)
  next
    case (Construct mapped obj)
    obtain r s' where r: "slab_allocate c mapped s = (r, s')" by (metis surj_pair)
    have m: "map_ok c mapped s" "length obj = sizeof_T c" using st by (simp_all add: v Construct split: if_splits)
    have al: "case r of None \<Rightarrow> s' = s \<and> mapped = None \<and> dom cells = chunks c (slabs s)
      | Some p \<Rightarrow> slab_ok c (s', cells(p \<mapsto> mem_read (slab_memory s') p (CHUNK_SIZE c)))"
      by (rule slab_allocate_ok [OF c ok' m(1) r])
    show ?thesis
    proof (cases r)
      case None
      then have "s' = s" using al by simp
      moreover have "construct c mapped obj s = (None, s')" using None by (simp add: construct_def r)
      ultimately show ?thesis using ok' st m by (simp add: v Construct)
    next
      case (Some p)
      have b: "0 + length obj \<le> CHUNK_SIZE c" using CHUNK_SIZE_facts(1) [OF c] m(2) by simp
      have "slab_ok c (s'\<lparr>slab_memory := mem_write (slab_memory s') p obj\<rparr>,
          cells(p \<mapsto> overwrite 0 obj (mem_read (slab_memory s') p (CHUNK_SIZE c))))"
        using client_write_ok [OF c _ _ b, of s' "cells(p \<mapsto> mem_read (slab_memory s') p (CHUNK_SIZE c))" p] al Some by simp
      moreover have "construct c mapped obj s = (Some p, s'\<lparr>slab_memory := mem_write (slab_memory s') p obj\<rparr>)"
        by (simp add: construct_def r Some)
      moreover have "overwrite 0 obj (mem_read (mem_write (slab_memory s') p obj) p (CHUNK_SIZE c)) =
          overwrite 0 obj (mem_read (slab_memory s') p (CHUNK_SIZE c))"
        using mem_read_overwrite [OF b, of "slab_memory s'" p] overwrite_idem [of 0 obj "mem_read (slab_memory s') p (CHUNK_SIZE c)"] b
        by simp
      ultimately show ?thesis using st m by (simp add: v Construct)
    qed
  next
    case (Destroy p dead)
    then obtain old where old: "cells p = Some old" "length dead = sizeof_T c" using st by (auto simp: v split: if_splits)
    have "slab_ok c (s\<lparr>slab_memory := mem_write (slab_memory s) p dead\<rparr>, cells(p \<mapsto> overwrite 0 dead old))"
      using client_write_ok [OF c ok' old(1), of 0 dead] CHUNK_SIZE_facts(1) [OF c] old(2) by simp
    from deallocate_ok [OF c this, of p] show ?thesis
      using st by (auto simp: v Destroy destroy_def old split: if_splits)
  next
    case (ClientWrite p off bs)
    then show ?thesis using st client_write_ok [OF c ok'] by (auto simp: v split: option.splits if_splits)
  qed
qed

lemma slab_run_ok: "config_ok c \<Longrightarrow> slab_ok c v \<Longrightarrow> slab_run c xs v = Some v' \<Longrightarrow> slab_ok c v'"
  by (induction xs arbitrary: v) (auto split: option.splits dest: slab_step_ok)

lemma slab_init_ok:
  assumes c: "config_ok c" and m: "mapped = None \<or> (\<exists>b. mapped = Some b \<and> fresh_map c [] b)"
  shows "slab_ok c (slab_init c m0 mapped, Map.empty)"
proof -
  let ?e = "\<lparr>slab_memory = m0, free_head = 0, slabs = [], active_objects = 0\<rparr>"
  have e: "slab_ok c (?e, Map.empty)" by (auto simp: slab_ok_def slab_inv_def chunks_def intro!: exI [of _ "[]"])
  have "map_ok c mapped ?e" using m by (auto simp: map_ok_def split: option.splits)
  from grow_if_empty_ok [OF c e this refl] show ?thesis by (simp add: slab_init_def)
qed

text \<open>
  C8: for every history of calls and of writes by the holders of the chunks, each held chunk is
  aligned, large enough for a \<open>T\<close>, disjoint from the others and holds exactly the bytes its holder
  last wrote, although the free list is threaded through the same memory; \<open>get_active_objects\<close>
  counts them; and a further allocation fails only when every chunk of every slab is held and the
  kernel refuses another mapping.
\<close>

theorem slab_chunks_private:
  assumes "config_ok c" and "mapped = None \<or> (\<exists>b. mapped = Some b \<and> fresh_map c [] b)"
    and "slab_run c xs (slab_init c m0 mapped, Map.empty) = Some (s, cells)"
  shows "(\<forall>p bs. cells p = Some bs \<longrightarrow>
       mem_read (slab_memory s) p (CHUNK_SIZE c) = bs \<and> 0 < p \<and> ALIGNMENT c dvd p \<and> sizeof_T c \<le> CHUNK_SIZE c \<and>
       (\<forall>q\<in>dom cells. q \<noteq> p \<longrightarrow> p + CHUNK_SIZE c \<le> q \<or> q + CHUNK_SIZE c \<le> p)) \<and>
    active_objects s = of_nat (card (dom cells)) \<and>
    (\<forall>mapped'. map_ok c mapped' s \<longrightarrow>
       (fst (slab_allocate c mapped' s) = None \<longleftrightarrow>
        mapped' = None \<and> card (dom cells) = get_total_capacity c s))"
proof (intro conjI allI impI)
  have ok: "slab_ok c (s, cells)" by (rule slab_run_ok [OF assms(1) slab_init_ok [OF assms(1,2)] assms(3)])
  then obtain fs where inv: "slab_inv c s fs (dom cells)"
    and ct: "\<And>q b. cells q = Some b \<Longrightarrow> mem_read (slab_memory s) q (CHUNK_SIZE c) = b"
    by (auto simp: slab_ok_def)
  have ss: "slabs_ok c (rev (slabs s))" using inv by (simp add: slab_inv_def)
  show "active_objects s = of_nat (card (dom cells))" using inv by (simp add: slab_inv_def)
  show "sizeof_T c \<le> CHUNK_SIZE c" by (rule CHUNK_SIZE_facts(1) [OF assms(1)])
  {
    fix p bs assume p: "cells p = Some bs"
    then have "p \<in> chunks c (rev (slabs s))" using inv by (auto simp: slab_inv_def)
    then show "0 < p" "ALIGNMENT c dvd p" using chunk_facts [OF assms(1) ss] by blast+
    show "mem_read (slab_memory s) p (CHUNK_SIZE c) = bs" using ct p by simp
    show "\<forall>q\<in>dom cells. q \<noteq> p \<longrightarrow> p + CHUNK_SIZE c \<le> q \<or> q + CHUNK_SIZE c \<le> p"
      using slab_inv_live [OF assms(1) inv, of p] p by blast
  }
  {
    fix mapped' assume m: "map_ok c mapped' s"
    obtain r s' where r: "slab_allocate c mapped' s = (r, s')" by (metis surj_pair)
    have cap: "card (chunks c (slabs s)) = get_total_capacity c s"
      using card_chunks [OF assms(1) ss] by (simp add: get_total_capacity_def)
    have full: "fs = []" if "card (dom cells) = get_total_capacity c s"
    proof -
      have "dom cells \<subseteq> chunks c (slabs s)" using inv by (auto simp: slab_inv_def)
      then have "dom cells = chunks c (slabs s)" using that cap by (intro card_subset_eq) simp_all
      then have "set fs \<subseteq> dom cells" "set fs \<inter> dom cells = {}" using inv by (auto simp: slab_inv_def)
      then show ?thesis by (cases fs) auto
    qed
    show "fst (slab_allocate c mapped' s) = None \<longleftrightarrow> mapped' = None \<and> card (dom cells) = get_total_capacity c s"
    proof
      assume "fst (slab_allocate c mapped' s) = None"
      then show "mapped' = None \<and> card (dom cells) = get_total_capacity c s"
        using slab_allocate_ok [OF assms(1) ok m r] r cap by simp
    next
      assume a: "mapped' = None \<and> card (dom cells) = get_total_capacity c s"
      then have "free_head s = 0" using full inv by (simp add: slab_inv_def)
      then show "fst (slab_allocate c mapped' s) = None" using a by (simp add: slab_allocate_def grow_slab_def)
    qed
  }
qed

definition sample_cfg :: SlabConfig where
  "sample_cfg = \<lparr>sizeof_T = 12, alignof_T = 4, ObjectsPerSlab = 2\<rparr>"

lemma sample_cfg_ok: "config_ok sample_cfg"
  by (auto simp: config_ok_def sample_cfg_def intro!: exI [of _ 2])

lemma sample_cfg_sizes: "CHUNK_SIZE sample_cfg = 16" "SLAB_SIZE sample_cfg = 32"
  by (simp_all add: SLAB_SIZE_def CHUNK_SIZE_def OBJECT_SIZE_def ALIGNMENT_def sample_cfg_def)

theorem slab_chunks_private_witness:
  "case slab_run sample_cfg [Allocate None, Allocate None, ClientWrite 4096 0 [1, 2, 3]]
        (slab_init sample_cfg (\<lambda>_. 0) (Some 4096), Map.empty) of
     Some (s, cells) \<Rightarrow> dom cells = {4096, 4112} \<and> take 3 (mem_read (slab_memory s) 4096 16) = [1, 2, 3] \<and>
       active_objects s = 2 \<and> fst (slab_allocate sample_cfg None s) = None
   | None \<Rightarrow> False"
proof -
  define v where "v = slab_run sample_cfg [Allocate None, Allocate None, ClientWrite 4096 0 [1, 2, 3]]
        (slab_init sample_cfg (\<lambda>_. 0) (Some 4096), Map.empty)"
  have n: "ObjectsPerSlab sample_cfg = 2" by (simp add: sample_cfg_def)
  have fr: "\<exists>b. Some (4096::nat) = Some b \<and> fresh_map sample_cfg [] b" by (simp add: fresh_map_def sample_cfg_sizes)
  have rd: "unat (rd64 (mem_write m 4112 (le_bytes 8 4096)) 4112) = 4096" for m
    by (simp add: rd64_def mem_read_write_same le_nat_le_bytes)
  have "\<exists>s cells. v = Some (s, cells) \<and> dom cells = {4096, 4112} \<and> take 3 (the (cells 4096)) = [1, 2, 3] \<and> slabs s = [4096]"
    by (auto simp: v_def slab_init_def grow_slab_def n sample_cfg_sizes upt_rec map_ok_def slab_allocate_def
        link_chunk_def wr64_def rd overwrite_def)
  then obtain s cells where v: "v = Some (s, cells)" and d: "dom cells = {4096, 4112}" "take 3 (the (cells 4096)) = [1, 2, 3]"
    "slabs s = [4096]" by blast
  note t = slab_chunks_private [OF sample_cfg_ok, of "Some 4096" _ "\<lambda>_. 0" s cells, OF disjI2 [OF fr] v [unfolded v_def]]
  obtain bs where bs: "cells 4096 = Some bs" using d(1) by blast
  have "mem_read (slab_memory s) 4096 16 = bs" using t bs sample_cfg_sizes by simp
  moreover have "fst (slab_allocate sample_cfg None s) = None"
    using t d by (simp add: map_ok_def get_total_capacity_def n)
  ultimately show ?thesis using t d bs unfolding v_def [symmetric] v by simp
qed

end
