(* ===== verification/Byte_Codec.thy ===== *)
theory Byte_Codec
  imports Sys_Prelude
begin

text \<open>
  Structures written to files byte by byte: the contract of a fixed-width encoding, what it gives
  for arrays, and its first provider, the 64-bit word.
\<close>

subsection \<open>Arrays of fixed-size records\<close>

locale fixed_codec =
  fixes enc :: "'a \<Rightarrow> bytes" and dec :: "bytes \<Rightarrow> 'a" and width :: nat
  assumes length_enc: "length (enc x) = width"
    and dec_enc: "dec (enc x) = x"
begin

lemma slice:
  assumes "i < length xs"
  shows "take width (drop (i * width) (concat (map enc xs) @ ys)) = enc (xs ! i)"
  using assms
proof (induction xs arbitrary: i)
  case Nil
  then show ?case by simp
next
  case (Cons x xs)
  then show ?case by (cases i) (simp_all add: length_enc)
qed

lemma decode_array:
  "map (\<lambda>i. dec (take width (drop (i * width) (concat (map enc xs) @ ys)))) [0..<length xs] = xs"
  by (rule nth_equalityI) (simp_all add: slice dec_enc del: take_append drop_append)

lemma length_array: "length (concat (map enc xs)) = length xs * width"
  by (induction xs) (simp_all add: length_enc)

lemma take_array: "n \<le> length xs \<Longrightarrow> take (n * width) (concat (map enc xs)) = concat (map enc (take n xs))"
proof (induction xs arbitrary: n)
  case Nil
  then show ?case by simp
next
  case (Cons x xs)
  then show ?case by (cases n) (simp_all add: length_enc)
qed

lemma drop_array: "n \<le> length xs \<Longrightarrow> drop (n * width) (concat (map enc xs)) = concat (map enc (drop n xs))"
proof (induction xs arbitrary: n)
  case Nil
  then show ?case by simp
next
  case (Cons x xs)
  then show ?case by (cases n) (simp_all add: length_enc)
qed

lemma table_entry:
  assumes tab: "take (length xs * width) (drop off buf) = concat (map enc xs)" and i: "i < length xs"
  shows "take width (drop (off + i * width) buf) = enc (xs ! i)"
    and "0 < width \<Longrightarrow> off + i * width + width \<le> length buf"
proof -
  have "Suc i * width \<le> length xs * width" using i by (intro mult_le_mono1) simp
  then have le: "i * width + width \<le> length xs * width" by simp
  then have le': "width \<le> length xs * width - i * width" by linarith
  have "take width (drop (i * width) (take (length xs * width) (drop off buf))) = enc (xs ! i)"
    using slice [OF i, of "[]"] by (simp add: tab)
  then show "take width (drop (off + i * width) buf) = enc (xs ! i)"
    using le' by (simp add: drop_take add.commute min_absorb1)
  have "length (take (length xs * width) (drop off buf)) = length xs * width"
    by (simp add: tab length_array)
  then show "off + i * width + width \<le> length buf" if "0 < width" using le that by auto
qed

end

subsection \<open>64-bit words\<close>

definition word_bytes :: "u64 \<Rightarrow> bytes" where
  "word_bytes w = le_bytes 8 (unat w)"

definition bytes_word :: "bytes \<Rightarrow> u64" where
  "bytes_word bs = of_nat (le_nat bs)"

lemma length_word_bytes [simp]: "length (word_bytes w) = 8"
  by (simp add: word_bytes_def)

lemma bytes_word_bytes [simp]: "bytes_word (word_bytes w) = w"
  by (simp add: word_bytes_def bytes_word_def)

interpretation word_codec: fixed_codec word_bytes bytes_word 8
  by unfold_locales simp_all

end
