(* ===== verification/Wal_Engine.thy ===== *)
theory Wal_Engine
  imports Byte_Codec
begin

text \<open>
  The write-ahead-log key-value store of \<open>02-embedded-lsm-kv-database/wal_storage_engine.hpp\<close>: 4096-byte
  blocks with a magic number and an FNV-1a checksum over everything behind it, appended to a file and
  replayed by \<open>recover\<close>. The file is its bytes with the descriptor's position; the number of bytes a
  \<open>write\<close> transfers is an argument, so short writes and torn tails are part of the model.
\<close>

subsection \<open>Blocks\<close>

definition WAL_PUT :: u32 where
  "WAL_PUT = 1"

definition WAL_DEL :: u32 where
  "WAL_DEL = 2"

record WalBlock =
  wb_magic :: u32
  wb_checksum :: u32
  wb_seq_num :: u64
  wb_timestamp_ns :: u64
  wb_op :: u32
  wb_padding :: u32
  wb_key :: u64
  wb_value :: u64
  wb_reserved :: bytes

definition WAL_MAGIC :: u32 where
  "WAL_MAGIC = 0x57414C31"

definition WAL_BLOCK_SIZE :: nat where
  "WAL_BLOCK_SIZE = 4096"

text \<open>The bytes of a block behind the magic number and the checksum.\<close>

definition wal_payload :: "WalBlock \<Rightarrow> bytes" where
  "wal_payload b = word_bytes (wb_seq_num b) @ word_bytes (wb_timestamp_ns b) @ le_bytes 4 (unat (wb_op b)) @
     le_bytes 4 (unat (wb_padding b)) @ word_bytes (wb_key b) @ word_bytes (wb_value b) @ wb_reserved b"

definition wal_bytes :: "WalBlock \<Rightarrow> bytes" where
  "wal_bytes b = le_bytes 4 (unat (wb_magic b)) @ le_bytes 4 (unat (wb_checksum b)) @ wal_payload b"

definition bytes_wal :: "bytes \<Rightarrow> WalBlock" where
  "bytes_wal bs = \<lparr>wb_magic = of_nat (le_nat (take 4 bs)), wb_checksum = of_nat (le_nat (take 4 (drop 4 bs))),
     wb_seq_num = bytes_word (take 8 (drop 8 bs)), wb_timestamp_ns = bytes_word (take 8 (drop 16 bs)),
     wb_op = of_nat (le_nat (take 4 (drop 24 bs))), wb_padding = of_nat (le_nat (take 4 (drop 28 bs))),
     wb_key = bytes_word (take 8 (drop 32 bs)), wb_value = bytes_word (take 8 (drop 40 bs)), wb_reserved = drop 48 bs\<rparr>"

definition fnv_step :: "u32 \<Rightarrow> u8 \<Rightarrow> u32" where
  "fnv_step crc b = (crc XOR ucast b) * 0x01000193"

definition compute_checksum :: "WalBlock \<Rightarrow> u32" where
  "compute_checksum b = foldl fnv_step 0x811C9DC5 (wal_payload b)"

subsection \<open>The engine\<close>

record WalStorageEngine =
  wal_fd_open :: bool
  wal_file :: bytes
  wal_pos :: nat
  wal_current_seq :: u64
  wal_index :: "u64 \<rightharpoonup> u64"

definition wal_engine_init :: "bytes \<Rightarrow> WalStorageEngine" where
  "wal_engine_init file_bytes = \<lparr>wal_fd_open = False, wal_file = file_bytes, wal_pos = 0, wal_current_seq = 0, wal_index = Map.empty\<rparr>"

text \<open>\<open>write\<close> of \<open>bs\<close> at the position of the descriptor, of which \<open>n\<close> bytes get through.\<close>

definition wal_write :: "nat \<Rightarrow> bytes \<Rightarrow> WalStorageEngine \<Rightarrow> WalStorageEngine" where
  "wal_write n bs e =
     e\<lparr>wal_file := take (wal_pos e) (wal_file e) @ take n bs @ drop (wal_pos e + length (take n bs)) (wal_file e),
       wal_pos := wal_pos e + length (take n bs)\<rparr>"

definition mk_block :: "u64 \<Rightarrow> u32 \<Rightarrow> u64 \<Rightarrow> u64 \<Rightarrow> WalBlock" where
  "mk_block seq op k v =
     (let b = \<lparr>wb_magic = WAL_MAGIC, wb_checksum = 0, wb_seq_num = seq, wb_timestamp_ns = 0, wb_op = op, wb_padding = 0,
               wb_key = k, wb_value = v, wb_reserved = replicate (4096 - 48) 0\<rparr>
      in b\<lparr>wb_checksum := compute_checksum b\<rparr>)"

definition wal_put :: "nat \<Rightarrow> u64 \<Rightarrow> u64 \<Rightarrow> WalStorageEngine \<Rightarrow> bool \<times> WalStorageEngine" where
  "wal_put n key val e =
     (let seq = wal_current_seq e + 1;
          e1 = e\<lparr>wal_current_seq := seq\<rparr>;
          block = mk_block seq WAL_PUT key val;
          e2 = wal_write n (wal_bytes block) e1
      in if n \<noteq> WAL_BLOCK_SIZE then (False, e2)
         else (True, e2\<lparr>wal_index := (wal_index e2)(key \<mapsto> val)\<rparr>))"


definition wal_del :: "nat \<Rightarrow> u64 \<Rightarrow> WalStorageEngine \<Rightarrow> bool \<times> WalStorageEngine" where
  "wal_del n key e =
     (let seq = wal_current_seq e + 1;
          e1 = e\<lparr>wal_current_seq := seq\<rparr>;
          block = mk_block seq WAL_DEL key 0;
          e2 = wal_write n (wal_bytes block) e1
      in if n \<noteq> WAL_BLOCK_SIZE then (False, e2)
         else (True, e2\<lparr>wal_index := (wal_index e2)(key := None)\<rparr>))"

text \<open>One turn of the loop of \<open>recover\<close> applies a block; a short read, a wrong magic number or a wrong checksum ends it.\<close>

definition replay_block :: "WalBlock \<Rightarrow> u64 \<times> (u64 \<rightharpoonup> u64) \<Rightarrow> u64 \<times> (u64 \<rightharpoonup> u64)" where
  "replay_block b s =
     (max (fst s) (wb_seq_num b),
      if wb_op b = WAL_PUT then (snd s)(wb_key b \<mapsto> wb_value b)
      else if wb_op b = WAL_DEL then (snd s)(wb_key b := None) else snd s)"

function recover_loop :: "bytes \<Rightarrow> u64 \<times> (u64 \<rightharpoonup> u64) \<Rightarrow> u64 \<times> (u64 \<rightharpoonup> u64)" where
  "recover_loop bs s =
     (if length bs < WAL_BLOCK_SIZE then s
      else let block = bytes_wal (take WAL_BLOCK_SIZE bs)
      in if wb_magic block \<noteq> WAL_MAGIC then s
      else if wb_checksum block \<noteq> compute_checksum block then s
      else recover_loop (drop WAL_BLOCK_SIZE bs) (replay_block block s))"
  by pat_completeness auto

termination
  by (relation "measure (\<lambda>(bs, s). length bs)") (auto simp: WAL_BLOCK_SIZE_def)

definition wal_recover :: "WalStorageEngine \<Rightarrow> bool \<times> WalStorageEngine" where
  "wal_recover e =
     (let e1 = e\<lparr>wal_index := Map.empty, wal_current_seq := 0\<rparr>
      in if \<not> wal_fd_open e1 then (False, e1)
         else let s = recover_loop (wal_file e1) (wal_current_seq e1, wal_index e1)
              in (True, e1\<lparr>wal_current_seq := fst s, wal_index := snd s, wal_pos := length (wal_file e1)\<rparr>))"

definition wal_open :: "bool \<Rightarrow> WalStorageEngine \<Rightarrow> bool \<times> WalStorageEngine" where
  "wal_open opened e =
     (if \<not> opened then (False, e\<lparr>wal_fd_open := False\<rparr>)
      else wal_recover (e\<lparr>wal_fd_open := True, wal_pos := 0\<rparr>))"

definition wal_close :: "WalStorageEngine \<Rightarrow> WalStorageEngine" where
  "wal_close e = e\<lparr>wal_fd_open := False, wal_index := Map.empty\<rparr>"

declare recover_loop.simps [simp del]

subsection \<open>Blocks survive the file\<close>

lemma bytes_wal_bytes:
  assumes "length (wb_reserved b) = 4048"
  shows "length (wal_bytes b) = WAL_BLOCK_SIZE" "bytes_wal (wal_bytes b) = b"
  using assms by (simp_all add: wal_bytes_def wal_payload_def bytes_wal_def WAL_BLOCK_SIZE_def)

lemma mk_block_facts:
  "length (wb_reserved (mk_block seq op k v)) = 4048" "wb_magic (mk_block seq op k v) = WAL_MAGIC"
  "wb_checksum (mk_block seq op k v) = compute_checksum (mk_block seq op k v)"
  "wb_seq_num (mk_block seq op k v) = seq" "wb_op (mk_block seq op k v) = op"
  "wb_key (mk_block seq op k v) = k" "wb_value (mk_block seq op k v) = v"
  by (simp_all add: mk_block_def Let_def compute_checksum_def wal_payload_def)

lemma recover_block:
  "recover_loop (wal_bytes (mk_block seq op k v) @ rest) s = recover_loop rest (replay_block (mk_block seq op k v) s)"
  by (subst recover_loop.simps)
    (simp add: bytes_wal_bytes mk_block_facts Let_def)

lemma recover_short: "length bs < WAL_BLOCK_SIZE \<Longrightarrow> recover_loop bs s = s"
  by (subst recover_loop.simps) simp

subsection \<open>Histories and crashes\<close>

datatype wal_op = WPut u64 u64 | WDel u64

fun wal_step :: "wal_op \<Rightarrow> WalStorageEngine \<Rightarrow> WalStorageEngine" where
  "wal_step (WPut k v) e = snd (wal_put WAL_BLOCK_SIZE k v e)"
| "wal_step (WDel k) e = snd (wal_del WAL_BLOCK_SIZE k e)"

fun wal_apply :: "wal_op \<Rightarrow> (u64 \<rightharpoonup> u64) \<Rightarrow> u64 \<rightharpoonup> u64" where
  "wal_apply (WPut k v) m = m(k \<mapsto> v)"
| "wal_apply (WDel k) m = m(k := None)"

fun op_block :: "u64 \<Rightarrow> wal_op \<Rightarrow> WalBlock" where
  "op_block seq (WPut k v) = mk_block seq WAL_PUT k v"
| "op_block seq (WDel k) = mk_block seq WAL_DEL k 0"

fun log_of :: "u64 \<Rightarrow> wal_op list \<Rightarrow> bytes" where
  "log_of seq [] = []"
| "log_of seq (x # xs) = wal_bytes (op_block (seq + 1) x) @ log_of (seq + 1) xs"

lemma op_block_mk: "\<exists>op k v. op_block seq x = mk_block seq op k v"
  by (cases x) auto

lemma length_op_block [simp]: "length (wal_bytes (op_block seq x)) = WAL_BLOCK_SIZE"
  using op_block_mk [of seq x] bytes_wal_bytes(1) mk_block_facts(1) by metis

lemma length_log_of: "length (log_of seq xs) = length xs * WAL_BLOCK_SIZE"
  by (induction xs arbitrary: seq) simp_all

lemma wal_step_spec:
  assumes "wal_pos e = length (wal_file e)"
  shows "wal_step x e = e\<lparr>wal_file := wal_file e @ wal_bytes (op_block (wal_current_seq e + 1) x),
    wal_pos := length (wal_file e) + WAL_BLOCK_SIZE, wal_current_seq := wal_current_seq e + 1,
    wal_index := wal_apply x (wal_index e)\<rparr>"
  using assms length_op_block [of "wal_current_seq e + 1" x]
  by (cases x) (simp_all add: wal_put_def wal_del_def wal_write_def Let_def)

lemma wal_steps_spec:
  "wal_pos e = length (wal_file e) \<Longrightarrow> e' = fold wal_step xs e \<Longrightarrow>
   wal_file e' = wal_file e @ log_of (wal_current_seq e) xs \<and> wal_pos e' = length (wal_file e') \<and>
   wal_index e' = fold wal_apply xs (wal_index e) \<and> wal_current_seq e' = wal_current_seq e + of_nat (length xs) \<and>
   wal_fd_open e' = wal_fd_open e"
proof (induction xs arbitrary: e)
  case Nil
  then show ?case by simp
next
  case (Cons x xs)
  have p: "wal_pos (wal_step x e) = length (wal_file (wal_step x e))"
    using Cons.prems(1) by (simp add: wal_step_spec)
  show ?case using Cons.IH [OF p, of] Cons.prems by (simp add: wal_step_spec add.assoc)
qed

lemma replay_op:
  "replay_block (op_block seq x) (n, m) = (max n seq, wal_apply x m)"
  by (cases x) (simp_all add: replay_block_def mk_block_facts WAL_PUT_def WAL_DEL_def)

lemma recover_log:
  assumes "unat seq + length xs < 2 ^ 64"
  shows "recover_loop (take n (log_of seq xs)) (seq, m) =
    (seq + of_nat (min (n div WAL_BLOCK_SIZE) (length xs)), fold wal_apply (take (n div WAL_BLOCK_SIZE) xs) m)"
  using assms
proof (induction xs arbitrary: n seq m)
  case Nil
  then show ?case by (simp add: recover_short WAL_BLOCK_SIZE_def)
next
  case (Cons x xs)
  show ?case
  proof (cases "n < WAL_BLOCK_SIZE")
    case True
    then show ?thesis by (simp add: recover_short)
  next
    case False
    define k where "k = n - WAL_BLOCK_SIZE"
    have n: "n = WAL_BLOCK_SIZE + k" "n div WAL_BLOCK_SIZE = Suc (k div WAL_BLOCK_SIZE)"
      using False by (simp_all add: k_def div_if WAL_BLOCK_SIZE_def)
    obtain op k' v where b: "op_block (seq + 1) x = mk_block (seq + 1) op k' v" using op_block_mk by blast
    have s: "unat (seq + 1) = Suc (unat seq)" using Cons.prems by (intro unat_Suc_u64) simp
    have mx: "max seq (seq + 1) = seq + 1" using s by (simp add: max_def word_le_nat_alt)
    have "recover_loop (take n (log_of seq (x # xs))) (seq, m) =
        recover_loop (take k (log_of (seq + 1) xs)) (replay_block (op_block (seq + 1) x) (seq, m))"
      using recover_block [of "seq + 1" op k' v "take k (log_of (seq + 1) xs)"] length_op_block [of "seq + 1" x] by (simp add: b n(1))
    also have "\<dots> = recover_loop (take k (log_of (seq + 1) xs)) (seq + 1, wal_apply x m)"
      by (simp only: replay_op mx)
    also have "\<dots> = (seq + 1 + of_nat (min (k div WAL_BLOCK_SIZE) (length xs)), fold wal_apply (take (k div WAL_BLOCK_SIZE) xs) (wal_apply x m))"
      using Cons.prems s by (intro Cons.IH) simp
    finally show ?thesis by (simp add: n(2) add.assoc)
  qed
qed

text \<open>
  C11: a crash keeps any prefix of the log's bytes. Opening the store on the surviving prefix always
  succeeds and rebuilds exactly the state after the operations whose blocks are whole: none of them
  is lost, a torn block is ignored, and the next sequence number continues after them.
\<close>

theorem wal_recovers_prefix:
  assumes "length xs < 2 ^ 64"
  shows "case wal_open True (wal_engine_init []) of (ok, e0) \<Rightarrow>
    (case wal_open True (wal_engine_init (take n (wal_file (fold wal_step xs e0)))) of (ok', e) \<Rightarrow>
       ok' \<and> wal_index e = fold wal_apply (take (n div WAL_BLOCK_SIZE) xs) Map.empty \<and>
       wal_current_seq e = of_nat (min (n div WAL_BLOCK_SIZE) (length xs)))"
proof -
  define e0 where "e0 = snd (wal_open True (wal_engine_init []))"
  have e0: "wal_open True (wal_engine_init []) = (True, e0)" "wal_file e0 = []" "wal_pos e0 = 0" "wal_current_seq e0 = 0"
    by (simp_all add: e0_def wal_open_def wal_recover_def wal_engine_init_def recover_short WAL_BLOCK_SIZE_def Let_def)
  have f: "wal_file (fold wal_step xs e0) = log_of 0 xs"
    using wal_steps_spec [of e0, OF _ refl, of xs] e0 by simp
  show ?thesis
    using recover_log [of 0 xs n Map.empty] assms
    by (simp add: e0(1) f) (simp add: wal_open_def wal_recover_def wal_engine_init_def Let_def)
qed

theorem wal_recovers_prefix_witness:
  "case wal_open True (wal_engine_init []) of (ok, e0) \<Rightarrow>
    (case wal_open True (wal_engine_init (take 10000 (wal_file (fold wal_step [WPut 1 10, WDel 1, WPut 2 20] e0)))) of (ok', e) \<Rightarrow>
       ok' \<and> wal_index e = Map.empty \<and> wal_current_seq e = 2)"
  using wal_recovers_prefix [of "[WPut 1 10, WDel 1, WPut 2 20]" 10000]
  by (simp add: WAL_BLOCK_SIZE_def split: prod.splits)

subsection \<open>Appending behind a torn block\<close>






end
