(* ===== verification/Bloom_Filter.thy ===== *)
theory Bloom_Filter
  imports Sys_Prelude
begin

text \<open>
  The Bloom filter of \<open>concurrent_lsm_tree_engine/bloom_filter.hpp\<close>: 64-bit hashing with
  wrap-around, double hashing, and a bit vector of 64-bit words. The dimensions the constructor
  computes in \<open>double\<close> are computed in \<open>real\<close>; the properties hold for any dimensions.
\<close>

record BloomFilter =
  num_bits :: u64
  num_hashes :: u64
  bloom_bits :: "u64 list"

definition bloom_hash1 :: "u64 \<Rightarrow> u64" where
  "bloom_hash1 k0 =
     (let k = k0 XOR drop_bit 33 k0;
          k = k * 0xff51afd7ed558ccd;
          k = k XOR drop_bit 33 k;
          k = k * 0xc4ceb9fe1a85ec53
      in k XOR drop_bit 33 k)"

definition bloom_hash2 :: "u64 \<Rightarrow> u64" where
  "bloom_hash2 k0 =
     (let k = NOT k0 + push_bit 21 k0;
          k = k XOR drop_bit 24 k;
          k = (k + push_bit 3 k) + push_bit 8 k;
          k = k XOR drop_bit 14 k;
          k = (k + push_bit 2 k) + push_bit 4 k;
          k = k XOR drop_bit 28 k
      in k + push_bit 31 k)"

definition bloom_num_bits :: "nat \<Rightarrow> real \<Rightarrow> nat" where
  "bloom_num_bits n fpp =
     (let nb = nat \<lceil>- real n * ln fpp / (ln 2 * ln 2)\<rceil> in if nb < 64 then 64 else nb)"

definition bloom_num_hashes :: "nat \<Rightarrow> nat \<Rightarrow> nat" where
  "bloom_num_hashes nb n = nat \<lfloor>max 1 (of_int \<lfloor>(real nb / real n) * ln 2 + 1 / 2\<rfloor>) :: real\<rfloor>"

definition bloom_init :: "nat \<Rightarrow> real \<Rightarrow> BloomFilter" where
  "bloom_init expected fpp =
     (let n = (if expected = 0 then 1 else expected);
          nb = bloom_num_bits n fpp
      in \<lparr>num_bits = of_nat nb, num_hashes = of_nat (bloom_num_hashes nb n),
          bloom_bits = replicate (unat ((of_nat nb + 63 :: u64) div 64)) 0\<rparr>)"

definition bloom_index :: "BloomFilter \<Rightarrow> u64 \<Rightarrow> nat \<Rightarrow> u64" where
  "bloom_index b key i = (bloom_hash1 key + of_nat i * bloom_hash2 key) mod num_bits b"

definition bloom_set :: "u64 \<Rightarrow> u64 list \<Rightarrow> u64 list" where
  "bloom_set combined ws =
     (let w = unat (combined div 64)
      in ws[w := ws ! w OR push_bit (unat (combined mod 64)) 1])"

definition bloom_test :: "u64 \<Rightarrow> u64 list \<Rightarrow> bool" where
  "bloom_test combined ws \<longleftrightarrow> ws ! unat (combined div 64) AND push_bit (unat (combined mod 64)) 1 \<noteq> 0"

definition bloom_add :: "u64 \<Rightarrow> BloomFilter \<Rightarrow> BloomFilter" where
  "bloom_add key b =
     b\<lparr>bloom_bits := foldl (\<lambda>ws i. bloom_set (bloom_index b key i) ws) (bloom_bits b) [0..<unat (num_hashes b)]\<rparr>"

definition bloom_contains :: "u64 \<Rightarrow> BloomFilter \<Rightarrow> bool" where
  "bloom_contains key b = list_all (\<lambda>i. bloom_test (bloom_index b key i) (bloom_bits b)) [0..<unat (num_hashes b)]"

definition set_raw_bits :: "u64 list \<Rightarrow> u64 \<Rightarrow> u64 \<Rightarrow> BloomFilter \<Rightarrow> BloomFilter" where
  "set_raw_bits ws nb nh b = b\<lparr>bloom_bits := ws, num_bits := nb, num_hashes := nh\<rparr>"

subsection \<open>No false negatives\<close>

text \<open>The shape every reachable filter has: enough words for the bits it indexes.\<close>

definition bloom_ok :: "BloomFilter \<Rightarrow> bool" where
  "bloom_ok b \<longleftrightarrow> 0 < num_bits b \<and> unat (num_bits b) \<le> 64 * length (bloom_bits b)"

lemma bloom_index_in_range:
  assumes "bloom_ok b"
  shows "unat (bloom_index b key i div 64) < length (bloom_bits b)"
proof -
  have "unat (bloom_index b key i) < unat (num_bits b)"
    using assms by (simp add: bloom_index_def bloom_ok_def unat_mod_distrib unat_gt_0 word_less_nat_alt)
  then have "unat (bloom_index b key i) div 64 < length (bloom_bits b)"
    using assms by (simp add: bloom_ok_def less_mult_imp_div_less mult.commute)
  then show ?thesis by (simp add: unat_div_distrib)
qed

lemma bloom_test_bit: "bloom_test x ws \<longleftrightarrow> bit (ws ! unat (x div 64)) (unat (x mod 64))"
  by (simp add: bloom_test_def and_exp_eq_0_iff_not_bit)

lemma bloom_test_set:
  assumes "unat (x div 64) < length ws"
  shows "bloom_test y (bloom_set x ws) \<longleftrightarrow> x = y \<or> bloom_test y ws"
proof -
  have lt: "unat (x mod 64) < 64" by (simp add: unat_mod_distrib)
  have eq: "x = y \<longleftrightarrow> unat (x div 64) = unat (y div 64) \<and> unat (x mod 64) = unat (y mod 64)"
    by (metis div_mult_mod_eq word_unat_eq_iff)
  show ?thesis
    using assms lt unfolding bloom_test_bit bloom_set_def Let_def eq
    by (auto simp: nth_list_update bit_or_iff bit_push_bit_iff bit_exp_iff)
qed

lemma bloom_fold_test:
  assumes "\<And>x. x \<in> set xs \<Longrightarrow> unat (x div 64) < length ws"
  shows "bloom_test y (foldl (\<lambda>ws x. bloom_set x ws) ws xs) \<longleftrightarrow> y \<in> set xs \<or> bloom_test y ws"
  using assms
proof (induction xs arbitrary: ws)
  case Nil
  then show ?case by simp
next
  case (Cons x xs)
  have "length (bloom_set x ws) = length ws" by (simp add: bloom_set_def Let_def)
  then have "bloom_test y (foldl (\<lambda>ws x. bloom_set x ws) (bloom_set x ws) xs) \<longleftrightarrow> y \<in> set xs \<or> bloom_test y (bloom_set x ws)"
    using Cons.prems by (intro Cons.IH) simp
  then show ?case using Cons.prems bloom_test_set [of x ws y] by auto
qed

definition probes :: "BloomFilter \<Rightarrow> u64 \<Rightarrow> u64 list" where
  "probes b key = map (bloom_index b key) [0..<unat (num_hashes b)]"

lemma bloom_add_bits: "bloom_bits (bloom_add key b) = foldl (\<lambda>ws x. bloom_set x ws) (bloom_bits b) (probes b key)"
  by (simp add: bloom_add_def probes_def foldl_map)

lemma length_bloom_fold [simp]: "length (foldl (\<lambda>ws x. bloom_set x ws) ws xs) = length ws"
  by (induction xs arbitrary: ws) (simp_all add: bloom_set_def Let_def)

lemma bloom_add_shape [simp]:
  "num_bits (bloom_add key b) = num_bits b" "num_hashes (bloom_add key b) = num_hashes b"
  "length (bloom_bits (bloom_add key b)) = length (bloom_bits b)"
  by (simp_all add: bloom_add_bits) (simp_all add: bloom_add_def)

lemma bloom_add_ok: "bloom_ok b \<Longrightarrow> bloom_ok (bloom_add key b)"
  by (simp add: bloom_ok_def)

lemma probes_add [simp]: "probes (bloom_add key' b) key = probes b key"
  by (simp add: probes_def bloom_index_def)

lemma bloom_contains_probes: "bloom_contains key b \<longleftrightarrow> (\<forall>x\<in>set (probes b key). bloom_test x (bloom_bits b))"
  by (simp add: bloom_contains_def probes_def list_all_iff)

lemma bloom_test_add:
  assumes "bloom_ok b"
  shows "bloom_test x (bloom_bits (bloom_add key b)) \<longleftrightarrow> x \<in> set (probes b key) \<or> bloom_test x (bloom_bits b)"
  unfolding bloom_add_bits
  by (rule bloom_fold_test) (auto simp: probes_def intro: bloom_index_in_range [OF assms])

text \<open>The filter holds exactly the probe bits of the keys added: the specification of its answers.\<close>

lemma bloom_adds_test:
  "bloom_ok b \<Longrightarrow> bloom_ok (fold bloom_add ks b) \<and> probes (fold bloom_add ks b) = probes b \<and>
   (bloom_test x (bloom_bits (fold bloom_add ks b)) \<longleftrightarrow> (\<exists>k\<in>set ks. x \<in> set (probes b k)) \<or> bloom_test x (bloom_bits b))"
proof (induction ks arbitrary: b)
  case Nil
  then show ?case by simp
next
  case (Cons k ks)
  have "probes (bloom_add k b) = probes b" by (rule ext) simp
  then show ?case using Cons.IH [OF bloom_add_ok [OF Cons.prems, of k]] bloom_test_add [OF Cons.prems] by auto
qed

lemma bloom_adds_contains:
  "bloom_ok b \<Longrightarrow> k \<in> set ks \<Longrightarrow> bloom_contains k (fold bloom_add ks b)"
  using bloom_adds_test [of b ks] by (auto simp: bloom_contains_probes)

lemma bloom_init_ok:
  assumes "bloom_num_bits (max 1 n) fpp + 63 < 2 ^ 64"
  shows "bloom_ok (bloom_init n fpp)"
proof -
  define nb where "nb = bloom_num_bits (max 1 n) fpp"
  have e: "(if n = 0 then 1 else n) = max 1 n" by auto
  have nb: "64 \<le> nb" "nb + 63 < 2 ^ 64" using assms by (auto simp: nb_def bloom_num_bits_def Let_def)
  have "unat (of_nat nb + 63 :: u64) = nb + 63" using unat_of_nat_u64 [of "nb + 63"] nb(2) by simp
  then have w: "unat ((of_nat nb + 63 :: u64) div 64) = (nb + 63) div 64" by (simp add: unat_div_distrib)
  have b: "bloom_init n fpp = \<lparr>num_bits = of_nat nb, num_hashes = of_nat (bloom_num_hashes nb (max 1 n)),
      bloom_bits = replicate ((nb + 63) div 64) 0\<rparr>"
    by (simp only: bloom_init_def Let_def e nb_def [symmetric] w)
  have u: "unat (of_nat nb :: u64) = nb" using nb(2) by (intro unat_of_nat_u64) simp
  have "nb \<le> 64 * ((nb + 63) div 64)" by presburger
  moreover have "0 < (of_nat nb :: u64)" using u nb(1) by (simp add: word_less_nat_alt)
  ultimately show ?thesis using u by (simp add: bloom_ok_def b)
qed

lemma bloom_init_clear:
  assumes "unat (x div 64) < length (bloom_bits (bloom_init n fpp))"
  shows "\<not> bloom_test x (bloom_bits (bloom_init n fpp))"
  using assms by (auto simp: bloom_test_bit bloom_init_def Let_def)

text \<open>The default rate of one percent needs at most 396 bits per element, so the sizes never overflow.\<close>

lemma bloom_num_bits_bound:
  assumes "n \<le> 2 ^ 48"
  shows "bloom_num_bits n (1 / 100) + 63 < 2 ^ 64"
proof -
  have "ln (1 / 100 :: real) = - ln 100" by (simp add: ln_div)
  moreover have "ln (100 :: real) \<le> 99" using ln_le_minus_one [of "100 :: real"] by simp
  ultimately have l: "0 \<le> - ln (1 / 100 :: real)" "- ln (1 / 100 :: real) \<le> 99" by simp_all
  have l2: "1 / 4 \<le> ln 2 * (ln 2 :: real)"
  proof -
    have "1 \<le> ln (4 :: real)" using exp_le by (simp add: ln_ge_iff)
    moreover have "ln (4 :: real) = 2 * ln 2" using ln_realpow [of 2 2] by simp
    ultimately have "1 / 2 \<le> ln (2 :: real)" by simp
    then show ?thesis using mult_mono [of "1 / 2" "ln 2" "1 / 2" "ln (2 :: real)"] by simp
  qed
  have "- real n * ln (1 / 100) / (ln 2 * ln 2) \<le> real n * 99 / (1 / 4)"
    using l2 mult_left_mono [OF l(2), of "real n"] by (intro frac_le) simp_all
  also have "\<dots> \<le> real (396 * n)" by simp
  finally have "\<lceil>- real n * ln (1 / 100) / (ln 2 * ln 2)\<rceil> \<le> int (396 * n)" by (simp add: ceiling_le_iff)
  then have "nat \<lceil>- real n * ln (1 / 100) / (ln 2 * ln 2)\<rceil> \<le> 396 * n" by linarith
  then have "bloom_num_bits n (1 / 100) \<le> max 64 (396 * n)"
    unfolding bloom_num_bits_def Let_def by (simp only: le_max_iff_disj split: if_split) blast
  then show ?thesis using assms by simp
qed

text \<open>
  C23: a filter built by the constructor and any additions answers yes exactly for the keys all of
  whose probes are probes of added keys; in particular no added key is ever missed. Every word the
  filter touches lies inside its bit vector.
\<close>

theorem bloom_no_false_negatives:
  assumes "bloom_num_bits (max 1 n) fpp + 63 < 2 ^ 64"
  shows "(\<forall>k. bloom_contains k (fold bloom_add ks (bloom_init n fpp)) \<longleftrightarrow>
        set (probes (bloom_init n fpp) k) \<subseteq> (\<Union>k'\<in>set ks. set (probes (bloom_init n fpp) k'))) \<and>
    (\<forall>k\<in>set ks. bloom_contains k (fold bloom_add ks (bloom_init n fpp))) \<and>
    (\<forall>k i. unat (bloom_index (fold bloom_add ks (bloom_init n fpp)) k i div 64) <
        length (bloom_bits (fold bloom_add ks (bloom_init n fpp))))"
proof -
  let ?b = "bloom_init n fpp"
  have ok: "bloom_ok ?b" by (rule bloom_init_ok [OF assms])
  have sp: "bloom_ok (fold bloom_add ks ?b)" "probes (fold bloom_add ks ?b) = probes ?b"
    "bloom_test x (bloom_bits (fold bloom_add ks ?b)) \<longleftrightarrow> (\<exists>k\<in>set ks. x \<in> set (probes ?b k)) \<or> bloom_test x (bloom_bits ?b)" for x
    using bloom_adds_test [OF ok] by simp_all
  have clear: "\<not> bloom_test x (bloom_bits ?b)" if "x \<in> set (probes ?b k)" for x k
    using that bloom_index_in_range [OF ok] by (intro bloom_init_clear) (auto simp: probes_def)
  have "bloom_contains k (fold bloom_add ks ?b) \<longleftrightarrow> set (probes ?b k) \<subseteq> (\<Union>k'\<in>set ks. set (probes ?b k'))" for k
    unfolding bloom_contains_probes sp(2,3) using clear by blast
  then show ?thesis using bloom_index_in_range [OF sp(1)] by blast
qed

theorem bloom_no_false_negatives_witness:
  "bloom_contains 7 (fold bloom_add [3, 7] (bloom_init 1000 (1 / 100))) \<and>
   unat (bloom_index (fold bloom_add [3, 7] (bloom_init 1000 (1 / 100))) 7 2 div 64) <
     length (bloom_bits (fold bloom_add [3, 7] (bloom_init 1000 (1 / 100))))"
proof -
  have "bloom_num_bits (max 1 1000) (1 / 100) + 63 < 2 ^ 64" by (rule bloom_num_bits_bound) simp
  from bloom_no_false_negatives [OF this, of "[3, 7]"] show ?thesis by simp
qed

end
