(* ===== verification/Skip_List.thy ===== *)
theory Skip_List
  imports Sys_Prelude
begin

text \<open>
  The skip-list memtable of \<open>concurrent_lsm_tree_engine/skiplist_memtable.hpp\<close>, pointer by pointer:
  a heap of nodes with a vector of forward pointers each, the head at address 0. The coin flips of
  \<open>random_level\<close> are an argument of \<open>put\<close>; calls are atomic under the latch. The pointer-chasing
  loops may in principle run forever, so they are partial functions, and the theorems show that
  they return.
\<close>

record Node =
  node_key :: u64
  node_value :: u64
  node_level :: nat
  forward :: "nat option list"

record SkipListMemTable =
  heap :: "nat \<Rightarrow> Node"
  next_addr :: nat
  current_level :: nat
  sl_size :: nat
  sl_byte_size :: nat

definition MAX_LEVEL :: nat where
  "MAX_LEVEL = 16"

definition mk_node :: "u64 \<Rightarrow> u64 \<Rightarrow> nat \<Rightarrow> Node" where
  "mk_node k v lvl = \<lparr>node_key = k, node_value = v, node_level = lvl, forward = replicate lvl None\<rparr>"

definition skiplist_init :: SkipListMemTable where
  "skiplist_init = \<lparr>heap = (\<lambda>_. mk_node 0 0 MAX_LEVEL), next_addr = 1, current_level = 1, sl_size = 0, sl_byte_size = 0\<rparr>"

function random_level_loop :: "(nat \<Rightarrow> bool) \<Rightarrow> nat \<Rightarrow> nat" where
  "random_level_loop flips lvl = (if flips lvl \<and> lvl < MAX_LEVEL then random_level_loop flips (lvl + 1) else lvl)"
  by pat_completeness auto

termination
  by (relation "measure (\<lambda>(flips, lvl). MAX_LEVEL - lvl)") auto

definition random_level :: "(nat \<Rightarrow> bool) \<Rightarrow> nat" where
  "random_level flips = random_level_loop flips 1"

abbreviation fwd :: "(nat \<Rightarrow> Node) \<Rightarrow> nat \<Rightarrow> nat \<Rightarrow> nat option" where
  "fwd h a i \<equiv> forward (h a) ! i"

text \<open>The inner \<open>while\<close> of a search: move right on level \<open>i\<close> while the next key is smaller.\<close>

partial_function (option) advance :: "(nat \<Rightarrow> Node) \<Rightarrow> u64 \<Rightarrow> nat \<Rightarrow> nat \<Rightarrow> nat option" where
  "advance h key i cur =
     (case fwd h cur i of None \<Rightarrow> Some cur
      | Some nxt \<Rightarrow> if node_key (h nxt) < key then advance h key i nxt else Some cur)"

text \<open>The outer \<open>for\<close> from level \<open>n - 1\<close> down to 0, recording the predecessor of every level.\<close>

fun descend :: "(nat \<Rightarrow> Node) \<Rightarrow> u64 \<Rightarrow> nat \<Rightarrow> nat \<Rightarrow> nat option list \<Rightarrow> (nat \<times> nat option list) option" where
  "descend h key 0 cur update = Some (cur, update)"
| "descend h key (Suc i) cur update =
     (case advance h key i cur of None \<Rightarrow> None
      | Some c \<Rightarrow> descend h key i c (update[i := Some c]))"

definition set_forward :: "nat \<Rightarrow> nat \<Rightarrow> nat option \<Rightarrow> (nat \<Rightarrow> Node) \<Rightarrow> nat \<Rightarrow> Node" where
  "set_forward a i p h = h(a := (h a)\<lparr>forward := (forward (h a))[i := p]\<rparr>)"

text \<open>
  The loop that splices the new node in on the levels below \<open>n\<close>; \<open>None\<close> is the crash on a null
  predecessor.
\<close>

fun splice :: "nat \<Rightarrow> nat option list \<Rightarrow> nat list \<Rightarrow> (nat \<Rightarrow> Node) \<Rightarrow> (nat \<Rightarrow> Node) option" where
  "splice new update [] h = Some h"
| "splice new update (i # is) h =
     (case update ! i of None \<Rightarrow> None
      | Some p \<Rightarrow> splice new update is (set_forward p i (Some new) (set_forward new i (fwd h p i) h)))"

definition sl_insert :: "nat \<Rightarrow> u64 \<Rightarrow> u64 \<Rightarrow> nat option list \<Rightarrow> SkipListMemTable \<Rightarrow> SkipListMemTable option" where
  "sl_insert new_level key val update t =
     (let update' = (if new_level > current_level t
                     then foldl (\<lambda>u i. u[i := Some 0]) update [current_level t..<new_level] else update);
          level' = (if new_level > current_level t then new_level else current_level t);
          new = next_addr t
      in case splice new update' [0..<new_level] ((heap t)(new := mk_node key val new_level)) of None \<Rightarrow> None
         | Some h \<Rightarrow> Some (t\<lparr>heap := h, next_addr := new + 1, current_level := level', sl_size := sl_size t + 1,
                             sl_byte_size := sl_byte_size t + (48 + new_level * 8)\<rparr>))"

definition sl_put :: "(nat \<Rightarrow> bool) \<Rightarrow> u64 \<Rightarrow> u64 \<Rightarrow> SkipListMemTable \<Rightarrow> SkipListMemTable option" where
  "sl_put flips key val t =
     (case descend (heap t) key (current_level t) 0 (replicate MAX_LEVEL None) of None \<Rightarrow> None
      | Some (pred, update) \<Rightarrow>
          (case fwd (heap t) pred 0 of
             Some cur \<Rightarrow>
               if node_key (heap t cur) = key
               then Some (t\<lparr>heap := (heap t)(cur := (heap t cur)\<lparr>node_value := val\<rparr>)\<rparr>)
               else sl_insert (random_level flips) key val update t
           | None \<Rightarrow> sl_insert (random_level flips) key val update t))"

text \<open>\<open>get\<close>: the outer option is termination, the inner one the result.\<close>

definition sl_get :: "u64 \<Rightarrow> SkipListMemTable \<Rightarrow> u64 option option" where
  "sl_get key t =
     (case descend (heap t) key (current_level t) 0 (replicate MAX_LEVEL None) of None \<Rightarrow> None
      | Some (pred, update) \<Rightarrow>
          (case fwd (heap t) pred 0 of None \<Rightarrow> Some None
           | Some cur \<Rightarrow> if node_key (heap t cur) = key then Some (Some (node_value (heap t cur))) else Some None))"

partial_function (option) collect :: "(nat \<Rightarrow> Node) \<Rightarrow> nat option \<Rightarrow> (u64 \<times> u64) list \<Rightarrow> (u64 \<times> u64) list option" where
  "collect h cur acc =
     (case cur of None \<Rightarrow> Some acc
      | Some a \<Rightarrow> collect h (fwd h a 0) (acc @ [(node_key (h a), node_value (h a))]))"

definition sl_to_vector :: "SkipListMemTable \<Rightarrow> (u64 \<times> u64) list option" where
  "sl_to_vector t = collect (heap t) (fwd (heap t) 0 0) []"

declare random_level_loop.simps [simp del]

subsection \<open>The levels as lists\<close>

fun links :: "(nat \<Rightarrow> Node) \<Rightarrow> nat \<Rightarrow> nat \<Rightarrow> nat list \<Rightarrow> bool" where
  "links h i a [] = (fwd h a i = None)"
| "links h i a (b # bs) = (fwd h a i = Some b \<and> links h i b bs)"

lemma links_append: "links h i a (xs @ ys) \<Longrightarrow> links h i (last (a # xs)) ys"
  by (induction xs arbitrary: a) auto

lemma links_hd: "links h i a bs \<Longrightarrow> fwd h a i = (case bs of [] \<Rightarrow> None | b # _ \<Rightarrow> Some b)"
  by (cases bs) auto

lemma links_cong:
  "(\<And>b. b \<in> set (a # bs) \<Longrightarrow> fwd h' b i = fwd h b i) \<Longrightarrow> links h' i a bs = links h i a bs"
  by (induction bs arbitrary: a) auto

lemma advance_spec:
  assumes "links h i a (xs @ ys)" "\<And>b. b \<in> set xs \<Longrightarrow> node_key (h b) < key"
    "ys \<noteq> [] \<Longrightarrow> \<not> node_key (h (hd ys)) < key"
  shows "advance h key i a = Some (last (a # xs))"
  using assms
proof (induction xs arbitrary: a)
  case Nil
  then show ?case by (subst advance.simps) (cases ys; auto)
next
  case (Cons x xs)
  then show ?case by (subst advance.simps) auto
qed

lemma collect_spec:
  "links h 0 a bs \<Longrightarrow> collect h (fwd h a 0) acc = Some (acc @ map (\<lambda>b. (node_key (h b), node_value (h b))) bs)"
proof (induction bs arbitrary: a acc)
  case Nil
  then show ?case by (subst collect.simps) simp
next
  case (Cons b bs)
  then show ?case by (subst collect.simps) simp
qed

definition on_level :: "(nat \<Rightarrow> Node) \<Rightarrow> nat \<Rightarrow> nat list \<Rightarrow> nat list" where
  "on_level h i xs = filter (\<lambda>a. i < node_level (h a)) xs"

text \<open>
  The invariant: the nodes in key order are \<open>xs\<close>, and level \<open>i\<close> links exactly the nodes of \<open>xs\<close>
  whose tower is higher than \<open>i\<close>.
\<close>

definition skip_inv :: "SkipListMemTable \<Rightarrow> nat list \<Rightarrow> bool" where
  "skip_inv t xs \<longleftrightarrow>
     (\<forall>i<MAX_LEVEL. links (heap t) i 0 (on_level (heap t) i xs)) \<and>
     sorted_wrt (\<lambda>a b. node_key (heap t a) < node_key (heap t b)) xs \<and>
     (\<forall>a\<in>set xs. 0 < a \<and> a < next_addr t \<and> 0 < node_level (heap t a) \<and> node_level (heap t a) \<le> current_level t) \<and>
     (\<forall>a\<in>insert 0 (set xs). length (forward (heap t a)) = node_level (heap t a)) \<and> node_level (heap t 0) = MAX_LEVEL \<and>
     0 < current_level t \<and> current_level t \<le> MAX_LEVEL \<and> 0 < next_addr t \<and> sl_size t = length xs"

definition skip_pairs :: "SkipListMemTable \<Rightarrow> nat list \<Rightarrow> (u64 \<times> u64) list" where
  "skip_pairs t xs = map (\<lambda>a. (node_key (heap t a), node_value (heap t a))) xs"

abbreviation before :: "SkipListMemTable \<Rightarrow> u64 \<Rightarrow> nat list \<Rightarrow> nat list" where
  "before t key xs \<equiv> takeWhile (\<lambda>a. node_key (heap t a) < key) xs"

abbreviation rest :: "SkipListMemTable \<Rightarrow> u64 \<Rightarrow> nat list \<Rightarrow> nat list" where
  "rest t key xs \<equiv> dropWhile (\<lambda>a. node_key (heap t a) < key) xs"

definition pred_at :: "SkipListMemTable \<Rightarrow> u64 \<Rightarrow> nat list \<Rightarrow> nat \<Rightarrow> nat" where
  "pred_at t key xs i = last (0 # on_level (heap t) i (before t key xs))"

lemma on_level_split:
  "on_level (heap t) i xs = on_level (heap t) i (before t key xs) @ on_level (heap t) i (rest t key xs)"
  unfolding on_level_def by (simp flip: filter_append)

lemma rest_not_less:
  assumes "skip_inv t xs" "a \<in> set (rest t key xs)"
  shows "\<not> node_key (heap t a) < key"
proof -
  obtain b bs where r: "rest t key xs = b # bs" using assms(2) by (cases "rest t key xs") auto
  have "sorted_wrt (\<lambda>a b. node_key (heap t a) < node_key (heap t b)) (before t key xs @ rest t key xs)"
    using assms(1) by (simp add: skip_inv_def)
  then have "sorted_wrt (\<lambda>a b. node_key (heap t a) < node_key (heap t b)) (b # bs)"
    unfolding r sorted_wrt_append by simp
  moreover have "\<not> node_key (heap t b) < key" using r hd_dropWhile [of "\<lambda>a. node_key (heap t a) < key" xs] by simp
  ultimately show ?thesis using assms(2) unfolding r by auto
qed

lemma advance_pred:
  assumes inv: "skip_inv t xs" and i: "i < MAX_LEVEL"
    and c: "c \<in> set (0 # on_level (heap t) i (before t key xs))"
  shows "advance (heap t) key i c = Some (pred_at t key xs i)"
proof -
  let ?B = "on_level (heap t) i (before t key xs)" and ?R = "on_level (heap t) i (rest t key xs)"
  have "links (heap t) i 0 (on_level (heap t) i xs)" using inv i by (simp add: skip_inv_def)
  then have l: "links (heap t) i 0 (?B @ ?R)" unfolding on_level_split [of t i xs key] .
  obtain us vs where s: "0 # ?B = us @ c # vs" using c by (meson split_list)
  have lc: "links (heap t) i c (vs @ ?R)"
  proof (cases us)
    case Nil
    then show ?thesis using l s by simp
  next
    case (Cons u us')
    then have "?B = us' @ c # vs" using s by simp
    then have "links (heap t) i 0 ((us' @ [c]) @ (vs @ ?R))" using l by simp
    from links_append [OF this] show ?thesis by simp
  qed
  have lst: "last (c # vs) = pred_at t key xs i" using s by (metis last_appendR list.distinct(1) pred_at_def)
  have vB: "set vs \<subseteq> set ?B" using s by (cases us) auto
  have "advance (heap t) key i c = Some (last (c # vs))"
  proof (rule advance_spec [OF lc])
    show "node_key (heap t b) < key" if "b \<in> set vs" for b
    proof -
      have "b \<in> set (before t key xs)" using that vB unfolding on_level_def by (metis filter_is_subset subsetD)
      then show ?thesis by (metis set_takeWhileD)
    qed
    show "\<not> node_key (heap t (hd ?R)) < key" if "?R \<noteq> []"
    proof (rule rest_not_less [OF inv, of _ key])
      show "hd ?R \<in> set (rest t key xs)" using hd_in_set [OF that] unfolding on_level_def by (metis filter_is_subset subsetD)
    qed
  qed
  then show ?thesis using lst by simp
qed

lemma pred_at_mem: "pred_at t key xs i \<in> set (0 # on_level (heap t) i (before t key xs))"
  unfolding pred_at_def by (rule last_in_set) simp

lemma descend_spec:
  assumes inv: "skip_inv t xs"
  shows "n \<le> MAX_LEVEL \<Longrightarrow> c \<in> set (0 # on_level (heap t) (n - 1) (before t key xs)) \<Longrightarrow> 0 < n \<Longrightarrow>
    descend (heap t) key n c update = Some (pred_at t key xs 0, foldr (\<lambda>i u. u[i := Some (pred_at t key xs i)]) [0..<n] update)"
proof (induction n arbitrary: c update)
  case 0
  then show ?case by simp
next
  case (Suc n)
  have adv: "advance (heap t) key n c = Some (pred_at t key xs n)"
    using Suc.prems by (intro advance_pred [OF inv]) simp_all
  show ?case
  proof (cases "n = 0")
    case True
    then show ?thesis using adv by simp
  next
    case False
    have "pred_at t key xs n \<in> set (0 # on_level (heap t) (n - 1) (before t key xs))"
      using pred_at_mem [of t key xs n] by (auto simp: on_level_def)
    then show ?thesis using Suc.IH [of "pred_at t key xs n"] Suc.prems(1) False adv by simp
  qed
qed

lemma skip_inv_level0:
  assumes "skip_inv t xs"
  shows "on_level (heap t) 0 xs = xs" "links (heap t) 0 0 xs"
proof -
  show e: "on_level (heap t) 0 xs = xs" unfolding on_level_def
    by (rule filter_True) (use assms in \<open>auto simp: skip_inv_def\<close>)
  have "links (heap t) 0 0 (on_level (heap t) 0 xs)" using assms by (simp add: skip_inv_def MAX_LEVEL_def)
  then show "links (heap t) 0 0 xs" by (simp only: e)
qed

lemma search_spec:
  assumes inv: "skip_inv t xs"
  shows "descend (heap t) key (current_level t) 0 (replicate MAX_LEVEL None) =
      Some (pred_at t key xs 0, foldr (\<lambda>i u. u[i := Some (pred_at t key xs i)]) [0..<current_level t] (replicate MAX_LEVEL None))"
    and "fwd (heap t) (pred_at t key xs 0) 0 = (case rest t key xs of [] \<Rightarrow> None | b # _ \<Rightarrow> Some b)"
proof -
  show "descend (heap t) key (current_level t) 0 (replicate MAX_LEVEL None) =
      Some (pred_at t key xs 0, foldr (\<lambda>i u. u[i := Some (pred_at t key xs i)]) [0..<current_level t] (replicate MAX_LEVEL None))"
    using inv by (intro descend_spec) (simp_all add: skip_inv_def)
  have "on_level (heap t) 0 (before t key xs) = before t key xs" unfolding on_level_def
    by (rule filter_True) (use inv in \<open>auto simp: skip_inv_def dest: set_takeWhileD\<close>)
  then have p: "pred_at t key xs 0 = last (0 # before t key xs)" by (simp add: pred_at_def)
  have "links (heap t) 0 0 (before t key xs @ rest t key xs)" using skip_inv_level0(2) [OF inv] by simp
  from links_hd [OF links_append [OF this]]
  show "fwd (heap t) (pred_at t key xs 0) 0 = (case rest t key xs of [] \<Rightarrow> None | b # _ \<Rightarrow> Some b)"
    by (simp add: p)
qed

subsection \<open>Lookup\<close>

lemma map_of_before_rest:
  assumes inv: "skip_inv t xs"
  shows "map_of (skip_pairs t xs) key =
    (case rest t key xs of [] \<Rightarrow> None | b # _ \<Rightarrow> if node_key (heap t b) = key then Some (node_value (heap t b)) else None)"
proof -
  have sp: "skip_pairs t xs = skip_pairs t (before t key xs) @ skip_pairs t (rest t key xs)"
    by (simp only: skip_pairs_def map_append [symmetric] takeWhile_dropWhile_id)
  have "map_of (skip_pairs t (before t key xs)) key = None"
    by (auto simp: map_of_eq_None_iff skip_pairs_def dest: set_takeWhileD)
  then have m: "map_of (skip_pairs t xs) key = map_of (skip_pairs t (rest t key xs)) key"
    unfolding sp map_of_append by (simp add: map_add_def del: map_of_eq_None_iff split: option.split)
  show ?thesis
  proof (cases "rest t key xs")
    case Nil
    then show ?thesis unfolding m Nil by (simp add: skip_pairs_def)
  next
    case (Cons b bs)
    have srt: "sorted_wrt (\<lambda>a b. node_key (heap t a) < node_key (heap t b)) (before t key xs @ b # bs)"
      using inv unfolding Cons [symmetric] by (simp add: skip_inv_def)
    have b: "\<not> node_key (heap t b) < key" by (rule rest_not_less [OF inv, of _ key]) (simp only: Cons list.set_intros)
    have "key \<notin> fst ` set (skip_pairs t bs)"
    proof
      assume "key \<in> fst ` set (skip_pairs t bs)"
      then obtain c where "c \<in> set bs" "key = node_key (heap t c)" by (auto simp: skip_pairs_def)
      then have "node_key (heap t b) < key" using srt by (simp add: sorted_wrt_append)
      with b show False by simp
    qed
    then have "map_of (skip_pairs t bs) key = None" by (simp only: map_of_eq_None_iff) simp
    then show ?thesis unfolding m Cons by (simp add: skip_pairs_def)
  qed
qed

lemma sl_get_spec: "skip_inv t xs \<Longrightarrow> sl_get key t = Some (map_of (skip_pairs t xs) key)"
  unfolding sl_get_def using map_of_before_rest [of t xs key] search_spec [of t xs key]
  by (cases "rest t key xs") (simp_all del: dropWhile_eq_Nil_conv)

lemma sl_to_vector_spec: "skip_inv t xs \<Longrightarrow> sl_to_vector t = Some (skip_pairs t xs)"
  unfolding sl_to_vector_def using collect_spec [OF skip_inv_level0(2), of t xs "[]"] by (simp add: skip_pairs_def)

subsection \<open>Insertion\<close>

lemma set_forward_simps:
  "node_key (set_forward a i p h b) = node_key (h b)" "node_value (set_forward a i p h b) = node_value (h b)"
  "node_level (set_forward a i p h b) = node_level (h b)"
  "length (forward (set_forward a i p h b)) = length (forward (h b))"
  "i < length (forward (h a)) \<Longrightarrow> fwd (set_forward a i p h) b j = (if b = a \<and> j = i then p else fwd h b j)"
  by (auto simp: set_forward_def)

lemma splice_spec:
  assumes "distinct js"
    and "\<And>i. i \<in> set js \<Longrightarrow> update ! i = Some (p i) \<and> p i \<noteq> new \<and> i < length (forward (h (p i))) \<and> i < length (forward (h new))"
  shows "\<exists>h'. splice new update js h = Some h' \<and>
    (\<forall>b. node_key (h' b) = node_key (h b) \<and> node_value (h' b) = node_value (h b) \<and> node_level (h' b) = node_level (h b) \<and>
         length (forward (h' b)) = length (forward (h b))) \<and>
    (\<forall>b i. fwd h' b i = (if i \<in> set js \<and> b = new then fwd h (p i) i else if i \<in> set js \<and> b = p i then Some new else fwd h b i))"
  using assms
proof (induction js arbitrary: h)
  case Nil
  then show ?case by simp
next
  case (Cons j js)
  define h1 where "h1 = set_forward (p j) j (Some new) (set_forward new j (fwd h (p j) j) h)"
  have j: "update ! j = Some (p j)" "p j \<noteq> new" "j < length (forward (h (p j)))" "j < length (forward (h new))"
    using Cons.prems(2) [of j] by simp_all
  have h1: "node_key (h1 b) = node_key (h b)" "node_value (h1 b) = node_value (h b)" "node_level (h1 b) = node_level (h b)"
    "length (forward (h1 b)) = length (forward (h b))"
    "fwd h1 b i = (if b = p j \<and> i = j then Some new else if b = new \<and> i = j then fwd h (p j) j else fwd h b i)" for b i
    using j by (simp_all add: h1_def set_forward_simps)
  have "\<exists>h'. splice new update js h1 = Some h' \<and>
    (\<forall>b. node_key (h' b) = node_key (h1 b) \<and> node_value (h' b) = node_value (h1 b) \<and> node_level (h' b) = node_level (h1 b) \<and>
         length (forward (h' b)) = length (forward (h1 b))) \<and>
    (\<forall>b i. fwd h' b i = (if i \<in> set js \<and> b = new then fwd h1 (p i) i else if i \<in> set js \<and> b = p i then Some new else fwd h1 b i))"
    using Cons.prems by (intro Cons.IH) (auto simp: h1(4))
  then obtain h' where h': "splice new update js h1 = Some h'"
    "\<And>b. node_key (h' b) = node_key (h1 b) \<and> node_value (h' b) = node_value (h1 b) \<and> node_level (h' b) = node_level (h1 b) \<and>
         length (forward (h' b)) = length (forward (h1 b))"
    "\<And>b i. fwd h' b i = (if i \<in> set js \<and> b = new then fwd h1 (p i) i else if i \<in> set js \<and> b = p i then Some new else fwd h1 b i)"
    by blast
  have "splice new update (j # js) h = Some h'" using h'(1) j(1) by (simp add: h1_def)
  moreover have "fwd h' b i = (if i \<in> set (j # js) \<and> b = new then fwd h (p i) i
      else if i \<in> set (j # js) \<and> b = p i then Some new else fwd h b i)" for b i
  proof (cases "i = j")
    case True
    then have "i \<notin> set js" using Cons.prems(1) by simp
    then show ?thesis using h'(3) [of b i] h1(5) [of b i] j(2) True by auto
  next
    case False
    then show ?thesis using h'(3) [of b i] h1(5) [of b i] h1(5) [of "p i" i] by simp
  qed
  ultimately show ?case using h'(2) h1(1-4) by auto
qed

lemma links_insert:
  assumes "links h i a (bs @ rs)" "distinct (a # bs @ rs)" "new \<notin> set (a # bs @ rs)"
    and "\<And>b. b \<in> set (a # bs @ rs) \<Longrightarrow> b \<noteq> last (a # bs) \<Longrightarrow> fwd h' b i = fwd h b i"
    and "fwd h' (last (a # bs)) i = Some new" "fwd h' new i = fwd h (last (a # bs)) i"
  shows "links h' i a (bs @ new # rs)"
  using assms
proof (induction bs arbitrary: a)
  case Nil
  then have r: "links h i a rs" "fwd h' a i = Some new" "fwd h' new i = fwd h a i" "a \<notin> set rs" "new \<notin> set rs" by simp_all
  have "links h' i new rs"
  proof (cases rs)
    case Nil
    then show ?thesis using r by simp
  next
    case (Cons c cs)
    have "links h' i c cs = links h i c cs"
      using Nil.prems(4) r(4) Cons by (intro links_cong) auto
    then show ?thesis using r Cons by simp
  qed
  then show ?case using r by simp
next
  case (Cons b bs)
  have "links h' i b (bs @ new # rs)"
    using Cons.prems by (intro Cons.IH) (auto split: if_splits)
  moreover have "a \<noteq> last (b # bs)" using Cons.prems(2) last_in_set [of "b # bs"] by auto
  ultimately show ?case using Cons.prems(1) Cons.prems(4) [of a] by simp
qed

lemma foldr_update_nth:
  "length (foldr (\<lambda>i u. u[i := f i]) [0..<n] us) = length us \<and>
   (j < length us \<longrightarrow> foldr (\<lambda>i u. u[i := f i]) [0..<n] us ! j = (if j < n then f j else us ! j))"
  by (induction n arbitrary: us) (auto simp: nth_list_update less_Suc_eq)

lemma foldl_update_nth:
  "length (foldl (\<lambda>u i. u[i := x]) us [a..<b]) = length us \<and>
   (j < length us \<longrightarrow> foldl (\<lambda>u i. u[i := x]) us [a..<b] ! j = (if a \<le> j \<and> j < b then x else us ! j))"
  by (induction b) (auto simp: nth_list_update less_Suc_eq)

lemma pred_at_above:
  assumes "skip_inv t xs" "current_level t \<le> i"
  shows "pred_at t key xs i = 0"
proof -
  have "on_level (heap t) i (before t key xs) = []" unfolding on_level_def filter_empty_conv
    using assms by (auto simp: skip_inv_def dest!: set_takeWhileD)
  then show ?thesis by (simp add: pred_at_def)
qed

lemma random_level_bounds: "1 \<le> random_level flips" "random_level flips \<le> MAX_LEVEL"
proof -
  have "lvl \<le> random_level_loop flips lvl \<and> (lvl \<le> MAX_LEVEL \<longrightarrow> random_level_loop flips lvl \<le> MAX_LEVEL)" for lvl
    by (induction flips lvl rule: random_level_loop.induct) (subst random_level_loop.simps, auto, (subst random_level_loop.simps, auto)+)
  then show "1 \<le> random_level flips" "random_level flips \<le> MAX_LEVEL"
    by (simp_all add: random_level_def MAX_LEVEL_def)
qed

lemma skip_inv_distinct: "skip_inv t xs \<Longrightarrow> distinct (0 # xs)"
proof -
  assume inv: "skip_inv t xs"
  have "sorted_wrt (\<lambda>a b. node_key (heap t a) < node_key (heap t b)) xs \<Longrightarrow> distinct xs"
    by (induction xs) auto
  then show ?thesis using inv by (auto simp: skip_inv_def)
qed

lemma pred_at_facts:
  assumes inv: "skip_inv t xs" and i: "i < MAX_LEVEL"
  shows "pred_at t key xs i \<in> insert 0 (set xs)" "i < length (forward (heap t (pred_at t key xs i)))"
    "pred_at t key xs i < next_addr t"
proof -
  have m: "pred_at t key xs i = 0 \<or> pred_at t key xs i \<in> set xs \<and> i < node_level (heap t (pred_at t key xs i))"
    using pred_at_mem [of t key xs i] by (auto simp: on_level_def dest: set_takeWhileD)
  then show "pred_at t key xs i \<in> insert 0 (set xs)" by auto
  show "i < length (forward (heap t (pred_at t key xs i)))" "pred_at t key xs i < next_addr t"
    using m inv i by (auto simp: skip_inv_def)
qed

text \<open>The heap after splicing a node of tower height \<open>n\<close> in front of the first key not below its own.\<close>

lemma splice_links:
  assumes inv: "skip_inv t xs" and n: "n \<le> MAX_LEVEL"
    and h0: "h0 = (heap t)(next_addr t := mk_node key val n)"
    and lev: "\<And>b. node_level (h' b) = node_level (h0 b)"
    and fw: "\<And>b i. fwd h' b i = (if i \<in> set [0..<n] \<and> b = next_addr t then fwd h0 (pred_at t key xs i) i
               else if i \<in> set [0..<n] \<and> b = pred_at t key xs i then Some (next_addr t) else fwd h0 b i)"
    and i: "i < MAX_LEVEL"
  shows "links h' i 0 (on_level h' i (before t key xs @ next_addr t # rest t key xs))"
proof -
  let ?new = "next_addr t"
  let ?B = "on_level (heap t) i (before t key xs)" and ?R = "on_level (heap t) i (rest t key xs)"
  have nx: "?new \<notin> insert 0 (set xs)" using inv by (auto simp: skip_inv_def)
  have new: "b \<noteq> ?new" if "b \<in> insert 0 (set xs)" for b using that nx by metis
  have BR: "?B @ ?R = on_level (heap t) i xs" by (rule on_level_split [symmetric])
  have sub: "set (?B @ ?R) \<subseteq> set xs" unfolding BR by (auto simp: on_level_def)
  have l: "links (heap t) i 0 (?B @ ?R)" unfolding BR using inv i by (simp add: skip_inv_def)
  have "links h0 i 0 (?B @ ?R) = links (heap t) i 0 (?B @ ?R)"
  proof (rule links_cong)
    fix b assume "b \<in> set (0 # ?B @ ?R)"
    then have "b \<noteq> ?new" using sub by (intro new) auto
    then show "fwd h0 b i = fwd (heap t) b i" by (simp add: h0)
  qed
  with l have l0: "links h0 i 0 (?B @ ?R)" by simp
  have same: "on_level h' i ys = on_level (heap t) i ys" if "set ys \<subseteq> set xs" for ys
    unfolding on_level_def by (rule filter_cong [OF refl]) (use that new lev h0 in auto)
  have sb: "set (before t key xs) \<subseteq> set xs" "set (rest t key xs) \<subseteq> set xs"
    by (auto dest: set_takeWhileD set_dropWhileD)
  have ol: "on_level h' i (before t key xs @ ?new # rest t key xs) = ?B @ (if i < n then [?new] else []) @ ?R"
    using same [OF sb(1)] same [OF sb(2)] lev [of ?new] by (simp add: on_level_def h0 mk_node_def)
  have "distinct (0 # on_level (heap t) i xs)" using skip_inv_distinct [OF inv] by (auto simp: on_level_def)
  then have dist: "distinct (0 # ?B @ ?R)" by (simp only: BR)
  have nn: "?new \<notin> set (0 # ?B @ ?R)" using nx sub by auto
  show ?thesis
  proof (cases "i < n")
    case True
    have "links h' i 0 (?B @ ?new # ?R)"
    proof (rule links_insert [OF l0 dist nn])
      show "fwd h' b i = fwd h0 b i" if "b \<in> set (0 # ?B @ ?R)" "b \<noteq> last (0 # ?B)" for b
      proof -
        have "b \<noteq> ?new" "b \<noteq> pred_at t key xs i" using that nn by (auto simp only: pred_at_def)
        then show ?thesis using fw [of b i] by simp
      qed
      show "fwd h' (last (0 # ?B)) i = Some ?new"
        using fw [of "pred_at t key xs i" i] True new [OF pred_at_facts(1) [OF inv i]] by (simp add: pred_at_def)
      show "fwd h' ?new i = fwd h0 (last (0 # ?B)) i" using fw [of ?new i] True by (simp add: pred_at_def)
    qed
    then show ?thesis using ol True by simp
  next
    case False
    have "links h' i 0 (?B @ ?R) = links h0 i 0 (?B @ ?R)" using fw False by (intro links_cong) simp
    then show ?thesis using ol False l0 by simp
  qed
qed

lemma skip_inv_parts:
  assumes "skip_inv t xs"
  shows "sorted_wrt (\<lambda>a b. node_key (heap t a) < node_key (heap t b)) (before t key xs @ rest t key xs)"
    "\<And>a. a \<in> set (before t key xs) \<Longrightarrow> a \<in> set xs \<and> node_key (heap t a) < key"
    "\<And>a. a \<in> set (rest t key xs) \<Longrightarrow> a \<in> set xs \<and> \<not> node_key (heap t a) < key"
proof -
  show "sorted_wrt (\<lambda>a b. node_key (heap t a) < node_key (heap t b)) (before t key xs @ rest t key xs)"
    using assms by (simp add: skip_inv_def)
  show "a \<in> set xs \<and> node_key (heap t a) < key" if "a \<in> set (before t key xs)" for a
    using set_takeWhileD [OF that] by simp
  show "a \<in> set xs \<and> \<not> node_key (heap t a) < key" if "a \<in> set (rest t key xs)" for a
    using set_dropWhileD [OF that] rest_not_less [OF assms that] by simp
qed

lemma sl_insert_spec:
  assumes inv: "skip_inv t xs" and n: "0 < n" "n \<le> MAX_LEVEL" and fresh: "\<And>a. a \<in> set xs \<Longrightarrow> node_key (heap t a) \<noteq> key"
    and up: "length update = MAX_LEVEL" "\<And>i. i < current_level t \<Longrightarrow> update ! i = Some (pred_at t key xs i)"
  shows "\<exists>t'. sl_insert n key val update t = Some t' \<and> skip_inv t' (before t key xs @ next_addr t # rest t key xs) \<and>
    skip_pairs t' (before t key xs @ next_addr t # rest t key xs) =
      skip_pairs t (before t key xs) @ (key, val) # skip_pairs t (rest t key xs)"
proof -
  let ?new = "next_addr t" and ?p = "pred_at t key xs"
  define h0 where "h0 = (heap t)(?new := mk_node key val n)"
  define lvl where "lvl = (if n > current_level t then n else current_level t)"
  define up' where "up' = (if n > current_level t then foldl (\<lambda>u i. u[i := Some 0]) update [current_level t..<n] else update)"
  have up': "up' ! i = Some (?p i)" if "i < n" for i
    using that n(2) up foldl_update_nth [of "Some 0" update "current_level t" n i] pred_at_above [OF inv, of i key]
    by (auto simp: up'_def)
  have new: "b \<noteq> ?new" if "b \<in> insert 0 (set xs)" for b using that inv by (auto simp: skip_inv_def)
  have pf: "?p i \<noteq> ?new" "i < length (forward (h0 (?p i)))" "i < length (forward (h0 ?new))" if "i < n" for i
    using pred_at_facts [OF inv, of i key] that n(2) by (auto simp: h0_def mk_node_def)
  obtain h' where sp: "splice ?new up' [0..<n] h0 = Some h'"
    and same: "\<And>b. node_key (h' b) = node_key (h0 b) \<and> node_value (h' b) = node_value (h0 b) \<and>
        node_level (h' b) = node_level (h0 b) \<and> length (forward (h' b)) = length (forward (h0 b))"
    and fw: "\<And>b i. fwd h' b i = (if i \<in> set [0..<n] \<and> b = ?new then fwd h0 (?p i) i
        else if i \<in> set [0..<n] \<and> b = ?p i then Some ?new else fwd h0 b i)"
    using splice_spec [of "[0..<n]" up' ?p ?new h0] up' pf by auto
  define t' where "t' = t\<lparr>heap := h', next_addr := ?new + 1, current_level := lvl, sl_size := sl_size t + 1,
                             sl_byte_size := sl_byte_size t + (48 + n * 8)\<rparr>"
  define ys where "ys = before t key xs @ ?new # rest t key xs"
  have res: "sl_insert n key val update t = Some t'"
    using sp by (simp add: sl_insert_def Let_def up'_def [symmetric] lvl_def [symmetric] h0_def [symmetric] t'_def)
  have old: "node_key (h' b) = node_key (heap t b)" "node_value (h' b) = node_value (heap t b)" "node_level (h' b) = node_level (heap t b)"
    "length (forward (h' b)) = length (forward (heap t b))" if "b \<in> insert 0 (set xs)" for b
    using same [of b] new [OF that] by (simp_all add: h0_def)
  have nw: "node_key (h' ?new) = key" "node_value (h' ?new) = val" "node_level (h' ?new) = n" "length (forward (h' ?new)) = n"
    using same [of ?new] by (simp_all add: h0_def mk_node_def)
  note parts = skip_inv_parts [OF inv, where key = key]
  have inxs: "b \<in> insert 0 (set xs)" if "b \<in> set (before t key xs) \<or> b \<in> set (rest t key xs)" for b
    using that parts by blast
  have srt: "sorted_wrt (\<lambda>a b. node_key (h' a) < node_key (h' b)) ys"
  proof -
    have "sorted_wrt (\<lambda>a b. node_key (h' a) < node_key (h' b)) (before t key xs @ rest t key xs)"
      using parts(1) by (rule sorted_wrt_mono_rel [rotated]) (use old inxs in auto)
    moreover have "node_key (h' a) < key" if "a \<in> set (before t key xs)" for a
      using parts(2) [OF that] old(1) [of a] by simp
    moreover have "key < node_key (h' a)" if "a \<in> set (rest t key xs)" for a
      using parts(3) [OF that] old(1) [of a] fresh [of a] by (simp add: not_less order.order_iff_strict)
    ultimately show ?thesis by (fastforce simp: ys_def sorted_wrt_append nw)
  qed
  have "set ys = insert ?new (set (before t key xs @ rest t key xs))" unfolding ys_def by (simp only: set_append list.set) blast
  then have ysset: "set ys = insert ?new (set xs)" by (simp only: takeWhile_dropWhile_id)
  have iv: "0 < a \<and> a < ?new \<and> 0 < node_level (heap t a) \<and> node_level (heap t a) \<le> current_level t" if "a \<in> set xs" for a
    using inv that by (simp add: skip_inv_def)
  have iv0: "length (forward (heap t a)) = node_level (heap t a)" if "a \<in> insert 0 (set xs)" for a
    using inv that by (auto simp: skip_inv_def)
  have iv1: "node_level (heap t 0) = MAX_LEVEL" "0 < current_level t" "current_level t \<le> MAX_LEVEL" "0 < ?new" "sl_size t = length xs"
    using inv by (simp_all add: skip_inv_def)
  have t': "heap t' = h'" "next_addr t' = ?new + 1" "current_level t' = lvl" "sl_size t' = sl_size t + 1"
    by (simp_all add: t'_def)
  have lvl: "n \<le> lvl" "current_level t \<le> lvl" "lvl \<le> MAX_LEVEL" using n iv1(3) by (auto simp: lvl_def)
  have "skip_inv t' ys"
    unfolding skip_inv_def t'
  proof (intro conjI allI impI ballI)
    fix i assume i: "i < MAX_LEVEL"
    show "links h' i 0 (on_level h' i ys)"
      unfolding ys_def by (rule splice_links [OF inv n(2) h0_def _ fw i]) (use same in simp)
  next
    fix a assume "a \<in> set ys"
    then consider "a = ?new" | "a \<in> set xs" unfolding ysset by blast
    then have "0 < a \<and> a < ?new + 1 \<and> 0 < node_level (h' a) \<and> node_level (h' a) \<le> lvl"
    proof cases
      case 1
      then show ?thesis using nw(3) n(1) lvl(1) iv1(4) by simp
    next
      case 2
      then show ?thesis using iv [OF 2] old(3) [of a] lvl(2) by simp
    qed
    then show "0 < a" "a < ?new + 1" "0 < node_level (h' a)" "node_level (h' a) \<le> lvl" by simp_all
  next
    fix a assume "a \<in> insert 0 (set ys)"
    then consider "a = ?new" | "a \<in> insert 0 (set xs)" unfolding ysset by blast
    then show "length (forward (h' a)) = node_level (h' a)"
    proof cases
      case 1
      then show ?thesis using nw by simp
    next
      case 2
      then show ?thesis using iv0 [OF 2] old(3,4) [OF 2] by simp
    qed
  next
    have "length (before t key xs) + length (rest t key xs) = length xs"
      by (simp only: length_append [symmetric] takeWhile_dropWhile_id)
    then show "sl_size t + 1 = length ys" using iv1(5) by (simp add: ys_def)
    show "node_level (h' 0) = MAX_LEVEL" using old(3) [of 0] iv1(1) by simp
    show "0 < lvl" "lvl \<le> MAX_LEVEL" using lvl n(1) by simp_all
  qed (simp_all add: srt)
  moreover have "skip_pairs t' ys = skip_pairs t (before t key xs) @ (key, val) # skip_pairs t (rest t key xs)"
  proof -
    have "skip_pairs t' zs = skip_pairs t zs" if "\<And>b. b \<in> set zs \<Longrightarrow> b \<in> insert 0 (set xs)" for zs
      unfolding skip_pairs_def t' by (rule map_cong [OF refl]) (use old that in simp)
    then have "skip_pairs t' (before t key xs) = skip_pairs t (before t key xs)"
      "skip_pairs t' (rest t key xs) = skip_pairs t (rest t key xs)" using inxs by blast+
    then show ?thesis using nw by (simp add: ys_def skip_pairs_def t')
  qed
  ultimately show ?thesis using res by (auto simp: ys_def)
qed

lemma skip_inv_set_value:
  assumes "skip_inv t xs"
  shows "skip_inv (t\<lparr>heap := (heap t)(a := (heap t a)\<lparr>node_value := val\<rparr>)\<rparr>) xs"
proof -
  define h where "h = (heap t)(a := (heap t a)\<lparr>node_value := val\<rparr>)"
  have f: "forward (h b) = forward (heap t b)" "node_key (h b) = node_key (heap t b)" "node_level (h b) = node_level (heap t b)" for b
    by (simp_all add: h_def)
  have l: "links h i c ys = links (heap t) i c ys" for i c ys by (rule links_cong) (simp only: f)
  have o: "on_level h i ys = on_level (heap t) i ys" for i ys by (simp only: on_level_def f)
  have "skip_inv (t\<lparr>heap := h\<rparr>) xs" using assms unfolding skip_inv_def by (simp add: f l o)
  then show ?thesis by (simp only: h_def)
qed

lemma map_of_snoc_mid:
  "key \<notin> fst ` set us \<Longrightarrow> map_of (us @ (key, val) # vs) = (map_of (us @ vs))(key \<mapsto> val)"
  by (rule ext) (auto simp: map_add_def map_of_eq_None_iff split: option.splits dest: map_of_SomeD intro: rev_image_eqI)

text \<open>\<open>put\<close> terminates, keeps the invariant and updates the map.\<close>

lemma sl_put_spec:
  assumes inv: "skip_inv t xs"
  shows "\<exists>t' ys. sl_put flips key val t = Some t' \<and> skip_inv t' ys \<and>
    map_of (skip_pairs t' ys) = (map_of (skip_pairs t xs))(key \<mapsto> val)"
proof (cases "key \<in> node_key ` heap t ` set xs")
  case True
  obtain c cs where r: "rest t key xs = c # cs" and c: "node_key (heap t c) = key"
    using True map_of_before_rest [OF inv, of key] map_of_eq_None_iff [of "skip_pairs t xs" key]
    by (force simp: skip_pairs_def split: list.splits if_splits)
  let ?t = "t\<lparr>heap := (heap t)(c := (heap t c)\<lparr>node_value := val\<rparr>)\<rparr>"
  have put: "sl_put flips key val t = Some ?t"
    unfolding sl_put_def search_spec(1) [OF inv] using search_spec(2) [OF inv, of key] r c by simp
  note inv' = skip_inv_set_value [OF inv, of c val]
  have "map_of (skip_pairs ?t xs) k = (if k = key then Some val else map_of (skip_pairs t xs) k)" for k
  proof -
    have "rest ?t k xs = rest t k xs" by (rule dropWhile_cong) simp_all
    then show ?thesis
      using map_of_before_rest [OF inv', of k] map_of_before_rest [OF inv, of k] r c
      by (auto split: list.splits simp del: dropWhile_eq_Nil_conv)
  qed
  then have "map_of (skip_pairs ?t xs) = (map_of (skip_pairs t xs))(key \<mapsto> val)" by (simp add: fun_eq_iff)
  then show ?thesis using put inv' by blast
next
  case False
  define up where "up = foldr (\<lambda>i u. u[i := Some (pred_at t key xs i)]) [0..<current_level t] (replicate MAX_LEVEL None)"
  have "length up = MAX_LEVEL" "\<And>i. i < current_level t \<Longrightarrow> up ! i = Some (pred_at t key xs i)"
    using foldr_update_nth [of "\<lambda>i. Some (pred_at t key xs i)" "current_level t" "replicate MAX_LEVEL None"] inv
    by (auto simp: up_def skip_inv_def)
  then obtain t' where t': "sl_insert (random_level flips) key val up t = Some t'"
      "skip_inv t' (before t key xs @ next_addr t # rest t key xs)"
      "skip_pairs t' (before t key xs @ next_addr t # rest t key xs) =
        skip_pairs t (before t key xs) @ (key, val) # skip_pairs t (rest t key xs)"
    using sl_insert_spec [OF inv, of "random_level flips" key up val] random_level_bounds [of flips] False by fastforce
  have "sl_put flips key val t = sl_insert (random_level flips) key val up t"
  proof (cases "rest t key xs")
    case Nil
    then show ?thesis unfolding sl_put_def search_spec(1) [OF inv] up_def using search_spec(2) [OF inv, of key]
      by (simp del: dropWhile_eq_Nil_conv)
  next
    case (Cons c cs)
    then have "node_key (heap t c) \<noteq> key" using skip_inv_parts(3) [OF inv, of c key] False by auto
    then show ?thesis unfolding sl_put_def search_spec(1) [OF inv] up_def using search_spec(2) [OF inv, of key] Cons by simp
  qed
  moreover have "key \<notin> fst ` set (skip_pairs t (before t key xs))"
    using skip_inv_parts(2) [OF inv] by (fastforce simp: skip_pairs_def)
  moreover have "skip_pairs t xs = skip_pairs t (before t key xs) @ skip_pairs t (rest t key xs)"
    by (simp only: skip_pairs_def map_append [symmetric] takeWhile_dropWhile_id)
  ultimately show ?thesis using t' map_of_snoc_mid [of key "skip_pairs t (before t key xs)" val "skip_pairs t (rest t key xs)"]
    by (intro exI [of _ t'] exI [of _ "before t key xs @ next_addr t # rest t key xs"]) simp
qed

lemma skip_pairs_sorted: "skip_inv t xs \<Longrightarrow> sorted_wrt (\<lambda>p q. fst p < fst q) (skip_pairs t xs)"
  by (simp add: skip_inv_def skip_pairs_def sorted_wrt_map)

lemma skiplist_init_inv: "skip_inv skiplist_init []"
  by (auto simp: skip_inv_def skiplist_init_def on_level_def mk_node_def MAX_LEVEL_def)

fun sl_puts :: "((nat \<Rightarrow> bool) \<times> u64 \<times> u64) list \<Rightarrow> SkipListMemTable \<Rightarrow> SkipListMemTable option" where
  "sl_puts [] t = Some t"
| "sl_puts ((flips, k, v) # ps) t = (case sl_put flips k v t of None \<Rightarrow> None | Some t' \<Rightarrow> sl_puts ps t')"

lemma sl_puts_spec:
  "skip_inv t xs \<Longrightarrow> \<exists>t' ys. sl_puts ps t = Some t' \<and> skip_inv t' ys \<and>
    map_of (skip_pairs t' ys) = foldl (\<lambda>m (flips, k, v). m(k \<mapsto> v)) (map_of (skip_pairs t xs)) ps"
proof (induction ps arbitrary: t xs)
  case Nil
  then show ?case by auto
next
  case (Cons p ps)
  obtain flips k v where p: "p = (flips, k, v)" by (cases p)
  obtain t1 ys where t1: "sl_put flips k v t = Some t1" "skip_inv t1 ys"
    "map_of (skip_pairs t1 ys) = (map_of (skip_pairs t xs))(k \<mapsto> v)"
    using sl_put_spec [OF Cons.prems] by blast
  show ?case using Cons.IH [OF t1(2)] by (simp add: p t1)
qed

text \<open>
  C7: whatever the coin flips, every sequence of puts terminates without touching a null pointer and
  leaves a memtable that is the map of the last values: \<open>get\<close> terminates with the map's answer,
  \<open>to_vector\<close> lists the map in strictly ascending key order, and \<open>size\<close> is the number of keys.
\<close>

theorem skiplist_is_sorted_map:
  "\<exists>t. sl_puts ps skiplist_init = Some t \<and>
     (\<forall>k. sl_get k t = Some (foldl (\<lambda>m (flips, k, v). m(k \<mapsto> v)) Map.empty ps k)) \<and>
     (\<exists>kvs. sl_to_vector t = Some kvs \<and> sorted_wrt (\<lambda>p q. fst p < fst q) kvs \<and>
        map_of kvs = foldl (\<lambda>m (flips, k, v). m(k \<mapsto> v)) Map.empty ps \<and> sl_size t = length kvs)"
proof -
  obtain t ys where t: "sl_puts ps skiplist_init = Some t" "skip_inv t ys"
    "map_of (skip_pairs t ys) = foldl (\<lambda>m (flips, k, v). m(k \<mapsto> v)) Map.empty ps"
    using sl_puts_spec [OF skiplist_init_inv, of ps] by (auto simp: skip_pairs_def)
  have "sl_size t = length (skip_pairs t ys)" using t(2) by (simp add: skip_inv_def skip_pairs_def)
  then show ?thesis
    using t sl_get_spec [OF t(2)] sl_to_vector_spec [OF t(2)] skip_pairs_sorted [OF t(2)] by auto
qed

end
