(* ===== verification/SSTable.thy ===== *)
theory SSTable
  imports Bloom_Filter Skip_List Byte_Codec
begin

text \<open>
  The sorted-string table of \<open>concurrent_lsm_tree_engine/sstable.hpp\<close>, byte by byte: blocks of 128
  records of 16 bytes, an index of 24-byte entries, the words of the Bloom filter and a footer of 48
  bytes with four bytes of padding. A file is its bytes; \<open>write\<close> appends everything it is given and
  \<open>pread\<close> stops at the end of the file, leaving the rest of the zero-initialised buffer.
\<close>

subsection \<open>Layout\<close>

type_synonym kv = "u64 \<times> u64"

record BlockIndexEntry =
  last_key :: u64
  block_offset :: u64
  block_count :: u64

record Footer =
  magic :: u32
  index_offset :: u64
  index_count :: u64
  bloom_offset :: u64
  bloom_num_bits_f :: u64
  bloom_num_hashes_f :: u64

definition MAGIC :: u32 where
  "MAGIC = 0x53535431"

definition pair_bytes :: "kv \<Rightarrow> bytes" where
  "pair_bytes p = word_bytes (fst p) @ word_bytes (snd p)"

definition bytes_pair :: "bytes \<Rightarrow> kv" where
  "bytes_pair bs = (bytes_word (take 8 bs), bytes_word (take 8 (drop 8 bs)))"

definition entry_bytes :: "BlockIndexEntry \<Rightarrow> bytes" where
  "entry_bytes e = word_bytes (last_key e) @ word_bytes (block_offset e) @ word_bytes (block_count e)"

definition bytes_entry :: "bytes \<Rightarrow> BlockIndexEntry" where
  "bytes_entry bs = \<lparr>last_key = bytes_word (take 8 bs), block_offset = bytes_word (take 8 (drop 8 bs)),
     block_count = bytes_word (take 8 (drop 16 bs))\<rparr>"

definition footer_bytes :: "bytes \<Rightarrow> Footer \<Rightarrow> bytes" where
  "footer_bytes pad f = le_bytes 4 (unat (magic f)) @ pad @ word_bytes (index_offset f) @ word_bytes (index_count f) @
     word_bytes (bloom_offset f) @ word_bytes (bloom_num_bits_f f) @ word_bytes (bloom_num_hashes_f f)"

definition bytes_footer :: "bytes \<Rightarrow> Footer" where
  "bytes_footer bs = \<lparr>magic = of_nat (le_nat (take 4 bs)), index_offset = bytes_word (take 8 (drop 8 bs)),
     index_count = bytes_word (take 8 (drop 16 bs)), bloom_offset = bytes_word (take 8 (drop 24 bs)),
     bloom_num_bits_f = bytes_word (take 8 (drop 32 bs)), bloom_num_hashes_f = bytes_word (take 8 (drop 40 bs))\<rparr>"

interpretation pair_codec: fixed_codec pair_bytes bytes_pair 16
  by unfold_locales (simp_all add: pair_bytes_def bytes_pair_def)

interpretation entry_codec: fixed_codec entry_bytes bytes_entry 24
  by unfold_locales (simp_all add: entry_bytes_def bytes_entry_def)

lemma footer_round_trip:
  assumes "length pad = 4"
  shows "length (footer_bytes pad f) = 48" "bytes_footer (footer_bytes pad f) = f"
  using assms by (simp_all add: footer_bytes_def bytes_footer_def)

subsection \<open>Operations\<close>

definition RECORDS_PER_BLOCK :: nat where
  "RECORDS_PER_BLOCK = 128"

function build_blocks :: "kv list \<Rightarrow> nat \<Rightarrow> u64 \<Rightarrow> BlockIndexEntry list \<Rightarrow> bytes \<Rightarrow> u64 \<times> BlockIndexEntry list \<times> bytes" where
  "build_blocks pairs i offset idx file =
     (if i < length pairs then
        (let chunk_size = min RECORDS_PER_BLOCK (length pairs - i);
             bytes_to_write = chunk_size * 16;
             entry = \<lparr>last_key = fst (pairs ! (i + chunk_size - 1)), block_offset = offset, block_count = of_nat chunk_size\<rparr>
         in build_blocks pairs (i + RECORDS_PER_BLOCK) (offset + of_nat bytes_to_write) (idx @ [entry])
              (file @ concat (map pair_bytes (take chunk_size (drop i pairs)))))
      else (offset, idx, file))"
  by pat_completeness auto

termination
  by (relation "measure (\<lambda>(pairs, i, offset, idx, file). length pairs - i)") (auto simp: RECORDS_PER_BLOCK_def)

definition sst_build_pairs :: "bytes \<Rightarrow> kv list \<Rightarrow> bytes" where
  "sst_build_pairs pad pairs =
     (let bloom = fold bloom_add (map fst pairs) (bloom_init (length pairs) (1 / 100));
          (index_off, idx, data) = build_blocks pairs 0 0 [] [];
          index_bytes = length idx * 24;
          bloom_off = index_off + of_nat index_bytes;
          footer = \<lparr>magic = MAGIC, index_offset = index_off, index_count = of_nat (length idx), bloom_offset = bloom_off,
                    bloom_num_bits_f = num_bits bloom, bloom_num_hashes_f = num_hashes bloom\<rparr>
      in data @ concat (map entry_bytes idx) @ concat (map word_bytes (bloom_bits bloom)) @ footer_bytes pad footer)"

text \<open>\<open>build\<close>: \<open>None\<close> is the \<open>false\<close> of an empty memtable or of a file that cannot be opened.\<close>

definition sst_build :: "bool \<Rightarrow> bytes \<Rightarrow> SkipListMemTable \<Rightarrow> bytes option" where
  "sst_build opened pad memtable =
     (case sl_to_vector memtable of None \<Rightarrow> None
      | Some pairs \<Rightarrow> if pairs = [] then None else if \<not> opened then None else Some (sst_build_pairs pad pairs))"

record SSTable =
  sst_file :: bytes
  sst_bloom :: BloomFilter
  sst_index :: "BlockIndexEntry list"

text \<open>\<open>pread\<close> of \<open>n\<close> bytes at \<open>off\<close> into a zeroed buffer of \<open>size\<close> bytes.\<close>

definition pread_buf :: "bytes \<Rightarrow> u64 \<Rightarrow> u64 \<Rightarrow> nat \<Rightarrow> bytes" where
  "pread_buf file off n sz =
     (let got = (if unat off \<ge> 2 ^ 63 then [] else take (unat n) (drop (unat off) file))
      in got @ replicate (sz - length got) 0)"

definition sst_open :: "bytes option \<Rightarrow> SSTable option" where
  "sst_open file_opt =
     (case file_opt of None \<Rightarrow> None
      | Some file \<Rightarrow>
          if length file < 48 then None
          else let footer = bytes_footer (drop (length file - 48) file)
          in if magic footer \<noteq> MAGIC then None
          else let n = unat (index_count footer);
                   index_buf = pread_buf file (index_offset footer) (index_count footer * 24) (n * 24);
                   idx = map (\<lambda>i. bytes_entry (take 24 (drop (i * 24) index_buf))) [0..<n];
                   bloom_words = (bloom_num_bits_f footer + 63) div 64;
                   bloom_buf = pread_buf file (bloom_offset footer) (bloom_words * 8) (unat bloom_words * 8);
                   ws = map (\<lambda>i. bytes_word (take 8 (drop (i * 8) bloom_buf))) [0..<unat bloom_words]
          in Some \<lparr>sst_file = file,
                   sst_bloom = set_raw_bits ws (bloom_num_bits_f footer) (bloom_num_hashes_f footer) (bloom_init 10000 (1 / 100)),
                   sst_index = idx\<rparr>)"

function index_search :: "BlockIndexEntry list \<Rightarrow> u64 \<Rightarrow> nat \<Rightarrow> nat \<Rightarrow> nat \<Rightarrow> nat" where
  "index_search idx key low high block_idx =
     (if low < high then
        (let mid = low + (high - low) div 2
         in if last_key (idx ! mid) \<ge> key then index_search idx key low mid mid
            else index_search idx key (mid + 1) high block_idx)
      else block_idx)"
  by pat_completeness auto

termination
  by (relation "measure (\<lambda>(idx, key, low, high, block_idx). high - low)") auto

definition sst_get :: "u64 \<Rightarrow> SSTable \<Rightarrow> u64 option" where
  "sst_get key t =
     (if \<not> bloom_contains key (sst_bloom t) then None
      else let block_idx = index_search (sst_index t) key 0 (length (sst_index t)) (length (sst_index t))
      in if block_idx \<ge> length (sst_index t) then None
      else let e = sst_index t ! block_idx;
               n = unat (block_count e);
               buf = pread_buf (sst_file t) (block_offset e) (block_count e * 16) (n * 16);
               records = map (\<lambda>i. bytes_pair (take 16 (drop (i * 16) buf))) [0..<n];
               it = lower_bound (\<lambda>p. fst p < key) records
      in if it < length records \<and> fst (records ! it) = key then Some (snd (records ! it)) else None)"

declare build_blocks.simps [simp del] index_search.simps [simp del]

subsection \<open>The blocks\<close>

definition block_at :: "kv list \<Rightarrow> nat \<Rightarrow> kv list" where
  "block_at pairs j = take RECORDS_PER_BLOCK (drop (j * RECORDS_PER_BLOCK) pairs)"

definition block_total :: "kv list \<Rightarrow> nat" where
  "block_total pairs = (length pairs + RECORDS_PER_BLOCK - 1) div RECORDS_PER_BLOCK"

definition block_entry :: "kv list \<Rightarrow> nat \<Rightarrow> BlockIndexEntry" where
  "block_entry pairs j = \<lparr>last_key = fst (last (block_at pairs j)),
     block_offset = of_nat (j * RECORDS_PER_BLOCK * 16), block_count = of_nat (length (block_at pairs j))\<rparr>"

lemma block_total_iff: "j < block_total pairs \<longleftrightarrow> j * RECORDS_PER_BLOCK < length pairs"
proof -
  have "j < (length pairs + 127) div 128 \<longleftrightarrow> Suc j * 128 \<le> length pairs + 127"
    by (simp only: Suc_le_eq [symmetric] less_eq_div_iff_mult_less_eq)
  then show ?thesis by (simp add: block_total_def RECORDS_PER_BLOCK_def add.commute Suc_le_eq)
qed

lemma length_block_at: "length (block_at pairs j) = min RECORDS_PER_BLOCK (length pairs - j * RECORDS_PER_BLOCK)"
  by (simp add: block_at_def min.commute)

lemma block_at_nonempty: "j * RECORDS_PER_BLOCK < length pairs \<Longrightarrow> block_at pairs j \<noteq> []"
  by (simp add: block_at_def RECORDS_PER_BLOCK_def)

lemma block_entry_eq:
  assumes "j * RECORDS_PER_BLOCK < length pairs"
  shows "block_entry pairs j = \<lparr>last_key = fst (pairs ! (j * RECORDS_PER_BLOCK + length (block_at pairs j) - 1)),
     block_offset = of_nat (j * RECORDS_PER_BLOCK * 16), block_count = of_nat (length (block_at pairs j))\<rparr>"
proof -
  have "last (block_at pairs j) = pairs ! (j * RECORDS_PER_BLOCK + (length (block_at pairs j) - 1))"
    using assms block_at_nonempty [OF assms] by (simp add: last_conv_nth block_at_def)
  moreover have "0 < length (block_at pairs j)" using block_at_nonempty [OF assms] by simp
  ultimately show ?thesis by (simp add: block_entry_def)
qed

lemma build_blocks_spec:
  "i = j * RECORDS_PER_BLOCK \<Longrightarrow> j \<le> block_total pairs \<Longrightarrow> offset = of_nat (min i (length pairs) * 16) \<Longrightarrow>
   idx = map (block_entry pairs) [0..<j] \<Longrightarrow> buf = concat (map pair_bytes (take i pairs)) \<Longrightarrow>
   build_blocks pairs i offset idx buf =
     (of_nat (length pairs * 16), map (block_entry pairs) [0..<block_total pairs], concat (map pair_bytes pairs))"
proof (induction pairs i offset idx buf arbitrary: j rule: build_blocks.induct)
  case (1 pairs i offset idx buf)
  show ?case
  proof (cases "i < length pairs")
    case True
    define n where "n = min RECORDS_PER_BLOCK (length pairs - i)"
    have jt: "j < block_total pairs" using True "1.prems"(1) by (simp add: block_total_iff)
    have n: "n = length (block_at pairs j)" using "1.prems"(1) by (simp add: n_def length_block_at)
    have e: "\<lparr>last_key = fst (pairs ! (i + n - 1)), block_offset = offset, block_count = of_nat n\<rparr> = block_entry pairs j"
      using True "1.prems"(1,3) by (subst block_entry_eq) (simp_all add: n)
    have idx: "idx @ [block_entry pairs j] = map (block_entry pairs) [0..<j + 1]" using "1.prems"(4) by simp
    have off: "offset + of_nat (n * 16) = of_nat (min (i + RECORDS_PER_BLOCK) (length pairs) * 16)"
    proof -
      have "min i (length pairs) + n = min (i + RECORDS_PER_BLOCK) (length pairs)" using True by (simp add: n_def)
      then have "min i (length pairs) * 16 + n * 16 = min (i + RECORDS_PER_BLOCK) (length pairs) * 16"
        by (metis add_mult_distrib)
      then show ?thesis using "1.prems"(3) by (metis of_nat_add)
    qed
    have out: "buf @ concat (map pair_bytes (take n (drop i pairs))) = concat (map pair_bytes (take (i + RECORDS_PER_BLOCK) pairs))"
    proof -
      have "take n (drop i pairs) = take RECORDS_PER_BLOCK (drop i pairs)" by (simp add: n_def min_def)
      then show ?thesis using "1.prems"(5) by (simp add: take_add)
    qed
    have "build_blocks pairs i offset idx buf = build_blocks pairs (i + RECORDS_PER_BLOCK) (offset + of_nat (n * 16))
        (idx @ [block_entry pairs j]) (buf @ concat (map pair_bytes (take n (drop i pairs))))"
      using True e by (simp add: build_blocks.simps [of pairs i] n_def Let_def)
    also have "\<dots> = (of_nat (length pairs * 16), map (block_entry pairs) [0..<block_total pairs], concat (map pair_bytes pairs))"
      using jt "1.prems"(1)
      by (intro "1.IH" [OF True n_def refl refl, where j = "j + 1", unfolded e] off idx out) simp_all
    finally show ?thesis .
  next
    case False
    then have "j = block_total pairs" using "1.prems"(1,2) block_total_iff [of j pairs] by simp
    then show ?thesis using False "1.prems"(3-5) by (simp add: build_blocks.simps [of pairs i])
  qed
qed

lemma build_blocks_eq:
  "build_blocks pairs 0 0 [] [] =
     (of_nat (length pairs * 16), map (block_entry pairs) [0..<block_total pairs], concat (map pair_bytes pairs))"
  by (rule build_blocks_spec [of _ 0]) simp_all

subsection \<open>The index search\<close>

lemma index_search_spec:
  "block_idx = high \<Longrightarrow> low \<le> high \<Longrightarrow> high \<le> length idx \<Longrightarrow> sorted_wrt (\<lambda>a b. last_key a \<le> last_key b) idx \<Longrightarrow>
   (\<And>i. i < low \<Longrightarrow> last_key (idx ! i) < key) \<Longrightarrow> (high < length idx \<Longrightarrow> key \<le> last_key (idx ! high)) \<Longrightarrow>
   r = index_search idx key low high block_idx \<Longrightarrow>
   r \<le> length idx \<and> (\<forall>i<r. last_key (idx ! i) < key) \<and> (r < length idx \<longrightarrow> key \<le> last_key (idx ! r))"
proof (induction idx key low high block_idx rule: index_search.induct)
  case (1 idx key low high block_idx)
  define mid where "mid = low + (high - low) div 2"
  show ?case
  proof (cases "low < high")
    case True
    then have mid: "low \<le> mid" "mid < high" by (auto simp: mid_def)
    show ?thesis
    proof (cases "key \<le> last_key (idx ! mid)")
      case le: True
      have "r = index_search idx key low mid mid"
        using "1.prems"(7) True le by (simp add: index_search.simps [of idx key low high] mid_def Let_def)
      then show ?thesis using "1.IH"(1) [OF True mid_def le refl] mid "1.prems" le by simp
    next
      case False
      have r: "r = index_search idx key (mid + 1) high block_idx"
        using "1.prems"(7) True False by (simp add: index_search.simps [of idx key low high] mid_def Let_def)
      have "last_key (idx ! i) < key" if "i < mid + 1" for i
      proof -
        have "i = mid \<or> i < mid" using that by auto
        then have "last_key (idx ! i) \<le> last_key (idx ! mid)"
          using sorted_wrt_nth_less [OF "1.prems"(4), of i mid] mid "1.prems"(3) by auto
        then show ?thesis using False by simp
      qed
      then show ?thesis using "1.IH"(2) [OF True mid_def False "1.prems"(1) _ "1.prems"(3,4) _ "1.prems"(6) r] mid by simp
    qed
  next
    case False
    then have "r = high" "low = high"
      using "1.prems"(1,2) "1.prems"(7) [unfolded index_search.simps [of idx key low high]] by simp_all
    then show ?thesis using "1.prems" by simp
  qed
qed

subsection \<open>Lookup in sorted pairs\<close>

abbreviation key_sorted :: "kv list \<Rightarrow> bool" where
  "key_sorted ps \<equiv> sorted_wrt (\<lambda>p q. fst p < fst q) ps"

lemma map_of_None_keys: "(\<And>p. p \<in> set ps \<Longrightarrow> fst p \<noteq> key) \<Longrightarrow> map_of ps key = None"
  by (auto simp: map_of_eq_None_iff)

lemma sorted_lookup:
  assumes "key_sorted ps" "it = lower_bound (\<lambda>p. fst p < key) ps"
  shows "(if it < length ps \<and> fst (ps ! it) = key then Some (snd (ps ! it)) else None) = map_of ps key"
  using assms
proof (induction ps arbitrary: it)
  case Nil
  then show ?case by simp
next
  case (Cons p ps)
  show ?case
  proof (cases "fst p < key")
    case True
    define it' where "it' = lower_bound (\<lambda>p. fst p < key) ps"
    have "it = Suc it'" using Cons.prems(2) True by (simp add: lower_bound_def it'_def)
    then show ?thesis using Cons.IH [OF _ it'_def] Cons.prems(1) True by (cases p) auto
  next
    case False
    then have it: "it = 0" using Cons.prems(2) by (simp add: lower_bound_def)
    have "map_of ps key = None" if "fst p \<noteq> key"
      using Cons.prems(1) False that by (intro map_of_None_keys) auto
    then show ?thesis using it by (cases p) auto
  qed
qed

lemma key_sorted_nth_mono:
  assumes "key_sorted ps" "i \<le> j" "j < length ps"
  shows "fst (ps ! i) \<le> fst (ps ! j)"
  using assms sorted_wrt_nth_less [OF assms(1), of i j] by (cases "i = j") auto

lemma last_key_entry:
  assumes "j < block_total pairs"
  shows "last_key (block_entry pairs j) = fst (pairs ! (min (Suc j * RECORDS_PER_BLOCK) (length pairs) - 1))"
proof -
  have j: "j * RECORDS_PER_BLOCK < length pairs" using assms by (simp add: block_total_iff)
  have "j * RECORDS_PER_BLOCK + length (block_at pairs j) = min (Suc j * RECORDS_PER_BLOCK) (length pairs)"
    using j by (simp add: length_block_at)
  then show ?thesis by (simp only: block_entry_eq [OF j]) simp
qed

lemma entries_sorted:
  assumes "key_sorted pairs"
  shows "sorted_wrt (\<lambda>a b. last_key a \<le> last_key b) (map (block_entry pairs) [0..<block_total pairs])"
  unfolding sorted_wrt_iff_nth_less
proof (intro allI impI)
  fix i j assume ij: "i < j" "j < length (map (block_entry pairs) [0..<block_total pairs])"
  let ?e = "\<lambda>k. min (Suc k * RECORDS_PER_BLOCK) (length pairs) - 1"
  have j: "j < block_total pairs" using ij(2) by simp
  then have pos: "0 < length pairs" by (auto simp: block_total_iff)
  have "Suc i * RECORDS_PER_BLOCK \<le> Suc j * RECORDS_PER_BLOCK" using ij(1) by (intro mult_le_mono1) simp
  then have "?e i \<le> ?e j" "?e j < length pairs" using pos by (auto simp: min_def RECORDS_PER_BLOCK_def)
  then have "fst (pairs ! ?e i) \<le> fst (pairs ! ?e j)" by (rule key_sorted_nth_mono [OF assms])
  then show "last_key (map (block_entry pairs) [0..<block_total pairs] ! i) \<le> last_key (map (block_entry pairs) [0..<block_total pairs] ! j)"
    using ij j by (simp add: last_key_entry)
qed

lemma lookup_block:
  assumes srt: "key_sorted pairs" and r: "r \<le> block_total pairs"
    and lo: "\<And>i. i < r \<Longrightarrow> last_key (block_entry pairs i) < key"
    and hi: "r < block_total pairs \<Longrightarrow> key \<le> last_key (block_entry pairs r)"
  shows "map_of pairs key = (if r < block_total pairs then map_of (block_at pairs r) key else None)"
proof -
  let ?R = RECORDS_PER_BLOCK
  have low: "map_of (take (r * ?R) pairs) key = None"
  proof (rule map_of_None_keys)
    fix p assume "p \<in> set (take (r * ?R) pairs)"
    then obtain i where i: "i < r * ?R" "i < length pairs" "p = pairs ! i" by (auto simp: in_set_conv_nth)
    define j where "j = i div ?R"
    have "j < r" using i(1) by (simp add: j_def less_mult_imp_div_less)
    then have j: "j < block_total pairs" using r by simp
    have "i < Suc j * ?R" by (simp add: j_def RECORDS_PER_BLOCK_def dividend_less_div_times)
    then have "fst (pairs ! i) \<le> last_key (block_entry pairs j)"
      unfolding last_key_entry [OF j] using i(2) by (intro key_sorted_nth_mono [OF srt]) auto
    also have "\<dots> < key" using lo [OF \<open>j < r\<close>] .
    finally show "fst p \<noteq> key" using i(3) by simp
  qed
  define A B C where "A = take (r * ?R) pairs" and "B = block_at pairs r" and "C = drop (Suc r * ?R) pairs"
  have "C = drop ?R (drop (r * ?R) pairs)" by (simp add: C_def add.commute)
  then have split: "pairs = A @ B @ C" by (simp only: A_def B_def block_at_def append_take_drop_id)
  show ?thesis
  proof (cases "r < block_total pairs")
    case True
    have "map_of (drop (Suc r * ?R) pairs) key = None"
    proof (rule map_of_None_keys)
      fix p assume "p \<in> set (drop (Suc r * ?R) pairs)"
      then obtain d where d: "d < length (drop (Suc r * ?R) pairs)" "p = drop (Suc r * ?R) pairs ! d"
        unfolding in_set_conv_nth by blast
      define i where "i = Suc r * ?R + d"
      have i: "Suc r * ?R \<le> i" "i < length pairs" "p = pairs ! i" using d by (auto simp: i_def)
      have "key \<le> last_key (block_entry pairs r)" by (rule hi [OF True])
      also have "\<dots> < fst (pairs ! i)" unfolding last_key_entry [OF True]
        using i(1,2) by (intro sorted_wrt_nth_less [OF srt]) (auto simp: RECORDS_PER_BLOCK_def)
      finally show "fst p \<noteq> key" using i(3) by simp
    qed
    then have C: "map_of C key = None" by (simp only: C_def)
    have "map_of pairs key = map_of (A @ B @ C) key" using split by (rule arg_cong)
    also have "\<dots> = map_of B key" using low C by (simp add: A_def [symmetric] map_add_def split: option.splits)
    finally show ?thesis using True by (simp add: B_def)
  next
    case False
    then have "length pairs \<le> r * ?R" using block_total_iff [of r pairs] by simp
    then show ?thesis using low False by simp
  qed
qed

subsection \<open>Opening a table that was built\<close>

lemma pread_buf_mid:
  assumes "unat off = length pre" "length pre < 2 ^ 63" "unat n = length mid" "sz = length mid"
  shows "pread_buf (pre @ mid @ post) off n sz = mid"
  using assms by (simp add: pread_buf_def)

lemma bloom_fold_shape:
  "num_bits (fold bloom_add ks b) = num_bits b \<and> num_hashes (fold bloom_add ks b) = num_hashes b \<and>
   length (bloom_bits (fold bloom_add ks b)) = length (bloom_bits b)"
  by (induction ks arbitrary: b) simp_all

lemma bloom_words:
  "length (bloom_bits (fold bloom_add ks (bloom_init n fpp))) = unat ((num_bits (fold bloom_add ks (bloom_init n fpp)) + 63) div 64)"
  unfolding bloom_fold_shape [THEN conjunct2, THEN conjunct2] bloom_fold_shape [THEN conjunct1]
  by (simp add: bloom_init_def Let_def)

lemma unat_div64_bound: "unat ((w :: u64) div 64) \<le> 2 ^ 58"
  using unat_u64_less [of w] by (simp add: unat_div_distrib)

lemma block_total_le: "block_total pairs \<le> length pairs"
proof (rule ccontr)
  assume "\<not> ?thesis"
  then have "length pairs < block_total pairs" by simp
  then have "length pairs * RECORDS_PER_BLOCK < length pairs" by (simp add: block_total_iff)
  then show False by (simp add: RECORDS_PER_BLOCK_def)
qed

definition sst_bloom_of :: "kv list \<Rightarrow> BloomFilter" where
  "sst_bloom_of pairs = fold bloom_add (map fst pairs) (bloom_init (length pairs) (1 / 100))"

lemma sst_open_build:
  assumes pad: "length pad = 4" and n: "length pairs \<le> 2 ^ 48"
  shows "sst_open (Some (sst_build_pairs pad pairs)) =
    Some \<lparr>sst_file = sst_build_pairs pad pairs, sst_bloom = sst_bloom_of pairs,
          sst_index = map (block_entry pairs) [0..<block_total pairs]\<rparr>"
proof -
  define b where "b = sst_bloom_of pairs"
  define idx where "idx = map (block_entry pairs) [0..<block_total pairs]"
  define D I B where "D = concat (map pair_bytes pairs)" and "I = concat (map entry_bytes idx)"
    and "B = concat (map word_bytes (bloom_bits b))"
  define f where "f = \<lparr>magic = MAGIC, index_offset = of_nat (length pairs * 16), index_count = of_nat (length idx),
      bloom_offset = of_nat (length pairs * 16) + of_nat (length idx * 24), bloom_num_bits_f = num_bits b, bloom_num_hashes_f = num_hashes b\<rparr>"
  define ws where "ws = (num_bits b + 63) div 64"
  have fl: "sst_build_pairs pad pairs = D @ I @ B @ footer_bytes pad f"
    unfolding sst_build_pairs_def build_blocks_eq
    by (simp add: Let_def sst_bloom_of_def [symmetric] b_def [symmetric] idx_def [symmetric] D_def I_def B_def f_def)
  have len: "length D = length pairs * 16" "length I = length idx * 24" "length B = unat ws * 8"
    unfolding D_def I_def B_def pair_codec.length_array entry_codec.length_array word_codec.length_array
    by (simp_all add: b_def sst_bloom_of_def bloom_words ws_def)
  have idxn: "length idx \<le> 2 ^ 48" using block_total_le [of pairs] n by (simp add: idx_def)
  have io: "unat (index_offset f) = length D" "unat (index_count f) = length idx" "unat (index_count f * 24) = length I"
    "unat (bloom_offset f) = length (D @ I)"
    using n idxn unat_of_nat_u64 [of "length pairs * 16"] unat_of_nat_u64 [of "length idx"]
      unat_of_nat_u64 [of "length idx * 24"] unat_of_nat_u64 [of "length pairs * 16 + length idx * 24"]
    by (simp_all add: f_def len)
  have wb: "unat (ws * 8) = length B"
    using unat_div64_bound [of "num_bits b + 63"] unat_of_nat_u64 [of "unat ws * 8"] by (simp add: len ws_def)
  have small: "length D < 2 ^ 63" "length (D @ I) < 2 ^ 63" using n idxn by (simp_all add: len)
  have r1: "pread_buf (D @ I @ B @ footer_bytes pad f) (index_offset f) (index_count f * 24) (length idx * 24) = I"
    using io small by (intro pread_buf_mid) (simp_all add: len)
  have r2: "pread_buf (D @ I @ B @ footer_bytes pad f) (bloom_offset f) (ws * 8) (unat ws * 8) = B"
    using pread_buf_mid [OF io(4) small(2) wb, of "unat ws * 8" "footer_bytes pad f"] len(3) by simp
  have dI: "map (\<lambda>i. bytes_entry (take 24 (drop (i * 24) I))) [0..<length idx] = idx"
    using entry_codec.decode_array [of idx "[]"] by (simp add: I_def)
  have "length (bloom_bits b) = unat ws" by (simp add: b_def sst_bloom_of_def bloom_words ws_def)
  then have dB: "map (\<lambda>i. bytes_word (take 8 (drop (i * 8) B))) [0..<unat ws] = bloom_bits b"
    using word_codec.decode_array [of "bloom_bits b" "[]"] by (simp add: B_def)
  have ft: "bytes_footer (drop (length (D @ I @ B @ footer_bytes pad f) - 48) (D @ I @ B @ footer_bytes pad f)) = f"
    using footer_round_trip [OF pad, of f] by simp
  have fm: "magic f = MAGIC" "bloom_num_bits_f f = num_bits b" "bloom_num_hashes_f f = num_hashes b" by (simp_all add: f_def)
  have "\<not> length (D @ I @ B @ footer_bytes pad f) < 48" using footer_round_trip(1) [OF pad, of f] by simp
  then show ?thesis
    unfolding fl sst_open_def option.case ft Let_def fm io(2) r1 dI
    unfolding ws_def [symmetric] r2 dB by (simp add: set_raw_bits_def b_def [symmetric] idx_def [symmetric])
qed

lemma sst_read_block:
  assumes n: "length pairs \<le> 2 ^ 48" and srt: "key_sorted pairs" and rt: "r < block_total pairs"
    and blk_def: "blk = block_at pairs r" and e: "e = block_entry pairs r"
  shows "unat (block_count e) = length blk" "key_sorted blk"
    "pread_buf (sst_build_pairs pad pairs) (block_offset e) (block_count e * 16) (length blk * 16) = concat (map pair_bytes blk)"
    "map (\<lambda>i. bytes_pair (take 16 (drop (i * 16) (concat (map pair_bytes blk))))) [0..<length blk] = blk"
proof -
  have rl: "r * RECORDS_PER_BLOCK < length pairs" using rt by (simp add: block_total_iff)
  have blen: "length blk \<le> 128" by (simp add: blk_def length_block_at RECORDS_PER_BLOCK_def)
  show "unat (block_count e) = length blk"
    using blen unat_of_nat_u64 [of "length blk"] by (simp add: e block_entry_def blk_def)
  have cnt: "unat (block_count e * 16) = length blk * 16"
    using blen unat_of_nat_u64 [of "length blk * 16"] by (simp add: e block_entry_def blk_def)
  define pre post where "pre = take (r * RECORDS_PER_BLOCK) pairs" and "post = drop (Suc r * RECORDS_PER_BLOCK) pairs"
  have "post = drop RECORDS_PER_BLOCK (drop (r * RECORDS_PER_BLOCK) pairs)" by (simp add: post_def add.commute)
  then have sp3: "pairs = pre @ blk @ post" by (simp only: pre_def blk_def block_at_def append_take_drop_id)
  have lp: "length pre = r * RECORDS_PER_BLOCK" using rl by (simp add: pre_def)
  have "key_sorted (pre @ blk @ post)" using srt sp3 by (rule subst [rotated])
  then show "key_sorted blk" by (simp add: sorted_wrt_append)
  obtain tail where "sst_build_pairs pad pairs = concat (map pair_bytes pairs) @ tail"
    unfolding sst_build_pairs_def build_blocks_eq by (simp add: Let_def)
  then have fl: "sst_build_pairs pad pairs =
      concat (map pair_bytes pre) @ concat (map pair_bytes blk) @ (concat (map pair_bytes post) @ tail)"
    using arg_cong [OF sp3, of "\<lambda>ps. concat (map pair_bytes ps)"] by simp
  have bound: "r * RECORDS_PER_BLOCK * 16 < 2 ^ 63" using rl n by (simp add: mult.commute)
  then have off: "unat (block_offset e) = length (concat (map pair_bytes pre))"
    using unat_of_nat_u64 [of "r * RECORDS_PER_BLOCK * 16"] by (simp add: e block_entry_def pair_codec.length_array lp)
  show "pread_buf (sst_build_pairs pad pairs) (block_offset e) (block_count e * 16) (length blk * 16) = concat (map pair_bytes blk)"
    unfolding fl using off cnt bound by (intro pread_buf_mid) (simp_all add: pair_codec.length_array lp)
  show "map (\<lambda>i. bytes_pair (take 16 (drop (i * 16) (concat (map pair_bytes blk))))) [0..<length blk] = blk"
    using pair_codec.decode_array [of blk "[]"] by simp
qed

lemma sst_get_built:
  assumes pad: "length pad = 4" and n: "length pairs \<le> 2 ^ 48" and srt: "key_sorted pairs" "pairs \<noteq> []"
    and t: "sst_open (Some (sst_build_pairs pad pairs)) = Some t"
  shows "sst_get key t = map_of pairs key"
proof -
  define idx where "idx = map (block_entry pairs) [0..<block_total pairs]"
  have t': "t = \<lparr>sst_file = sst_build_pairs pad pairs, sst_bloom = sst_bloom_of pairs, sst_index = idx\<rparr>"
    using t sst_open_build [OF pad n] by (simp add: idx_def)
  have "bloom_ok (bloom_init (length pairs) (1 / 100))"
    using n srt(2) by (intro bloom_init_ok bloom_num_bits_bound) simp
  then have bloom: "map_of pairs key = None" if "\<not> bloom_contains key (sst_bloom_of pairs)"
    using that bloom_adds_contains [of "bloom_init (length pairs) (1 / 100)" key "map fst pairs"]
    by (auto simp: sst_bloom_of_def map_of_eq_None_iff)
  define r where "r = index_search idx key 0 (length idx) (length idx)"
  have sp: "r \<le> length idx" "\<forall>i<r. last_key (idx ! i) < key" "r < length idx \<longrightarrow> key \<le> last_key (idx ! r)"
    using index_search_spec [OF refl _ _ entries_sorted [OF srt(1), folded idx_def] _ _ r_def] by simp_all
  have look: "map_of pairs key = (if r < block_total pairs then map_of (block_at pairs r) key else None)"
  proof (rule lookup_block [OF srt(1)])
    show "r \<le> block_total pairs" using sp(1) by (simp add: idx_def)
    show "last_key (block_entry pairs i) < key" if "i < r" for i
      using that sp(1,2) by (simp add: idx_def)
    show "key \<le> last_key (block_entry pairs r)" if "r < block_total pairs"
      using that sp(3) by (simp add: idx_def)
  qed
  show ?thesis
  proof (cases "bloom_contains key (sst_bloom_of pairs) \<and> r < length idx")
    case True
    have rt: "r < block_total pairs" using True by (simp add: idx_def)
    have e: "idx ! r = block_entry pairs r" using rt by (simp add: idx_def)
    note rb = sst_read_block [OF n srt(1) rt refl e]
    have recs: "map (\<lambda>i. bytes_pair (take 16 (drop (i * 16) (pread_buf (sst_build_pairs pad pairs) (block_offset (idx ! r))
        (block_count (idx ! r) * 16) (unat (block_count (idx ! r)) * 16))))) [0..<unat (block_count (idx ! r))] = block_at pairs r"
      by (simp only: rb)
    have "sst_get key t = map_of (block_at pairs r) key"
      unfolding sst_get_def t' SSTable.simps r_def [symmetric] Let_def recs
      using True sorted_lookup [OF rb(2) refl, of key] by (simp split del: if_split)
    then show ?thesis using look rt by simp
  next
    case False
    have "map_of pairs key = None" if "\<not> r < length idx" using that look by (simp add: idx_def)
    then have "map_of pairs key = None" using False bloom by blast
    then show ?thesis using False by (simp add: sst_get_def t' r_def [symmetric] Let_def not_less)
  qed
qed

text \<open>
  C9: a table built from sorted pairs and opened again answers every key exactly as the pairs do:
  the data blocks, the index, the Bloom filter and the footer survive the trip through the file,
  the filter never hides a stored key and the two binary searches find the record.
\<close>

theorem sstable_round_trip:
  assumes "length pad = 4" "length pairs \<le> 2 ^ 48" "key_sorted pairs" "pairs \<noteq> []"
  shows "\<exists>t. sst_open (Some (sst_build_pairs pad pairs)) = Some t \<and> (\<forall>key. sst_get key t = map_of pairs key)"
  using sst_get_built [OF assms] sst_open_build [OF assms(1,2)] by simp

theorem sstable_round_trip_witness:
  "\<exists>t. sst_open (Some (sst_build_pairs [0, 0, 0, 0] [(3, 30), (7, 70)])) = Some t \<and> sst_get 7 t = Some 70 \<and> sst_get 5 t = None"
proof -
  have "\<exists>t. sst_open (Some (sst_build_pairs [0, 0, 0, 0] [(3, 30), (7, 70)])) = Some t \<and>
      (\<forall>key. sst_get key t = map_of [(3, 30), (7, 70)] key)"
    by (rule sstable_round_trip) simp_all
  then show ?thesis by auto
qed

end
