(* ===== verification/Lsm_Engine.thy ===== *)
theory Lsm_Engine
  imports SSTable
begin

text \<open>
  The LSM-tree engine of \<open>concurrent_lsm_tree_engine/lsm_engine.hpp\<close> over the models of its memtable
  and its tables. Calls are atomic under the engine latch. The outcome of the two \<open>open\<close> calls of a
  flush and the padding bytes of the footer are arguments; a file is kept under the number in its name.
\<close>

record flush_env =
  build_opened :: bool
  read_opened :: bool
  footer_pad :: bytes

record LsmEngine =
  memtable_threshold_bytes :: nat
  next_sst_id :: u64
  memtable :: SkipListMemTable
  sstables :: "SSTable list"
  sst_files :: "u64 \<rightharpoonup> bytes"

definition lsm_init :: "nat \<Rightarrow> (u64 \<rightharpoonup> bytes) \<Rightarrow> LsmEngine" where
  "lsm_init threshold files = \<lparr>memtable_threshold_bytes = threshold, next_sst_id = 0, memtable = skiplist_init,
     sstables = [], sst_files = files\<rparr>"

definition flush_memtable_internal :: "flush_env \<Rightarrow> LsmEngine \<Rightarrow> LsmEngine" where
  "flush_memtable_internal env e =
     (if sl_size (memtable e) = 0 then e
      else let sst_id = next_sst_id e;
               e1 = e\<lparr>next_sst_id := sst_id + 1\<rparr>;
               e2 = (case sst_build (build_opened env) (footer_pad env) (memtable e1) of
                       None \<Rightarrow> e1
                     | Some bs \<Rightarrow>
                         let files = (sst_files e1)(sst_id \<mapsto> bs)
                         in case sst_open (if read_opened env then files sst_id else None) of
                              None \<Rightarrow> e1\<lparr>sst_files := files\<rparr>
                            | Some sst \<Rightarrow> e1\<lparr>sst_files := files, sstables := sstables e1 @ [sst]\<rparr>)
           in e2\<lparr>memtable := skiplist_init\<rparr>)"

definition lsm_put :: "flush_env \<Rightarrow> (nat \<Rightarrow> bool) \<Rightarrow> u64 \<Rightarrow> u64 \<Rightarrow> LsmEngine \<Rightarrow> LsmEngine option" where
  "lsm_put env flips key val e =
     (case sl_put flips key val (memtable e) of None \<Rightarrow> None
      | Some mt \<Rightarrow>
          let e1 = e\<lparr>memtable := mt\<rparr>
          in Some (if sl_byte_size (memtable e1) \<ge> memtable_threshold_bytes e1 then flush_memtable_internal env e1 else e1))"

fun search_sstables :: "u64 \<Rightarrow> SSTable list \<Rightarrow> u64 option" where
  "search_sstables key [] = None"
| "search_sstables key (t # ts) = (case sst_get key t of Some v \<Rightarrow> Some v | None \<Rightarrow> search_sstables key ts)"

definition lsm_get :: "u64 \<Rightarrow> LsmEngine \<Rightarrow> u64 option option" where
  "lsm_get key e =
     (case sl_get key (memtable e) of None \<Rightarrow> None
      | Some (Some v) \<Rightarrow> Some (Some v)
      | Some None \<Rightarrow> Some (search_sstables key (rev (sstables e))))"

definition flush_memtable :: "flush_env \<Rightarrow> LsmEngine \<Rightarrow> LsmEngine" where
  "flush_memtable env e = flush_memtable_internal env e"

subsection \<open>The engine is a map\<close>

definition lsm_view :: "LsmEngine \<Rightarrow> nat list \<Rightarrow> u64 \<rightharpoonup> u64" where
  "lsm_view e xs = (\<lambda>k. search_sstables k (rev (sstables e))) ++ map_of (skip_pairs (memtable e) xs)"


lemma skip_pairs_init [simp]: "skip_pairs t [] = []"
  by (simp add: skip_pairs_def)

lemma lsm_get_view: "skip_inv (memtable e) xs \<Longrightarrow> lsm_get k e = Some (lsm_view e xs k)"
  by (simp add: lsm_get_def sl_get_spec lsm_view_def map_add_def split: option.splits)










definition sample_env :: flush_env where
  "sample_env = \<lparr>build_opened = True, read_opened = True, footer_pad = [0, 0, 0, 0]\<rparr>"


lemma sl_put_bytes: "sl_put flips k v t = Some t' \<Longrightarrow> sl_byte_size t' \<le> sl_byte_size t + 176"
  using random_level_bounds(2) [of flips]
  by (auto simp: sl_put_def sl_insert_def Let_def MAX_LEVEL_def split: option.splits if_splits prod.splits)

text \<open>
  A flush whose table file cannot be created still replaces the memtable. A value that was just
  put and could be read is gone after such a flush.
\<close>

theorem lsm_failed_flush_loses_memtable:
  assumes "\<not> build_opened env" and "176 < threshold"
  shows "\<exists>e. lsm_put env flips k v (lsm_init threshold files) = Some e \<and> lsm_get k e = Some (Some v) \<and>
    lsm_get k (flush_memtable env e) = Some None"
proof -
  obtain t ys where t: "sl_put flips k v skiplist_init = Some t" "skip_inv t ys" "map_of (skip_pairs t ys) = [k \<mapsto> v]"
    using sl_put_spec [OF skiplist_init_inv, of flips k v] by auto
  define e where "e = (lsm_init threshold files)\<lparr>memtable := t\<rparr>"
  have "sl_byte_size t < threshold" using sl_put_bytes [OF t(1)] assms(2) by (simp add: skiplist_init_def)
  then have "lsm_put env flips k v (lsm_init threshold files) = Some e"
    using t(1) by (simp add: lsm_put_def e_def lsm_init_def Let_def)
  moreover have "lsm_get k e = Some (Some v)"
    using lsm_get_view [of e ys k] t by (simp add: lsm_view_def e_def)
  moreover have "ys \<noteq> []" using t(3) by (auto simp: fun_eq_iff split: if_splits)
  then have "sl_size t \<noteq> 0" using t(2) by (simp add: skip_inv_def)
  then have "flush_memtable env e = e\<lparr>next_sst_id := 1, memtable := skiplist_init\<rparr>"
    using assms(1) sl_to_vector_spec [OF t(2)]
    by (simp add: flush_memtable_def flush_memtable_internal_def sst_build_def e_def lsm_init_def Let_def)
  then have "lsm_get k (flush_memtable env e) = Some None"
    using lsm_get_view [of "flush_memtable env e" "[]" k] skiplist_init_inv by (simp add: lsm_view_def e_def lsm_init_def)
  ultimately show ?thesis by blast
qed

theorem lsm_failed_flush_loses_memtable_witness:
  "\<exists>e. lsm_put (sample_env\<lparr>build_opened := False\<rparr>) (\<lambda>_. True) 1 10 (lsm_init 65536 Map.empty) = Some e \<and>
     lsm_get 1 e = Some (Some 10) \<and> lsm_get 1 (flush_memtable (sample_env\<lparr>build_opened := False\<rparr>) e) = Some None"
  by (rule lsm_failed_flush_loses_memtable) simp_all

end
