(* ===== verification/Embedded_Db.thy ===== *)
theory Embedded_Db
  imports Lsm_Engine
begin

text \<open>
  The embedded database of \<open>02-embedded-lsm-kv-database/embedded_lsm_database.hpp\<close>: the memtable and
  tables of the LSM engine with a log of 16-byte entries and crash recovery. An open table keeps its
  index and filter in memory and reads records from its file as it is now, so a table is its number
  with the parsed part. The order of the directory iterator, the outcome of every \<open>open\<close> and the
  number of bytes a log write transfers are arguments. The background thread only calls
  \<open>compact_level0\<close>, which leaves the state as it is.
\<close>

record EmbeddedLsmDatabase =
  emb_threshold :: nat
  emb_wal_open :: bool
  emb_wal :: bytes
  emb_next_sst_id :: u64
  emb_memtable :: SkipListMemTable
  emb_sstables :: "(u64 \<times> SSTable) list"
  emb_files :: "u64 \<rightharpoonup> bytes"


definition flush_memtable_locked :: "flush_env \<Rightarrow> EmbeddedLsmDatabase \<Rightarrow> EmbeddedLsmDatabase" where
  "flush_memtable_locked env e =
     (if sl_size (emb_memtable e) = 0 then e
      else let sst_id = emb_next_sst_id e;
               e1 = e\<lparr>emb_next_sst_id := sst_id + 1\<rparr>;
               e2 = (case sst_build (build_opened env) (footer_pad env) (emb_memtable e1) of
                       None \<Rightarrow> e1
                     | Some bs \<Rightarrow>
                         let files = (emb_files e1)(sst_id \<mapsto> bs)
                         in case sst_open (if read_opened env then files sst_id else None) of
                              None \<Rightarrow> e1\<lparr>emb_files := files\<rparr>
                            | Some sst \<Rightarrow> e1\<lparr>emb_files := files, emb_sstables := emb_sstables e1 @ [(sst_id, sst)]\<rparr>)
           in e2\<lparr>emb_memtable := skiplist_init\<rparr>)"





definition emb_flush_memtable :: "flush_env \<Rightarrow> EmbeddedLsmDatabase \<Rightarrow> EmbeddedLsmDatabase" where
  "emb_flush_memtable env e = flush_memtable_locked env e"




definition emb_compact_level0 :: "EmbeddedLsmDatabase \<Rightarrow> EmbeddedLsmDatabase" where
  "emb_compact_level0 e = (if length (emb_sstables e) < 4 then e else e)"

definition emb_close :: "flush_env \<Rightarrow> EmbeddedLsmDatabase \<Rightarrow> EmbeddedLsmDatabase" where
  "emb_close env e = (emb_flush_memtable env e)\<lparr>emb_wal_open := False\<rparr>"


subsection \<open>Replay\<close>


subsection \<open>Histories\<close>











subsection \<open>A lifetime and a crash\<close>













end
