(* ===== verification/Txn_Engine.thy ===== *)
theory Txn_Engine
  imports Byte_Codec
begin

text \<open>
  Multi-version transactions: the read views and version chains of \<open>mvcc_undo_log.hpp\<close>, the transaction
  manager and the transactional engine of \<open>mini_transactional_engine/\<close>. Undo records are never changed
  once linked, so a chain of shared pointers is a list, newest first. Transactions are shared objects
  the engine and its callers refer to; they are kept in a store under their number. The order in which
  the hash map of active transactions is traversed is an argument. The log is its bytes, in packed
  headers of 21 bytes followed by the value.
\<close>

subsection \<open>Read views and version chains\<close>

record ReadView =
  creator_txn_id :: u64
  up_limit_id :: u64
  low_limit_id :: u64
  active_ids :: "u64 list"

definition is_visible :: "ReadView \<Rightarrow> u64 \<Rightarrow> bool" where
  "is_visible view xmin =
     (if xmin = creator_txn_id view then True
      else if xmin < up_limit_id view then True
      else if xmin \<ge> low_limit_id view then False
      else \<not> binary_search (active_ids view) xmin)"

record UndoRecord =
  undo_xmin :: u64
  undo_old_val :: bytes

record TupleSlot =
  slot_key_f :: u64
  slot_val :: bytes
  slot_xmin :: u64
  roll_ptr :: "UndoRecord list"

fun read_chain :: "ReadView \<Rightarrow> UndoRecord list \<Rightarrow> bytes option" where
  "read_chain view [] = None"
| "read_chain view (u # us) = (if is_visible view (undo_xmin u) then Some (undo_old_val u) else read_chain view us)"

definition read_tuple_snapshot :: "TupleSlot \<Rightarrow> ReadView \<Rightarrow> bytes option" where
  "read_tuple_snapshot tuple view =
     (if is_visible view (slot_xmin tuple) then Some (slot_val tuple) else read_chain view (roll_ptr tuple))"

subsection \<open>The transaction manager\<close>

datatype TxnState = ACTIVE | COMMITTED | ABORTED

record Transaction =
  txn_id :: u64
  txn_state :: TxnState
  txn_view :: ReadView
  undo_entries :: "(u64 \<times> bytes) list"

record TransactionManager =
  next_txn_id :: u64
  active_txns :: "u64 set"
  txn_store :: "u64 \<Rightarrow> Transaction"

definition empty_txn :: Transaction where
  "empty_txn = \<lparr>txn_id = 0, txn_state = ACTIVE,
     txn_view = \<lparr>creator_txn_id = 0, up_limit_id = 0, low_limit_id = 0, active_ids = []\<rparr>, undo_entries = []\<rparr>"

definition tm_init :: TransactionManager where
  "tm_init = \<lparr>next_txn_id = 1, active_txns = {}, txn_store = (\<lambda>_. empty_txn)\<rparr>"

definition tm_begin :: "u64 list \<Rightarrow> TransactionManager \<Rightarrow> u64 \<times> TransactionManager" where
  "tm_begin order tm =
     (let tid = next_txn_id tm;
          ids = filter (\<lambda>i. txn_state (txn_store tm i) = ACTIVE) order;
          min_active = foldl (\<lambda>m i. if i < m then i else m) tid ids;
          txn = \<lparr>txn_id = tid, txn_state = ACTIVE,
                 txn_view = \<lparr>creator_txn_id = tid, up_limit_id = min_active, low_limit_id = tid, active_ids = sort ids\<rparr>,
                 undo_entries = []\<rparr>
      in (tid, tm\<lparr>next_txn_id := tid + 1, active_txns := insert tid (active_txns tm), txn_store := (txn_store tm)(tid := txn)\<rparr>))"

definition tm_commit :: "u64 \<Rightarrow> TransactionManager \<Rightarrow> TransactionManager" where
  "tm_commit tid tm = tm\<lparr>txn_store := (txn_store tm)(tid := (txn_store tm tid)\<lparr>txn_state := COMMITTED\<rparr>),
     active_txns := active_txns tm - {tid}\<rparr>"

definition tm_abort :: "u64 \<Rightarrow> TransactionManager \<Rightarrow> TransactionManager" where
  "tm_abort tid tm = tm\<lparr>txn_store := (txn_store tm)(tid := (txn_store tm tid)\<lparr>txn_state := ABORTED\<rparr>),
     active_txns := active_txns tm - {tid}\<rparr>"

definition set_next_txn_id :: "u64 \<Rightarrow> TransactionManager \<Rightarrow> TransactionManager" where
  "set_next_txn_id n tm = tm\<lparr>next_txn_id := n\<rparr>"

subsection \<open>The engine\<close>

record TxnWalHeader =
  hdr_type :: u8
  hdr_txn_id :: u64
  hdr_key :: u64
  hdr_val_size :: u32

definition REC_PUT :: u8 where
  "REC_PUT = 1"

definition REC_COMMIT :: u8 where
  "REC_COMMIT = 2"

definition REC_ABORT :: u8 where
  "REC_ABORT = 3"

definition header_bytes :: "TxnWalHeader \<Rightarrow> bytes" where
  "header_bytes h = [hdr_type h] @ word_bytes (hdr_txn_id h) @ word_bytes (hdr_key h) @ le_bytes 4 (unat (hdr_val_size h))"

definition bytes_header :: "bytes \<Rightarrow> TxnWalHeader" where
  "bytes_header bs = \<lparr>hdr_type = hd bs, hdr_txn_id = bytes_word (take 8 (drop 1 bs)),
     hdr_key = bytes_word (take 8 (drop 9 bs)), hdr_val_size = of_nat (le_nat (take 4 (drop 17 bs)))\<rparr>"

record TransactionalEngine =
  eng_wal :: bytes
  eng_tm :: TransactionManager
  eng_table :: "u64 \<rightharpoonup> TupleSlot"

definition eng_init :: "bytes \<Rightarrow> TransactionalEngine" where
  "eng_init wal = \<lparr>eng_wal = wal, eng_tm = tm_init, eng_table = Map.empty\<rparr>"

definition eng_open :: "bool \<Rightarrow> bytes \<Rightarrow> TransactionalEngine option" where
  "eng_open opened wal = (if opened then Some (eng_init wal) else None)"

definition eng_begin :: "u64 list \<Rightarrow> TransactionalEngine \<Rightarrow> u64 \<times> TransactionalEngine" where
  "eng_begin order e = (let r = tm_begin order (eng_tm e) in (fst r, e\<lparr>eng_tm := snd r\<rparr>))"

definition eng_get :: "u64 \<Rightarrow> u64 \<Rightarrow> TransactionalEngine \<Rightarrow> bytes option" where
  "eng_get tid key e =
     (case eng_table e key of None \<Rightarrow> None
      | Some slot \<Rightarrow> read_tuple_snapshot slot (txn_view (txn_store (eng_tm e) tid)))"

definition empty_slot :: TupleSlot where
  "empty_slot = \<lparr>slot_key_f = 0, slot_val = [], slot_xmin = 0, roll_ptr = []\<rparr>"

definition slot_of :: "(u64 \<rightharpoonup> TupleSlot) \<Rightarrow> u64 \<Rightarrow> TupleSlot" where
  "slot_of tbl key = (case tbl key of Some s \<Rightarrow> s | None \<Rightarrow> empty_slot)"

definition eng_put :: "u64 \<Rightarrow> u64 \<Rightarrow> bytes \<Rightarrow> TransactionalEngine \<Rightarrow> TransactionalEngine" where
  "eng_put tid key val e =
     (let h = \<lparr>hdr_type = REC_PUT, hdr_txn_id = tid, hdr_key = key, hdr_val_size = of_nat (length val)\<rparr>;
          slot = slot_of (eng_table e) key;
          undo = \<lparr>undo_xmin = slot_xmin slot, undo_old_val = slot_val slot\<rparr>;
          txn = txn_store (eng_tm e) tid
      in e\<lparr>eng_wal := eng_wal e @ header_bytes h @ val,
           eng_table := (eng_table e)(key \<mapsto> \<lparr>slot_key_f = key, slot_val = val, slot_xmin = tid, roll_ptr = undo # roll_ptr slot\<rparr>),
           eng_tm := (eng_tm e)\<lparr>txn_store := (txn_store (eng_tm e))(tid := txn\<lparr>undo_entries := undo_entries txn @ [(key, undo_old_val undo)]\<rparr>)\<rparr>\<rparr>)"

definition eng_commit :: "u64 \<Rightarrow> TransactionalEngine \<Rightarrow> TransactionalEngine" where
  "eng_commit tid e =
     (let h = \<lparr>hdr_type = REC_COMMIT, hdr_txn_id = tid, hdr_key = 0, hdr_val_size = 0\<rparr>
      in e\<lparr>eng_wal := eng_wal e @ header_bytes h, eng_tm := tm_commit tid (eng_tm e)\<rparr>)"

text \<open>One turn of the rollback loop of \<open>abort\<close>.\<close>

definition roll_back :: "(u64 \<rightharpoonup> TupleSlot) \<Rightarrow> u64 \<times> bytes \<Rightarrow> (u64 \<rightharpoonup> TupleSlot)" where
  "roll_back tbl entry =
     (case tbl (fst entry) of None \<Rightarrow> tbl
      | Some slot \<Rightarrow>
          (case roll_ptr slot of [] \<Rightarrow> tbl
           | u # us \<Rightarrow> tbl(fst entry \<mapsto> slot\<lparr>slot_val := undo_old_val u, slot_xmin := undo_xmin u, roll_ptr := us\<rparr>)))"

definition eng_abort :: "u64 \<Rightarrow> TransactionalEngine \<Rightarrow> TransactionalEngine" where
  "eng_abort tid e =
     (let h = \<lparr>hdr_type = REC_ABORT, hdr_txn_id = tid, hdr_key = 0, hdr_val_size = 0\<rparr>
      in e\<lparr>eng_table := foldl roll_back (eng_table e) (undo_entries (txn_store (eng_tm e) tid)),
           eng_wal := eng_wal e @ header_bytes h, eng_tm := tm_abort tid (eng_tm e)\<rparr>)"

text \<open>The analysis pass of recovery: the committed transactions and the largest number.\<close>

function analysis :: "bytes \<Rightarrow> u64 set \<Rightarrow> u64 \<Rightarrow> u64 set \<times> u64" where
  "analysis bs committed max_id =
     (if length bs < 21 then (committed, max_id)
      else let h = bytes_header (take 21 bs);
               max' = (if hdr_txn_id h > max_id then hdr_txn_id h else max_id)
      in if hdr_type h = REC_PUT then analysis (drop (unat (hdr_val_size h)) (drop 21 bs)) committed max'
         else if hdr_type h = REC_COMMIT then analysis (drop 21 bs) (insert (hdr_txn_id h) committed) max'
         else analysis (drop 21 bs) committed max')"
  by pat_completeness auto

termination
  by (relation "measure (\<lambda>(bs, committed, max_id). length bs)") auto

definition redo_put :: "TxnWalHeader \<Rightarrow> bytes \<Rightarrow> (u64 \<rightharpoonup> TupleSlot) \<Rightarrow> (u64 \<rightharpoonup> TupleSlot)" where
  "redo_put h val tbl = tbl(hdr_key h \<mapsto> (slot_of tbl (hdr_key h))\<lparr>slot_key_f := hdr_key h, slot_val := val, slot_xmin := hdr_txn_id h\<rparr>)"

function redo :: "bytes \<Rightarrow> u64 set \<Rightarrow> (u64 \<rightharpoonup> TupleSlot) \<Rightarrow> (u64 \<rightharpoonup> TupleSlot)" where
  "redo bs committed tbl =
     (if length bs < 21 then tbl
      else let h = bytes_header (take 21 bs); rest = drop 21 bs
      in if hdr_type h = REC_PUT then
           (let n = unat (hdr_val_size h); got = take n rest; val = got @ replicate (n - length got) 0
            in redo (drop n rest) committed (if hdr_txn_id h \<in> committed then redo_put h val tbl else tbl))
         else redo rest committed tbl)"
  by pat_completeness auto

termination
  by (relation "measure (\<lambda>(bs, committed, tbl). length bs)") auto

definition recover_from_wal :: "bool \<Rightarrow> TransactionalEngine \<Rightarrow> TransactionalEngine" where
  "recover_from_wal opened e =
     (let e1 = e\<lparr>eng_table := Map.empty\<rparr>
      in if \<not> opened then e1
         else let r = analysis (eng_wal e1) {} 0
              in e1\<lparr>eng_tm := set_next_txn_id (snd r + 1) (eng_tm e1), eng_table := redo (eng_wal e1) (fst r) (eng_table e1)\<rparr>)"

definition eng_size :: "TransactionalEngine \<Rightarrow> nat" where
  "eng_size e = card (dom (eng_table e))"

declare analysis.simps [simp del] redo.simps [simp del]

subsection \<open>Histories and the log they write\<close>

datatype TxnRecord = RPut u64 u64 bytes | RCommit u64 | RAbort u64

fun enc_record :: "TxnRecord \<Rightarrow> bytes" where
  "enc_record (RPut t k v) =
     header_bytes \<lparr>hdr_type = REC_PUT, hdr_txn_id = t, hdr_key = k, hdr_val_size = of_nat (length v)\<rparr> @ v"
| "enc_record (RCommit t) = header_bytes \<lparr>hdr_type = REC_COMMIT, hdr_txn_id = t, hdr_key = 0, hdr_val_size = 0\<rparr>"
| "enc_record (RAbort t) = header_bytes \<lparr>hdr_type = REC_ABORT, hdr_txn_id = t, hdr_key = 0, hdr_val_size = 0\<rparr>"

fun record_txn :: "TxnRecord \<Rightarrow> u64" where
  "record_txn (RPut t k v) = t"
| "record_txn (RCommit t) = t"
| "record_txn (RAbort t) = t"

definition committed_in :: "TxnRecord list \<Rightarrow> u64 set" where
  "committed_in R = {t. RCommit t \<in> set R}"

datatype TxnOp = TBegin "u64 list" | TPut u64 u64 bytes | TCommit u64 | TAbort u64

text \<open>
  One operation of a client that only uses transactions it has begun and not finished. Beside the
  engine the step keeps the records written so far and, for every transaction, which transactions had
  committed when it began.
\<close>

type_synonym txn_hist = "TransactionalEngine \<times> TxnRecord list \<times> (u64 \<Rightarrow> u64 set)"

fun txn_step :: "TxnOp \<Rightarrow> txn_hist \<Rightarrow> txn_hist option" where
  "txn_step (TBegin order) (e, R, snap) =
     (if distinct order \<and> set order = active_txns (eng_tm e)
      then Some (snd (eng_begin order e), R, snap(fst (eng_begin order e) := committed_in R)) else None)"
| "txn_step (TPut t k v) (e, R, snap) =
     (if t \<in> active_txns (eng_tm e) \<and> length v < 2 ^ 32 then Some (eng_put t k v e, R @ [RPut t k v], snap) else None)"
| "txn_step (TCommit t) (e, R, snap) =
     (if t \<in> active_txns (eng_tm e) then Some (eng_commit t e, R @ [RCommit t], snap) else None)"
| "txn_step (TAbort t) (e, R, snap) =
     (if t \<in> active_txns (eng_tm e) then Some (eng_abort t e, R @ [RAbort t], snap) else None)"

fun txn_run :: "TxnOp list \<Rightarrow> txn_hist \<Rightarrow> txn_hist option" where
  "txn_run [] s = Some s"
| "txn_run (a # as) s = (case txn_step a s of None \<Rightarrow> None | Some s' \<Rightarrow> txn_run as s')"

definition txn_start :: txn_hist where
  "txn_start = (eng_init [], [], \<lambda>_. {})"

text \<open>The records that a file cut after \<open>n\<close> bytes still holds whole.\<close>

fun whole_records :: "nat \<Rightarrow> TxnRecord list \<Rightarrow> TxnRecord list" where
  "whole_records n [] = []"
| "whole_records n (r # rs) =
     (if length (enc_record r) \<le> n then r # whole_records (n - length (enc_record r)) rs else [])"

text \<open>The value of the last write to a key by a transaction whose commit the records hold.\<close>

fun last_put :: "u64 set \<Rightarrow> TxnRecord list \<Rightarrow> u64 \<Rightarrow> bytes option" where
  "last_put C [] k = None"
| "last_put C (r # rs) k =
     (case last_put C rs k of Some v \<Rightarrow> Some v
      | None \<Rightarrow> (case r of RPut t k' v \<Rightarrow> if k' = k \<and> t \<in> C then Some v else None | _ \<Rightarrow> None))"

definition last_committed :: "TxnRecord list \<Rightarrow> u64 \<Rightarrow> bytes option" where
  "last_committed R k = last_put (committed_in R) R k"

subsection \<open>Recovery\<close>

lemma length_header [simp]: "length (header_bytes h) = 21"
  by (simp add: header_bytes_def)

lemma bytes_header_bytes [simp]: "bytes_header (header_bytes h) = h"
  by (cases h) (simp add: bytes_header_def header_bytes_def)

interpretation txn_header: fixed_codec header_bytes bytes_header 21
  by unfold_locales simp_all

lemmas rec_types = REC_PUT_def REC_COMMIT_def REC_ABORT_def

lemma analysis_short: "length bs < 21 \<Longrightarrow> analysis bs C m = (C, m)"
  by (subst analysis.simps) simp

lemma redo_short: "length bs < 21 \<Longrightarrow> redo bs C tbl = tbl"
  by (subst redo.simps) simp

lemma analysis_put [simp]:
  "length v < 2 ^ 32 \<Longrightarrow> analysis (enc_record (RPut t k v) @ bs) C m = analysis bs C (if t > m then t else m)"
  by (subst analysis.simps) (simp add: unat_of_nat take_bit_nat_eq_self)

lemma analysis_commit [simp]:
  "analysis (enc_record (RCommit t) @ bs) C m = analysis bs (insert t C) (if t > m then t else m)"
  by (subst analysis.simps) (simp add: rec_types)

lemma analysis_abort [simp]:
  "analysis (enc_record (RAbort t) @ bs) C m = analysis bs C (if t > m then t else m)"
  by (subst analysis.simps) (simp add: rec_types)

definition fits :: "TxnRecord \<Rightarrow> bool" where
  "fits r = (case r of RPut t k v \<Rightarrow> length v < 2 ^ 32 | _ \<Rightarrow> True)"

definition record_bytes :: "TxnRecord list \<Rightarrow> bytes" where
  "record_bytes R = concat (map enc_record R)"

lemma record_bytes_simps [simp]:
  "record_bytes [] = []" "record_bytes (r # R) = enc_record r @ record_bytes R"
  "record_bytes (R @ R') = record_bytes R @ record_bytes R'"
  by (simp_all add: record_bytes_def)

lemma committed_in_simps [simp]:
  "committed_in [] = {}" "committed_in (RCommit t # R) = insert t (committed_in R)"
  "committed_in (RPut t k v # R) = committed_in R" "committed_in (RAbort t # R) = committed_in R"
  "committed_in (R @ R') = committed_in R \<union> committed_in R'"
  by (auto simp: committed_in_def)

lemma enc_record_long [simp]: "length (enc_record r) \<ge> 21"
  by (cases r) simp_all

text \<open>The analysis of whole records, and what it leaves for the bytes behind them.\<close>

lemma analysis_records:
  assumes "list_all fits R"
  shows "\<exists>m'. analysis (record_bytes R @ bs) C m = analysis bs (C \<union> committed_in R) m' \<and> m \<le> m'
           \<and> (\<forall>r\<in>set R. record_txn r \<le> m') \<and> (\<forall>b. m < b \<longrightarrow> (\<forall>r\<in>set R. record_txn r < b) \<longrightarrow> m' < b)"
  using assms
proof (induction R arbitrary: C m)
  case Nil
  then show ?case by auto
next
  case (Cons r R)
  define m1 where "m1 = (if record_txn r > m then record_txn r else m)"
  define C1 where "C1 = C \<union> committed_in [r]"
  have "analysis (record_bytes (r # R) @ bs) C m = analysis (record_bytes R @ bs) C1 m1"
    using Cons.prems by (cases r) (simp_all add: m1_def C1_def fits_def del: enc_record.simps)
  moreover obtain m' where m': "analysis (record_bytes R @ bs) C1 m1 = analysis bs (C1 \<union> committed_in R) m'" "m1 \<le> m'"
    "\<forall>r\<in>set R. record_txn r \<le> m'" "\<forall>b. m1 < b \<longrightarrow> (\<forall>r\<in>set R. record_txn r < b) \<longrightarrow> m' < b"
    using Cons.IH [of C1 m1] Cons.prems by auto
  moreover have "C1 \<union> committed_in R = C \<union> committed_in (r # R)"
    by (cases r) (auto simp: C1_def)
  moreover have "m \<le> m1" "record_txn r \<le> m1" by (auto simp: m1_def)
  moreover have "m' < b" if "m < b" "\<forall>r\<in>set (r # R). record_txn r < b" for b
    using m'(4) that by (simp add: m1_def)
  ultimately show ?case
    by (intro exI [of _ m']) auto
qed

lemma torn_record:
  assumes "j < length (enc_record r)" "21 \<le> j" "fits r"
  shows "\<exists>t k v. r = RPut t k v \<and> length v < 2 ^ 32 \<and> j - 21 < length v \<and>
           take j (enc_record r) = header_bytes \<lparr>hdr_type = REC_PUT, hdr_txn_id = t, hdr_key = k, hdr_val_size = of_nat (length v)\<rparr> @ take (j - 21) v"
  using assms by (cases r) (auto simp: fits_def)

lemma analysis_torn:
  assumes "j < length (enc_record r)" "fits r"
  shows "\<exists>m'. analysis (take j (enc_record r)) C m = (C, m') \<and> m \<le> m' \<and> (\<forall>b. m < b \<longrightarrow> record_txn r < b \<longrightarrow> m' < b)"
proof (cases "j < 21")
  case True
  then have "length (take j (enc_record r)) < 21" by simp
  then show ?thesis by (simp only: analysis_short) auto
next
  case False
  then obtain t k v where r: "r = RPut t k v" "length v < 2 ^ 32" "j - 21 < length v"
    and tk: "take j (enc_record r) = header_bytes \<lparr>hdr_type = REC_PUT, hdr_txn_id = t, hdr_key = k, hdr_val_size = of_nat (length v)\<rparr> @ take (j - 21) v"
    using torn_record [OF assms(1) _ assms(2)] by auto
  have "analysis (take j (enc_record r)) C m = (C, if t > m then t else m)"
    unfolding tk using r by (subst analysis.simps) (simp add: analysis_short unat_of_nat take_bit_nat_eq_self)
  then show ?thesis using r(1) by auto
qed

text \<open>Redo over whole records.\<close>

fun redo_record :: "u64 set \<Rightarrow> (u64 \<rightharpoonup> TupleSlot) \<Rightarrow> TxnRecord \<Rightarrow> (u64 \<rightharpoonup> TupleSlot)" where
  "redo_record C tbl (RPut t k v) =
     (if t \<in> C then redo_put \<lparr>hdr_type = REC_PUT, hdr_txn_id = t, hdr_key = k, hdr_val_size = of_nat (length v)\<rparr> v tbl else tbl)"
| "redo_record C tbl (RCommit t) = tbl"
| "redo_record C tbl (RAbort t) = tbl"

lemma redo_one:
  "fits r \<Longrightarrow> redo (enc_record r @ bs) C tbl = redo bs C (redo_record C tbl r)"
  by (cases r; subst redo.simps) (simp_all add: rec_types fits_def unat_of_nat take_bit_nat_eq_self)

lemma redo_records:
  "list_all fits R \<Longrightarrow> redo (record_bytes R @ bs) C tbl = redo bs C (foldl (redo_record C) tbl R)"
  by (induction R arbitrary: tbl) (simp_all add: redo_one)

lemma redo_torn:
  assumes "j < length (enc_record r)" "fits r" "\<And>t k v. r = RPut t k v \<Longrightarrow> t \<notin> C"
  shows "redo (take j (enc_record r)) C tbl = tbl"
proof (cases "j < 21")
  case True
  then show ?thesis by (intro redo_short) simp
next
  case False
  then obtain t k v where r: "r = RPut t k v" "length v < 2 ^ 32" "j - 21 < length v"
    and tk: "take j (enc_record r) = header_bytes \<lparr>hdr_type = REC_PUT, hdr_txn_id = t, hdr_key = k, hdr_val_size = of_nat (length v)\<rparr> @ take (j - 21) v"
    using torn_record [OF assms(1) _ assms(2)] by auto
  then show ?thesis
    unfolding tk using r assms(3) [OF r(1)] by (subst redo.simps) (simp add: redo_short unat_of_nat take_bit_nat_eq_self)
qed

text \<open>What the redone table holds.\<close>

definition redone :: "u64 set \<Rightarrow> (u64 \<rightharpoonup> TupleSlot) \<Rightarrow> (u64 \<rightharpoonup> bytes) \<Rightarrow> bool" where
  "redone C tbl vals \<longleftrightarrow> (\<forall>k. map_option slot_val (tbl k) = vals k) \<and> (\<forall>k s. tbl k = Some s \<longrightarrow> slot_xmin s \<in> C)"

lemma last_put_snoc:
  "last_put C (R @ [r]) k = (case r of RPut t k' v \<Rightarrow> if k' = k \<and> t \<in> C then Some v else last_put C R k | _ \<Rightarrow> last_put C R k)"
  by (induction R) (auto split: TxnRecord.splits option.splits)

lemma redone_records: "redone C (foldl (redo_record C) Map.empty R) (last_put C R)"
proof (induction R rule: rev_induct)
  case Nil
  then show ?case by (simp add: redone_def)
next
  case (snoc r R)
  then show ?case by (cases r) (auto simp: redone_def last_put_snoc redo_put_def)
qed

text \<open>Cutting the file.\<close>

lemma cut_records:
  "\<exists>torn. take n (record_bytes R) = record_bytes (whole_records n R) @ torn \<and>
     (torn = [] \<or> (\<exists>r ys j. R = whole_records n R @ r # ys \<and> j < length (enc_record r) \<and> torn = take j (enc_record r)))"
proof (induction R arbitrary: n)
  case Nil
  then show ?case by simp
next
  case (Cons r R)
  show ?case
  proof (cases "length (enc_record r) \<le> n")
    case True
    then show ?thesis using Cons.IH [of "n - length (enc_record r)"] by auto
  next
    case False
    then show ?thesis by (auto intro!: exI [of _ n])
  qed
qed

lemma whole_records_prefix: "\<exists>ys. R = whole_records n R @ ys"
  by (induction R arbitrary: n) auto

subsection \<open>What every history keeps\<close>

text \<open>
  \<open>u\<close> bounds the number of transactions begun. No transaction writes after its commit record, and the
  numbers in the log are below the next one to be given.
\<close>

definition sealed :: "TxnRecord list \<Rightarrow> bool" where
  "sealed R \<longleftrightarrow> (\<forall>xs t k v ys. R = xs @ RPut t k v # ys \<longrightarrow> t \<notin> committed_in xs)"

definition base_inv :: "nat \<Rightarrow> txn_hist \<Rightarrow> bool" where
  "base_inv u s = (case s of (e, R, snap) \<Rightarrow>
     0 < unat (next_txn_id (eng_tm e)) \<and> unat (next_txn_id (eng_tm e)) \<le> u \<and>
     (\<forall>t\<in>active_txns (eng_tm e). 0 < t \<and> t < next_txn_id (eng_tm e)) \<and>
     (\<forall>r\<in>set R. 0 < record_txn r \<and> record_txn r < next_txn_id (eng_tm e)) \<and>
     (\<forall>t\<in>active_txns (eng_tm e). RCommit t \<notin> set R \<and> RAbort t \<notin> set R) \<and>
     eng_wal e = record_bytes R \<and> list_all fits R \<and> sealed R)"

lemma sealed_snoc:
  assumes "sealed R" "\<And>t k v. r = RPut t k v \<Longrightarrow> t \<notin> committed_in R"
  shows "sealed (R @ [r])"
  unfolding sealed_def
proof (intro allI impI)
  fix xs t k v ys
  assume "R @ [r] = xs @ RPut t k v # ys"
  then show "t \<notin> committed_in xs"
    using assms by (cases ys rule: rev_cases) (auto simp: sealed_def)
qed

lemma next_after:
  assumes "unat (n :: u64) < 2 ^ 63"
  shows "n < n + 1" "unat (n + 1) = Suc (unat n)"
  using assms unat_Suc_u64 [of n] by (simp_all add: word_less_nat_alt)

lemmas eng_simps = eng_begin_def tm_begin_def eng_put_def eng_commit_def eng_abort_def tm_commit_def tm_abort_def Let_def

lemma base_step:
  assumes "base_inv u s" "txn_step a s = Some s'" "u < 2 ^ 63"
  shows "base_inv (Suc u) s'"
proof -
  obtain e R snap where s: "s = (e, R, snap)" by (cases s)
  define n where "n = next_txn_id (eng_tm e)"
  have n: "unat n \<le> u" "0 < unat n" using assms(1) by (auto simp: s base_inv_def n_def)
  have up: "n < n + 1" "unat (n + 1) = Suc (unat n)" using next_after [of n] n assms(3) by auto
  have lt: "t < n + 1" if "t < n" for t using that up(1) by (rule less_trans)
  have n0: "0 < n" using n(2) by (simp add: word_less_nat_alt)
  show ?thesis
  proof (cases a)
    case (TBegin order)
    then show ?thesis
      using assms(1,2) n n0 up lt by (fastforce simp: s base_inv_def eng_simps n_def [symmetric] split: if_splits)
  next
    case (TPut t k v)
    then have st: "t \<in> active_txns (eng_tm e)" "length v < 2 ^ 32" "s' = (eng_put t k v e, R @ [RPut t k v], snap)"
      using assms(2) by (auto simp: s split: if_splits)
    moreover have "t \<notin> committed_in R" using assms(1) st(1) by (simp add: s base_inv_def committed_in_def)
    ultimately show ?thesis
      using assms(1) sealed_snoc [of R "RPut t k v"] by (auto simp: s base_inv_def eng_simps fits_def)
  next
    case (TCommit t)
    then show ?thesis
      using assms(1,2) sealed_snoc [of R "RCommit t"] by (auto simp: s base_inv_def eng_simps fits_def split: if_splits)
  next
    case (TAbort t)
    then show ?thesis
      using assms(1,2) sealed_snoc [of R "RAbort t"] by (auto simp: s base_inv_def eng_simps fits_def split: if_splits)
  qed
qed

lemma base_run:
  assumes "base_inv u s" "txn_run as s = Some s'" "u + length as \<le> 2 ^ 63"
  shows "base_inv (u + length as) s'"
  using assms
proof (induction as arbitrary: u s)
  case Nil
  then show ?case by simp
next
  case (Cons a as)
  then obtain s1 where s1: "txn_step a s = Some s1" "txn_run as s1 = Some s'" by (auto split: option.splits)
  then have "base_inv (Suc u) s1" using base_step [OF Cons.prems(1)] Cons.prems(3) by simp
  then show ?case using Cons.IH [of "Suc u" s1] s1(2) Cons.prems(3) by simp
qed

lemma base_start: "base_inv 1 txn_start"
  by (simp add: base_inv_def txn_start_def eng_init_def tm_init_def sealed_def)

lemma analysis_cut:
  fixes n :: nat
  assumes "base_inv u (e, R, snap)" "u \<le> 2 ^ 63"
  defines "W \<equiv> whole_records n R"
  shows "\<exists>m. analysis (take n (eng_wal e)) {} 0 = (committed_in W, m) \<and> (\<forall>r\<in>set W. record_txn r \<le> m) \<and> m < next_txn_id (eng_tm e)"
proof -
  define b where "b = next_txn_id (eng_tm e)"
  have b: "0 < b" "\<And>r. r \<in> set R \<Longrightarrow> record_txn r < b" "list_all fits R" "eng_wal e = record_bytes R"
    using assms(1) by (auto simp: base_inv_def b_def word_less_nat_alt)
  obtain ys where ys: "R = W @ ys" unfolding W_def using whole_records_prefix by blast
  obtain torn where torn: "take n (record_bytes R) = record_bytes W @ torn"
    "torn = [] \<or> (\<exists>r ys j. R = W @ r # ys \<and> j < length (enc_record r) \<and> torn = take j (enc_record r))"
    using cut_records [of n R] unfolding W_def by blast
  have fw: "list_all fits W" using b(3) unfolding ys by simp
  have wb: "\<forall>r\<in>set W. record_txn r < b" using b(2) unfolding ys by simp
  obtain m1 where m1: "analysis (record_bytes W @ torn) {} 0 = analysis torn ({} \<union> committed_in W) m1"
    "\<forall>r\<in>set W. record_txn r \<le> m1" "m1 < b"
    using analysis_records [OF fw, of torn "{}" 0] b(1) wb by blast
  obtain m2 where m2: "analysis torn (committed_in W) m1 = (committed_in W, m2)" "m1 \<le> m2" "m2 < b"
  proof (cases "torn = []")
    case True
    then show ?thesis using that [of m1] m1(3) by (simp add: analysis_short)
  next
    case False
    then obtain r ys' j where r: "R = W @ r # ys'" "j < length (enc_record r)" "torn = take j (enc_record r)"
      using torn(2) by blast
    have "fits r" "record_txn r < b" using b(2,3) unfolding r(1) by simp_all
    then show ?thesis using analysis_torn [OF r(2), of "committed_in W" m1] m1(3) that unfolding r(3) by blast
  qed
  have "\<forall>r\<in>set W. record_txn r \<le> m2" using m1(2) m2(2) order_trans by blast
  then show ?thesis using m1(1) m2 unfolding b(4) torn(1) b_def by auto
qed

lemma redo_cut:
  fixes n :: nat
  assumes "base_inv u (e, R, snap)"
  defines "W \<equiv> whole_records n R"
  shows "redo (take n (eng_wal e)) (committed_in W) Map.empty = foldl (redo_record (committed_in W)) Map.empty W"
proof -
  have b: "list_all fits R" "eng_wal e = record_bytes R" "sealed R"
    using assms(1) by (auto simp: base_inv_def)
  obtain ys where ys: "R = W @ ys" unfolding W_def using whole_records_prefix by blast
  obtain torn where torn: "take n (record_bytes R) = record_bytes W @ torn"
    "torn = [] \<or> (\<exists>r ys j. R = W @ r # ys \<and> j < length (enc_record r) \<and> torn = take j (enc_record r))"
    using cut_records [of n R] unfolding W_def by blast
  have fw: "list_all fits W" using b(1) unfolding ys by simp
  have "redo torn (committed_in W) tbl = tbl" for tbl
  proof (cases "torn = []")
    case True
    then show ?thesis by (simp add: redo_short)
  next
    case False
    then obtain r ys' j where r: "R = W @ r # ys'" "j < length (enc_record r)" "torn = take j (enc_record r)"
      using torn(2) by blast
    have "fits r" using b(1) unfolding r(1) by simp
    moreover have "t \<notin> committed_in W" if "r = RPut t k v" for t k v
      using b(3) r(1) that unfolding sealed_def by blast
    ultimately show ?thesis unfolding r(3) by (intro redo_torn [OF r(2)])
  qed
  then show ?thesis unfolding b(2) torn(1) by (simp add: redo_records [OF fw])
qed

text \<open>A transaction begun on an engine without active ones sees every older version.\<close>

lemma fresh_view_reads:
  assumes "active_txns (eng_tm e) = {}" "\<And>s. eng_table e k = Some s \<Longrightarrow> slot_xmin s < next_txn_id (eng_tm e)"
  shows "eng_get (fst (eng_begin [] e)) k (snd (eng_begin [] e)) = map_option slot_val (eng_table e k)"
  using assms by (cases "eng_table e k") (simp_all add: eng_get_def eng_simps read_tuple_snapshot_def is_visible_def)

text \<open>
  C4: for every history of transactions, whatever of the log survives a crash, recovery rebuilds the
  committed state: a transaction begun after it reads for every key the last value that a transaction
  wrote whose commit record survived whole, and nothing of the others.
\<close>

theorem txn_recovers_committed:
  assumes "txn_run ops txn_start = Some (e, R, snap)" "length ops < 2 ^ 62"
  shows "(let e' = recover_from_wal True (eng_init (take n (eng_wal e))); b = eng_begin [] e'
          in eng_get (fst b) k (snd b)) = last_committed (whole_records n R) k"
proof -
  define W where "W = whole_records n R"
  have inv: "base_inv (1 + length ops) (e, R, snap)"
    using base_run [OF base_start assms(1)] assms(2) by simp
  obtain m where m: "analysis (take n (eng_wal e)) {} 0 = (committed_in W, m)" "\<forall>r\<in>set W. record_txn r \<le> m" "m < next_txn_id (eng_tm e)"
    using analysis_cut [OF inv] assms(2) unfolding W_def by auto
  have "unat (next_txn_id (eng_tm e)) \<le> 1 + length ops" using inv by (simp add: base_inv_def)
  then have um: "unat m < 2 ^ 63" using m(3) assms(2) by (simp add: word_less_nat_alt)
  define tbl where "tbl = foldl (redo_record (committed_in W)) Map.empty W"
  define e' where "e' = recover_from_wal True (eng_init (take n (eng_wal e)))"
  have e': "eng_table e' = tbl" "active_txns (eng_tm e') = {}" "next_txn_id (eng_tm e') = m + 1"
    using redo_cut [OF inv, of n] m(1)
    by (simp_all add: e'_def recover_from_wal_def eng_init_def tm_init_def set_next_txn_id_def tbl_def W_def)
  have rd: "redone (committed_in W) tbl (last_put (committed_in W) W)"
    unfolding tbl_def by (rule redone_records)
  have "slot_xmin s < m + 1" if "tbl k = Some s" for s
  proof -
    have "RCommit (slot_xmin s) \<in> set W" using rd that by (auto simp: redone_def committed_in_def)
    then have "slot_xmin s \<le> m" using m(2) by force
    then show ?thesis using next_after(1) [OF um] by (rule le_less_trans)
  qed
  then have "eng_get (fst (eng_begin [] e')) k (snd (eng_begin [] e')) = last_put (committed_in W) W k"
    using fresh_view_reads [of e' k] rd unfolding e' by (simp add: redone_def)
  then show ?thesis by (simp add: e'_def [symmetric] W_def [symmetric] last_committed_def)
qed

subsection \<open>Snapshot reads\<close>

text \<open>
  The writes to a key in the order of the log, and those of them that no abort has taken back, newest
  first. The aborts are a parameter of the second, so that a log can be taken apart.
\<close>

fun puts_on :: "u64 \<Rightarrow> TxnRecord list \<Rightarrow> (u64 \<times> bytes) list" where
  "puts_on k [] = []"
| "puts_on k (RPut t k' v # R) = (if k' = k then (t, v) # puts_on k R else puts_on k R)"
| "puts_on k (RCommit t # R) = puts_on k R"
| "puts_on k (RAbort t # R) = puts_on k R"

fun own_keys :: "u64 \<Rightarrow> TxnRecord list \<Rightarrow> u64 list" where
  "own_keys t [] = []"
| "own_keys t (RPut t' k v # R) = (if t' = t then k # own_keys t R else own_keys t R)"
| "own_keys t (RCommit t' # R) = own_keys t R"
| "own_keys t (RAbort t' # R) = own_keys t R"

definition versions :: "u64 \<Rightarrow> TxnRecord list \<Rightarrow> (u64 \<times> bytes) list" where
  "versions k R = rev (filter (\<lambda>p. RAbort (fst p) \<notin> set R) (puts_on k R))"

text \<open>The value a transaction \<open>t\<close> may see when those in \<open>S\<close> had committed before it began.\<close>

definition snapshot_value :: "u64 \<Rightarrow> u64 set \<Rightarrow> TxnRecord list \<Rightarrow> u64 \<Rightarrow> bytes option" where
  "snapshot_value t S R k =
     (if puts_on k R = [] then None
      else Some (case filter (\<lambda>p. fst p = t \<or> fst p \<in> S) (versions k R) of [] \<Rightarrow> [] | p # _ \<Rightarrow> snd p))"

text \<open>No transaction is aborted after another one wrote over one of its values.\<close>

definition no_overwrite :: "u64 \<Rightarrow> TxnRecord list \<Rightarrow> bool" where
  "no_overwrite t R = list_all (\<lambda>k. list_all (\<lambda>p. fst p \<noteq> t) (dropWhile (\<lambda>p. fst p = t) (versions k R))) (own_keys t R)"




lemma own_keys_append [simp]: "own_keys t (R @ R') = own_keys t R @ own_keys t R'"
  by (induction t R rule: own_keys.induct) auto


lemma puts_on_writer: "p \<in> set (puts_on k R) \<Longrightarrow> fst p \<in> record_txn ` set R"
  by (induction k R rule: puts_on.induct) (auto split: if_splits)




































subsection \<open>Witnesses and the abort that is not isolated\<close>

lemmas txn_eval = txn_start_def eng_init_def tm_init_def empty_txn_def eng_simps committed_in_def last_committed_def
  eng_get_def read_tuple_snapshot_def is_visible_def slot_of_def empty_slot_def snapshot_value_def versions_def
  no_overwrite_def roll_back_def binary_search_def



theorem txn_recovers_committed_witness:
  "case txn_run [TBegin [], TBegin [1], TPut 1 5 [7], TPut 2 5 [8], TCommit 1] txn_start of None \<Rightarrow> False
   | Some (e, R, snap) \<Rightarrow>
       (let e' = recover_from_wal True (eng_init (take 65 (eng_wal e))); b = eng_begin [] e'
        in eng_get (fst b) 5 (snd b)) = Some [7]"
proof -
  obtain e R snap where r: "txn_run [TBegin [], TBegin [1], TPut 1 5 [7], TPut 2 5 [8], TCommit 1] txn_start = Some (e, R, snap)"
    and v: "last_committed (whole_records 65 R) 5 = Some [7]"
    by (simp add: txn_eval)
  show ?thesis
    using txn_recovers_committed [OF r, of 65 5] unfolding r v by simp
qed


end
