(* ===== verification/Mpmc_Queue.thy ===== *)
theory Mpmc_Queue
  imports Sys_Prelude
begin

unbundle bit_operations_syntax

text \<open>
  The bounded multi-producer multi-consumer queue of \<open>mpmc_queue.hpp\<close>. Any number of threads run
  \<open>emplace\<close> and \<open>pop\<close>; each is at one access to shared memory of the function it runs, and an event
  lets one thread perform its access, so that a list of events is an interleaving. Atomics are
  sequentially consistent. A weak compare-and-exchange may fail without cause, which is an argument of
  the event. Counters and sequence numbers are 64-bit words.
\<close>

subsection \<open>State\<close>

record 'a Cell =
  cell_sequence :: u64
  cell_data :: 'a

record 'a MPMCQueue =
  mq_capacity :: u64
  mq_mask :: u64
  mq_buffer :: "'a Cell list"
  enqueue_pos :: u64
  dequeue_pos :: u64

definition round_up_pow2 :: "u64 \<Rightarrow> u64" where
  "round_up_pow2 v =
     (if v < 2 then 2
      else let v = v - 1;
               v = v OR drop_bit 1 v;
               v = v OR drop_bit 2 v;
               v = v OR drop_bit 4 v;
               v = v OR drop_bit 8 v;
               v = v OR drop_bit 16 v;
               v = v OR drop_bit 32 v
           in v + 1)"

definition mpmc_init :: "'a \<Rightarrow> u64 \<Rightarrow> 'a MPMCQueue" where
  "mpmc_init d capacity =
     (let c = round_up_pow2 capacity
      in \<lparr>mq_capacity = c, mq_mask = c - 1,
          mq_buffer = map (\<lambda>i. \<lparr>cell_sequence = of_nat i, cell_data = d\<rparr>) [0..<unat c],
          enqueue_pos = 0, dequeue_pos = 0\<rparr>)"

definition cell_index :: "'a MPMCQueue \<Rightarrow> u64 \<Rightarrow> nat" where
  "cell_index q pos = unat (pos AND mq_mask q)"

definition load_sequence :: "'a MPMCQueue \<Rightarrow> u64 \<Rightarrow> u64" where
  "load_sequence q pos = cell_sequence (mq_buffer q ! cell_index q pos)"

definition store_sequence :: "u64 \<Rightarrow> u64 \<Rightarrow> 'a MPMCQueue \<Rightarrow> 'a MPMCQueue" where
  "store_sequence pos s q =
     q\<lparr>mq_buffer := (mq_buffer q)[cell_index q pos := (mq_buffer q ! cell_index q pos)\<lparr>cell_sequence := s\<rparr>]\<rparr>"

definition store_data :: "u64 \<Rightarrow> 'a \<Rightarrow> 'a MPMCQueue \<Rightarrow> 'a MPMCQueue" where
  "store_data pos v q =
     q\<lparr>mq_buffer := (mq_buffer q)[cell_index q pos := (mq_buffer q ! cell_index q pos)\<lparr>cell_data := v\<rparr>]\<rparr>"

subsection \<open>The member functions, one access at a time\<close>

datatype 'a mpmc_pc =
    Idle
  | E_load 'a
  | E_seq 'a u64
  | E_cas 'a u64
  | E_write 'a u64
  | E_store u64
  | E_done bool
  | D_load
  | D_seq u64
  | D_cas u64
  | D_read u64
  | D_store u64 'a
  | D_done "'a option"

text \<open>
  One access of \<open>emplace\<close> or \<open>pop\<close>; \<open>weak\<close> says that a compare-and-exchange fails without cause. The
  difference of two words is read as a signed number.
\<close>

fun mpmc_access :: "bool \<Rightarrow> 'a mpmc_pc \<Rightarrow> 'a MPMCQueue \<Rightarrow> 'a mpmc_pc \<times> 'a MPMCQueue" where
  "mpmc_access weak (E_load v) q = (E_seq v (enqueue_pos q), q)"
| "mpmc_access weak (E_seq v pos) q =
     (let diff = sint (load_sequence q pos - pos)
      in (if diff = 0 then E_cas v pos else if diff < 0 then E_done False else E_load v, q))"
| "mpmc_access weak (E_cas v pos) q =
     (if enqueue_pos q = pos \<and> \<not> weak then (E_write v pos, q\<lparr>enqueue_pos := pos + 1\<rparr>) else (E_seq v (enqueue_pos q), q))"
| "mpmc_access weak (E_write v pos) q = (E_store pos, store_data pos v q)"
| "mpmc_access weak (E_store pos) q = (E_done True, store_sequence pos (pos + 1) q)"
| "mpmc_access weak D_load q = (D_seq (dequeue_pos q), q)"
| "mpmc_access weak (D_seq pos) q =
     (let diff = sint (load_sequence q pos - (pos + 1))
      in (if diff = 0 then D_cas pos else if diff < 0 then D_done None else D_load, q))"
| "mpmc_access weak (D_cas pos) q =
     (if dequeue_pos q = pos \<and> \<not> weak then (D_read pos, q\<lparr>dequeue_pos := pos + 1\<rparr>) else (D_seq (dequeue_pos q), q))"
| "mpmc_access weak (D_read pos) q = (D_store pos (cell_data (mq_buffer q ! cell_index q pos)), q)"
| "mpmc_access weak (D_store pos v) q = (D_done (Some v), store_sequence pos (pos + mq_mask q + 1) q)"
| "mpmc_access weak pc q = (pc, q)"

definition at_rest :: "'a mpmc_pc \<Rightarrow> bool" where
  "at_rest pc = (case pc of Idle \<Rightarrow> True | E_done b \<Rightarrow> True | D_done r \<Rightarrow> True | _ \<Rightarrow> False)"

datatype 'a mpmc_event = Call_push nat 'a | Call_pop nat | Run nat bool

text \<open>
  The system: the queue, the threads, and two records of what happened that no thread reads, the values
  in the order in which their positions were claimed and the positions read with what was read there.
\<close>

record 'a mpmc_sys =
  mq :: "'a MPMCQueue"
  threads :: "nat \<Rightarrow> 'a mpmc_pc"
  claimed :: "'a list"
  taken :: "(nat \<times> 'a) list"

definition mpmc_start :: "'a \<Rightarrow> u64 \<Rightarrow> 'a mpmc_sys" where
  "mpmc_start d capacity = \<lparr>mq = mpmc_init d capacity, threads = (\<lambda>_. Idle), claimed = [], taken = []\<rparr>"

definition note_claim :: "'a mpmc_pc \<Rightarrow> 'a mpmc_pc \<Rightarrow> 'a list \<Rightarrow> 'a list" where
  "note_claim pc pc' c = (case (pc, pc') of (E_cas v pos, E_write w pos') \<Rightarrow> c @ [v] | _ \<Rightarrow> c)"

definition note_take :: "'a mpmc_pc \<Rightarrow> 'a mpmc_pc \<Rightarrow> (nat \<times> 'a) list \<Rightarrow> (nat \<times> 'a) list" where
  "note_take pc pc' c = (case (pc, pc') of (D_read pos, D_store pos' v) \<Rightarrow> c @ [(unat pos, v)] | _ \<Rightarrow> c)"

fun mpmc_step :: "'a mpmc_event \<Rightarrow> 'a mpmc_sys \<Rightarrow> 'a mpmc_sys option" where
  "mpmc_step (Call_push t v) s = (if at_rest (threads s t) then Some (s\<lparr>threads := (threads s)(t := E_load v)\<rparr>) else None)"
| "mpmc_step (Call_pop t) s = (if at_rest (threads s t) then Some (s\<lparr>threads := (threads s)(t := D_load)\<rparr>) else None)"
| "mpmc_step (Run t weak) s =
     (let pc = threads s t; r = mpmc_access weak pc (mq s)
      in Some (s\<lparr>mq := snd r, threads := (threads s)(t := fst r),
                 claimed := note_claim pc (fst r) (claimed s), taken := note_take pc (fst r) (taken s)\<rparr>))"

fun mpmc_run :: "'a mpmc_event list \<Rightarrow> 'a mpmc_sys \<Rightarrow> 'a mpmc_sys option" where
  "mpmc_run [] s = Some s"
| "mpmc_run (e # es) s = (case mpmc_step e s of None \<Rightarrow> None | Some s' \<Rightarrow> mpmc_run es s')"

subsection \<open>The capacity\<close>

lemma smear_step:
  fixes v w :: u64
  assumes "\<And>i. bit w i \<longleftrightarrow> (\<exists>d<m. bit v (i + d))"
  shows "bit (w OR drop_bit m w) i \<longleftrightarrow> (\<exists>d<2 * m. bit v (i + d))"
proof
  assume "bit (w OR drop_bit m w) i"
  then have "bit w i \<or> bit w (m + i)" by (simp add: bit_or_iff bit_drop_bit_eq)
  then obtain d where "d < m" "bit v (i + d) \<or> bit v (m + i + d)" using assms by blast
  then show "\<exists>d<2 * m. bit v (i + d)"
    by (auto intro: exI [of _ d] exI [of _ "m + d"] simp: ac_simps)
next
  assume "\<exists>d<2 * m. bit v (i + d)"
  then obtain d where d: "d < 2 * m" "bit v (i + d)" by blast
  show "bit (w OR drop_bit m w) i"
  proof (cases "d < m")
    case True
    then show ?thesis using d assms by (auto simp: bit_or_iff)
  next
    case False
    then have "d - m < m" "bit v (m + i + (d - m))" using d by (simp_all add: ac_simps)
    then have "bit w (m + i)" using assms by blast
    then show ?thesis by (simp add: bit_or_iff bit_drop_bit_eq)
  qed
qed

lemma top_bit:
  assumes "v \<noteq> (0 :: u64)"
  shows "\<exists>h<64. 2 ^ h \<le> unat v \<and> unat v < 2 ^ Suc h \<and> bit v h \<and> (\<forall>j>h. \<not> bit v j)"
proof -
  have "1 \<le> unat v" using assms by (simp add: Suc_le_eq unat_gt_0)
  then obtain h where h: "2 ^ h \<le> unat v" "unat v < 2 ^ Suc h" using ex_power_ivl1 [of 2 "unat v"] by auto
  have b: "bit v j \<longleftrightarrow> odd (unat v div 2 ^ j)" for j
    by (metis bit_iff_odd bit_unsigned_iff possible_bit_nat)
  have "unat v div 2 ^ h = 1" using h by (simp add: div_nat_eqI)
  then have "bit v h" by (simp add: b)
  moreover have "\<not> bit v j" if "j > h" for j
  proof -
    have "(2 :: nat) ^ Suc h \<le> 2 ^ j" using that by (intro power_increasing) simp_all
    then show ?thesis using h(2) by (simp add: b)
  qed
  moreover have "h < 64" using \<open>bit v h\<close> bit_imp_le_length [of v h] by simp
  ultimately show ?thesis using h by blast
qed

lemma smear_all:
  fixes v w :: u64
  assumes "\<And>i. bit w i \<longleftrightarrow> (\<exists>d<64. bit v (i + d))" "bit v h" "\<forall>j>h. \<not> bit v j" "h < 64"
  shows "w = mask (Suc h)"
proof (rule bit_word_eqI)
  fix i
  assume "i < LENGTH(64)"
  then have i: "i < 64" by simp
  have "(\<exists>d<64. bit v (i + d)) \<longleftrightarrow> i \<le> h"
  proof
    assume "\<exists>d<64. bit v (i + d)"
    then obtain d where "bit v (i + d)" by blast
    then have "\<not> h < i + d" using assms(3) by blast
    then show "i \<le> h" by simp
  next
    assume "i \<le> h"
    then have "h - i < 64" "bit v (i + (h - i))" using assms(2,4) by simp_all
    then show "\<exists>d<64. bit v (i + d)" by blast
  qed
  then show "bit w i = bit (mask (Suc h) :: u64) i" using i assms(1) by (simp add: bit_mask_iff less_Suc_eq_le)
qed

lemma smear_pow2:
  fixes v :: u64
  assumes "v \<noteq> 0"
  defines "w1 \<equiv> v OR drop_bit 1 v"
  defines "w2 \<equiv> w1 OR drop_bit 2 w1"
  defines "w3 \<equiv> w2 OR drop_bit 4 w2"
  defines "w4 \<equiv> w3 OR drop_bit 8 w3"
  defines "w5 \<equiv> w4 OR drop_bit 16 w4"
  defines "w6 \<equiv> w5 OR drop_bit 32 w5"
  shows "\<exists>h<64. w6 + 1 = 2 ^ Suc h \<and> 2 ^ h \<le> unat v \<and> unat v < 2 ^ Suc h"
proof -
  have b0: "bit v i \<longleftrightarrow> (\<exists>d<1. bit v (i + d))" for i by simp
  have b1: "bit w1 i \<longleftrightarrow> (\<exists>d<2. bit v (i + d))" for i
    using smear_step [OF b0, of i] unfolding w1_def by simp
  have b2: "bit w2 i \<longleftrightarrow> (\<exists>d<4. bit v (i + d))" for i using smear_step [OF b1, of i] unfolding w2_def by simp
  have b3: "bit w3 i \<longleftrightarrow> (\<exists>d<8. bit v (i + d))" for i using smear_step [OF b2, of i] unfolding w3_def by simp
  have b4: "bit w4 i \<longleftrightarrow> (\<exists>d<16. bit v (i + d))" for i using smear_step [OF b3, of i] unfolding w4_def by simp
  have b5: "bit w5 i \<longleftrightarrow> (\<exists>d<32. bit v (i + d))" for i using smear_step [OF b4, of i] unfolding w5_def by simp
  have b6: "bit w6 i \<longleftrightarrow> (\<exists>d<64. bit v (i + d))" for i using smear_step [OF b5, of i] unfolding w6_def by simp
  obtain h where h: "h < 64" "2 ^ h \<le> unat v" "unat v < 2 ^ Suc h" "bit v h" "\<forall>j>h. \<not> bit v j"
    using top_bit [OF assms(1)] by blast
  have "w6 = mask (Suc h)" by (rule smear_all [OF b6 h(4,5,1)])
  then have "w6 + 1 = 2 ^ Suc h" by (simp only: mask_eq_minus_1) simp
  then show ?thesis using h by blast
qed

lemma round_up_pow2_least:
  assumes "v \<le> 2 ^ 63"
  shows "\<exists>k. 1 \<le> k \<and> k \<le> 63 \<and> round_up_pow2 v = 2 ^ k \<and> unat v \<le> 2 ^ k \<and> (2 \<le> v \<longrightarrow> 2 ^ k < 2 * unat v)"
proof (cases "v < 2")
  case True
  then show ?thesis by (intro exI [of _ 1]) (auto simp: round_up_pow2_def word_less_nat_alt word_le_nat_alt)
next
  case False
  then have v2: "2 \<le> unat v" by (simp add: word_less_nat_alt not_less)
  define u where "u = v - 1"
  have v0: "v \<noteq> 0" using v2 by auto
  have uv: "unat u = unat v - 1" unfolding u_def by (rule unat_minus_one [OF v0])
  then have u0: "u \<noteq> 0" using v2 by auto
  obtain h where h: "h < 64" "round_up_pow2 v = 2 ^ Suc h" "2 ^ h \<le> unat u" "unat u < 2 ^ Suc h"
    using smear_pow2 [OF u0] False by (auto simp: round_up_pow2_def u_def Let_def)
  have "unat v \<le> 2 ^ 63" using assms by (simp add: word_le_nat_alt)
  then have "(2 :: nat) ^ h < 2 ^ 63" using h(3) uv v2 by linarith
  then have "h < 63" by (rule power_less_imp_less_exp [rotated]) simp
  then have "Suc h \<le> 63" by simp
  moreover have "unat v \<le> 2 ^ Suc h" using h(4) uv by linarith
  moreover have "2 ^ Suc h < 2 * unat v" using h(3) uv v2 by simp
  ultimately show ?thesis using h(2) by (intro exI [of _ "Suc h"]) simp
qed

subsection \<open>The invariant\<close>

text \<open>
  The invariant speaks of the counters as numbers: \<open>N\<close> cells, \<open>E\<close> and \<open>D\<close> the two positions, \<open>sq\<close> and
  \<open>dat\<close> the contents of the cells, \<open>cl\<close> the values claimed so far. A cell is either waiting for the
  producer of position \<open>sq i\<close>, who may already have claimed it, or holds the value of position
  \<open>sq i - 1\<close>, which a consumer may already have claimed.
\<close>

definition writes :: "'a mpmc_pc \<Rightarrow> nat \<Rightarrow> bool" where
  "writes pc p = (case pc of E_write v pos \<Rightarrow> unat pos = p | E_store pos \<Rightarrow> unat pos = p | _ \<Rightarrow> False)"

definition reads :: "'a mpmc_pc \<Rightarrow> nat \<Rightarrow> bool" where
  "reads pc p = (case pc of D_read pos \<Rightarrow> unat pos = p | D_store pos v \<Rightarrow> unat pos = p | _ \<Rightarrow> False)"

definition to_read :: "'a mpmc_pc \<Rightarrow> nat \<Rightarrow> bool" where
  "to_read pc p = (case pc of D_read pos \<Rightarrow> unat pos = p | _ \<Rightarrow> False)"

definition empty_cell :: "nat \<Rightarrow> nat \<Rightarrow> nat \<Rightarrow> (nat \<Rightarrow> 'a mpmc_pc) \<Rightarrow> nat \<Rightarrow> nat \<Rightarrow> bool" where
  "empty_cell N E D th i s \<longleftrightarrow> s mod N = i \<and> D \<le> s \<and> s < D + N \<and> E \<le> s + N \<and> (s < E \<longrightarrow> (\<exists>t. writes (th t) s))"

definition full_cell :: "nat \<Rightarrow> nat \<Rightarrow> nat \<Rightarrow> (nat \<Rightarrow> 'a mpmc_pc) \<Rightarrow> 'a list \<Rightarrow> nat \<Rightarrow> nat \<Rightarrow> 'a \<Rightarrow> bool" where
  "full_cell N E D th cl i s d \<longleftrightarrow> (\<exists>p. s = Suc p \<and> p mod N = i \<and> p < E \<and> p < D + N \<and> E \<le> p + N \<and> d = cl ! p \<and>
     (p < D \<longrightarrow> (\<exists>t. reads (th t) p)))"

definition cells_ok :: "nat \<Rightarrow> nat \<Rightarrow> nat \<Rightarrow> (nat \<Rightarrow> nat) \<Rightarrow> (nat \<Rightarrow> 'a) \<Rightarrow> (nat \<Rightarrow> 'a mpmc_pc) \<Rightarrow> 'a list \<Rightarrow> bool" where
  "cells_ok N E D sq dat th cl \<longleftrightarrow> (\<forall>i<N. empty_cell N E D th i (sq i) \<or> full_cell N E D th cl i (sq i) (dat i))"

definition pc_ok :: "nat \<Rightarrow> nat \<Rightarrow> nat \<Rightarrow> (nat \<Rightarrow> nat) \<Rightarrow> (nat \<Rightarrow> 'a) \<Rightarrow> 'a list \<Rightarrow> 'a mpmc_pc \<Rightarrow> bool" where
  "pc_ok N E D sq dat cl pc = (case pc of
     E_seq v pos \<Rightarrow> unat pos \<le> E
   | E_cas v pos \<Rightarrow> unat pos \<le> E \<and> (E = unat pos \<longrightarrow> sq (unat pos mod N) = unat pos)
   | E_write v pos \<Rightarrow> unat pos < E \<and> sq (unat pos mod N) = unat pos \<and> cl ! unat pos = v
   | E_store pos \<Rightarrow> unat pos < E \<and> sq (unat pos mod N) = unat pos \<and> dat (unat pos mod N) = cl ! unat pos
   | D_seq pos \<Rightarrow> unat pos \<le> D
   | D_cas pos \<Rightarrow> unat pos \<le> D \<and> (D = unat pos \<longrightarrow> sq (unat pos mod N) = Suc (unat pos))
   | D_read pos \<Rightarrow> unat pos < D \<and> sq (unat pos mod N) = Suc (unat pos) \<and> dat (unat pos mod N) = cl ! unat pos
   | D_store pos v \<Rightarrow> unat pos < D \<and> sq (unat pos mod N) = Suc (unat pos) \<and> v = cl ! unat pos
   | _ \<Rightarrow> True)"

definition alone :: "(nat \<Rightarrow> 'a mpmc_pc) \<Rightarrow> bool" where
  "alone th \<longleftrightarrow> (\<forall>t u p. writes (th t) p \<longrightarrow> writes (th u) p \<longrightarrow> t = u) \<and> (\<forall>t u p. reads (th t) p \<longrightarrow> reads (th u) p \<longrightarrow> t = u)"

definition takes_ok :: "nat \<Rightarrow> (nat \<Rightarrow> 'a mpmc_pc) \<Rightarrow> 'a list \<Rightarrow> (nat \<times> 'a) list \<Rightarrow> bool" where
  "takes_ok D th cl tk \<longleftrightarrow> distinct (map fst tk) \<and> (\<forall>x\<in>set tk. fst x < D \<and> snd x = cl ! fst x) \<and>
     (\<forall>p<D. p \<in> fst ` set tk \<or> (\<exists>t. to_read (th t) p)) \<and> (\<forall>t p. to_read (th t) p \<longrightarrow> p \<notin> fst ` set tk)"

definition mpmc_inv ::
  "nat \<Rightarrow> nat \<Rightarrow> nat \<Rightarrow> (nat \<Rightarrow> nat) \<Rightarrow> (nat \<Rightarrow> 'a) \<Rightarrow> (nat \<Rightarrow> 'a mpmc_pc) \<Rightarrow> 'a list \<Rightarrow> (nat \<times> 'a) list \<Rightarrow> bool" where
  "mpmc_inv N E D sq dat th cl tk \<longleftrightarrow> D \<le> E \<and> length cl = E \<and> cells_ok N E D sq dat th cl \<and>
     (\<forall>t. pc_ok N E D sq dat cl (th t)) \<and> alone th \<and> takes_ok D th cl tk"

lemma holder_simps [simp]:
  "writes (E_write v pos) p \<longleftrightarrow> unat pos = p" "writes (E_store pos) p \<longleftrightarrow> unat pos = p" "\<not> writes Idle p"
  "\<not> writes (E_load v) p" "\<not> writes (E_seq v pos) p" "\<not> writes (E_cas v pos) p" "\<not> writes (E_done b) p" "\<not> writes D_load p"
  "\<not> writes (D_seq pos) p" "\<not> writes (D_cas pos) p" "\<not> writes (D_read pos) p" "\<not> writes (D_store pos v) p" "\<not> writes (D_done r) p"
  "reads (D_read pos) p \<longleftrightarrow> unat pos = p" "reads (D_store pos v) p \<longleftrightarrow> unat pos = p" "\<not> reads Idle p"
  "\<not> reads (E_load v) p" "\<not> reads (E_seq v pos) p" "\<not> reads (E_cas v pos) p" "\<not> reads (E_write v pos) p" "\<not> reads (E_store pos) p"
  "\<not> reads (E_done b) p" "\<not> reads D_load p" "\<not> reads (D_seq pos) p" "\<not> reads (D_cas pos) p" "\<not> reads (D_done r) p"
  by (simp_all add: writes_def reads_def)

lemma to_read_simps [simp]:
  "to_read (D_read pos) p \<longleftrightarrow> unat pos = p" "\<not> to_read (D_store pos v) p" "\<not> to_read Idle p"
  "\<not> to_read (E_load v) p" "\<not> to_read (E_seq v pos) p" "\<not> to_read (E_cas v pos) p" "\<not> to_read (E_write v pos) p" "\<not> to_read (E_store pos) p"
  "\<not> to_read (E_done b) p" "\<not> to_read D_load p" "\<not> to_read (D_seq pos) p" "\<not> to_read (D_cas pos) p" "\<not> to_read (D_done r) p"
  by (simp_all add: to_read_def)

lemma pc_ok_simps [simp]:
  "pc_ok N E D sq dat cl Idle" "pc_ok N E D sq dat cl (E_load v)" "pc_ok N E D sq dat cl (E_done b)"
  "pc_ok N E D sq dat cl D_load" "pc_ok N E D sq dat cl (D_done r)"
  "pc_ok N E D sq dat cl (E_seq v pos) \<longleftrightarrow> unat pos \<le> E" "pc_ok N E D sq dat cl (D_seq pos) \<longleftrightarrow> unat pos \<le> D"
  "pc_ok N E D sq dat cl (E_cas v pos) \<longleftrightarrow> unat pos \<le> E \<and> (E = unat pos \<longrightarrow> sq (unat pos mod N) = unat pos)"
  "pc_ok N E D sq dat cl (E_write v pos) \<longleftrightarrow> unat pos < E \<and> sq (unat pos mod N) = unat pos \<and> cl ! unat pos = v"
  "pc_ok N E D sq dat cl (E_store pos) \<longleftrightarrow> unat pos < E \<and> sq (unat pos mod N) = unat pos \<and> dat (unat pos mod N) = cl ! unat pos"
  "pc_ok N E D sq dat cl (D_cas pos) \<longleftrightarrow> unat pos \<le> D \<and> (D = unat pos \<longrightarrow> sq (unat pos mod N) = Suc (unat pos))"
  "pc_ok N E D sq dat cl (D_read pos) \<longleftrightarrow> unat pos < D \<and> sq (unat pos mod N) = Suc (unat pos) \<and> dat (unat pos mod N) = cl ! unat pos"
  "pc_ok N E D sq dat cl (D_store pos v) \<longleftrightarrow> unat pos < D \<and> sq (unat pos mod N) = Suc (unat pos) \<and> v = cl ! unat pos"
  by (auto simp: pc_ok_def)

text \<open>Neighbouring positions lie in different cells.\<close>

lemma Suc_mod_neq: "2 \<le> (N :: nat) \<Longrightarrow> Suc p mod N \<noteq> p mod N"
  by (auto simp: mod_Suc split: if_splits)

lemma not_full_at:
  assumes "2 \<le> N" "full_cell N E D th cl (p mod N) s d"
  shows "s \<noteq> p"
  using assms Suc_mod_neq [OF assms(1)] unfolding full_cell_def by metis

lemma not_empty_at:
  assumes "2 \<le> N" "empty_cell N E D th (p mod N) s"
  shows "s \<noteq> Suc p"
  using assms Suc_mod_neq [OF assms(1)] unfolding empty_cell_def by metis

text \<open>A move of one thread that neither takes nor gives up a cell.\<close>

lemma inv_local:
  assumes "mpmc_inv N E D sq dat th cl tk" "pc_ok N E D sq dat cl pc"
    "\<And>p. \<not> writes pc p \<and> \<not> reads pc p \<and> \<not> to_read pc p"
    "\<And>p. \<not> writes (th t) p \<and> \<not> reads (th t) p \<and> \<not> to_read (th t) p"
  shows "mpmc_inv N E D sq dat (th(t := pc)) cl tk"
proof -
  have w: "writes ((th(t := pc)) u) p \<longleftrightarrow> writes (th u) p" "reads ((th(t := pc)) u) p \<longleftrightarrow> reads (th u) p"
    "to_read ((th(t := pc)) u) p \<longleftrightarrow> to_read (th u) p" for u p
    using assms(3,4) [of p] by auto
  show ?thesis
    using assms(1,2) unfolding mpmc_inv_def cells_ok_def empty_cell_def full_cell_def alone_def takes_ok_def w by simp
qed

lemma writes_pc: "pc_ok N E D sq dat cl pc \<Longrightarrow> writes pc p \<Longrightarrow> p < E \<and> sq (p mod N) = p"
  by (cases pc) auto

lemma reads_pc: "pc_ok N E D sq dat cl pc \<Longrightarrow> reads pc p \<Longrightarrow> p < D \<and> sq (p mod N) = Suc p"
  by (cases pc) auto

lemma to_read_reads: "to_read pc p \<Longrightarrow> reads pc p"
  by (cases pc) auto

lemma invD:
  assumes "mpmc_inv N E D sq dat th cl tk"
  shows "D \<le> E" "length cl = E" "i < N \<Longrightarrow> empty_cell N E D th i (sq i) \<or> full_cell N E D th cl i (sq i) (dat i)"
    "pc_ok N E D sq dat cl (th t)" "writes (th t) p \<Longrightarrow> writes (th u) p \<Longrightarrow> t = u" "reads (th t) p \<Longrightarrow> reads (th u) p \<Longrightarrow> t = u"
    "takes_ok D th cl tk" "alone th"
  using assms unfolding mpmc_inv_def cells_ok_def alone_def by blast+

lemma alone_upd:
  assumes "alone th" "\<And>u p. u \<noteq> t \<Longrightarrow> writes pc p \<Longrightarrow> \<not> writes (th u) p" "\<And>u p. u \<noteq> t \<Longrightarrow> reads pc p \<Longrightarrow> \<not> reads (th u) p"
  shows "alone (th(t := pc))"
  using assms unfolding alone_def fun_upd_def by metis

lemma pc_ok_claim_E:
  "pc_ok N E D sq dat cl pc \<Longrightarrow> length cl = E \<Longrightarrow> D \<le> E \<Longrightarrow> pc_ok N (Suc E) D sq dat (cl @ [v]) pc"
  by (cases pc) (auto simp: nth_append)

lemma cell_claim_E:
  assumes "2 \<le> N" "i < N" "length cl = E" "sq (E mod N) = E" "empty_cell N E D th i (sq i) \<or> full_cell N E D th cl i (sq i) (dat i)"
    "\<And>p. writes (th t) p = False" "\<And>p. reads (th t) p = False" "writes pc E" "\<And>p. reads pc p = False"
  shows "empty_cell N (Suc E) D (th(t := pc)) i (sq i) \<or> full_cell N (Suc E) D (th(t := pc)) (cl @ [v]) i (sq i) (dat i)"
proof (cases "i = E mod N")
  case True
  then have "\<not> full_cell N E D th cl i (sq i) (dat i)" using not_full_at [OF assms(1), of E D th cl E] assms(4) by auto
  then have "empty_cell N E D th i (sq i)" using assms(5) by blast
  then show ?thesis using True assms(1,4,8) unfolding empty_cell_def by (auto intro: exI [of _ t])
next
  case False
  have keep: "\<exists>u. writes ((th(t := pc)) u) s" if "\<exists>u. writes (th u) s" for s
    using that assms(6) by (metis fun_upd_other)
  have keepr: "\<exists>u. reads ((th(t := pc)) u) s" if "\<exists>u. reads (th u) s" for s
    using that assms(7) by (metis fun_upd_other)
  show ?thesis
    using assms(5)
  proof
    assume "empty_cell N E D th i (sq i)"
    then have e: "sq i mod N = i" "D \<le> sq i \<and> sq i < D + N" "E \<le> sq i + N" "sq i < E \<longrightarrow> (\<exists>t. writes (th t) (sq i))"
      by (auto simp: empty_cell_def)
    have "E \<noteq> sq i + N" "E \<noteq> sq i" using e(1) False by auto
    then have "empty_cell N (Suc E) D (th(t := pc)) i (sq i)"
      using e keep [of "sq i"] by (simp add: empty_cell_def del: fun_upd_apply)
    then show ?thesis ..
  next
    assume "full_cell N E D th cl i (sq i) (dat i)"
    then obtain p where p: "sq i = Suc p" "p mod N = i" "p < E" "p < D + N" "E \<le> p + N" "dat i = cl ! p" "p < D \<longrightarrow> (\<exists>t. reads (th t) p)"
      by (auto simp: full_cell_def)
    have "E \<noteq> p + N" using p(2) False by auto
    then have "full_cell N (Suc E) D (th(t := pc)) (cl @ [v]) i (sq i) (dat i)"
      using p keepr [of p] assms(3) by (simp add: full_cell_def nth_append del: fun_upd_apply)
    then show ?thesis ..
  qed
qed

lemma inv_claim_E:
  assumes "mpmc_inv N E D sq dat th cl tk" "2 \<le> N" "th t = E_cas v pos" "unat pos = E"
  shows "mpmc_inv N (Suc E) D sq dat (th(t := E_write v pos)) (cl @ [v]) tk"
proof -
  note I = invD [OF assms(1)]
  have sqE: "sq (E mod N) = E" using I(4) [of t] assms(3,4) by simp
  have cells: "cells_ok N (Suc E) D sq dat (th(t := E_write v pos)) (cl @ [v])"
    unfolding cells_ok_def
  proof (intro allI impI)
    fix i assume i: "i < N"
    show "empty_cell N (Suc E) D (th(t := E_write v pos)) i (sq i) \<or> full_cell N (Suc E) D (th(t := E_write v pos)) (cl @ [v]) i (sq i) (dat i)"
      by (rule cell_claim_E [where sq = sq and dat = dat and th = th and cl = cl, OF assms(2) i I(2) sqE I(3) [OF i]]) (simp_all add: assms(3,4))
  qed
  have pcs: "pc_ok N (Suc E) D sq dat (cl @ [v]) ((th(t := E_write v pos)) u)" for u
    using pc_ok_claim_E [OF I(4) I(2,1)] sqE assms(4) I(2) by (auto simp: nth_append)
  have "alone (th(t := E_write v pos))"
  proof (rule alone_upd [OF I(8)])
    fix u p assume "writes (E_write v pos) p"
    then show "\<not> writes (th u) p" using writes_pc [OF I(4), of u p] assms(4) by auto
  qed simp
  moreover have "takes_ok D (th(t := E_write v pos)) (cl @ [v]) tk"
  proof -
    have "to_read ((th(t := E_write v pos)) u) p \<longleftrightarrow> to_read (th u) p" for u p using assms(3) by simp
    then show ?thesis using I(1,2,7) unfolding takes_ok_def by (auto simp: nth_append)
  qed
  ultimately show ?thesis using I(1,2) cells pcs unfolding mpmc_inv_def by simp
qed

lemma cells_frame:
  assumes "empty_cell N E D th i s \<or> full_cell N E D th cl i s d"
    "\<And>u. writes (th u) s \<Longrightarrow> \<exists>u. writes (th' u) s" "\<And>u p. s = Suc p \<Longrightarrow> p mod N = i \<Longrightarrow> reads (th u) p \<Longrightarrow> \<exists>u. reads (th' u) p"
  shows "empty_cell N E D th' i s \<or> full_cell N E D th' cl i s d"
  using assms unfolding empty_cell_def full_cell_def by metis

lemma pc_ok_dat:
  assumes "pc_ok N E D sq dat cl pc" "\<And>p. writes pc p \<Longrightarrow> p mod N \<noteq> i" "\<And>p. reads pc p \<Longrightarrow> p mod N \<noteq> i"
  shows "pc_ok N E D sq (dat(i := d)) cl pc"
  using assms by (cases pc) auto

lemma pc_ok_sq:
  assumes "pc_ok N E D sq dat cl pc" "\<And>p. writes pc p \<Longrightarrow> p mod N \<noteq> i" "\<And>p. reads pc p \<Longrightarrow> p mod N \<noteq> i"
    "E mod N = i \<Longrightarrow> sq i \<noteq> E" "D mod N = i \<Longrightarrow> sq i \<noteq> Suc D"
  shows "pc_ok N E D (sq(i := s)) dat cl pc"
  using assms by (cases pc) auto

text \<open>A thread other than the one that holds position \<open>p\<close> holds nothing in the cell of \<open>p\<close>.\<close>

lemma only_writer:
  assumes "mpmc_inv N E D sq dat th cl tk" "2 \<le> N" "writes (th t) p" "u \<noteq> t"
  shows "writes (th u) r \<Longrightarrow> r mod N \<noteq> p mod N" "reads (th u) r \<Longrightarrow> r mod N \<noteq> p mod N"
proof -
  note I = invD [OF assms(1)]
  have sp: "sq (p mod N) = p" using writes_pc [OF I(4) assms(3)] by simp
  show "r mod N \<noteq> p mod N" if "writes (th u) r"
    using writes_pc [OF I(4) that] sp I(5) [OF assms(3), of u] that assms(4) by auto
  show "r mod N \<noteq> p mod N" if "reads (th u) r"
    using reads_pc [OF I(4) that] sp Suc_mod_neq [OF assms(2), of r] by auto
qed

lemma only_reader:
  assumes "mpmc_inv N E D sq dat th cl tk" "2 \<le> N" "reads (th t) p" "u \<noteq> t"
  shows "writes (th u) r \<Longrightarrow> r mod N \<noteq> p mod N" "reads (th u) r \<Longrightarrow> r mod N \<noteq> p mod N"
proof -
  note I = invD [OF assms(1)]
  have sp: "sq (p mod N) = Suc p" using reads_pc [OF I(4) assms(3)] by simp
  show "r mod N \<noteq> p mod N" if "writes (th u) r"
    using writes_pc [OF I(4) that] sp Suc_mod_neq [OF assms(2), of p] by auto
  show "r mod N \<noteq> p mod N" if "reads (th u) r"
    using reads_pc [OF I(4) that] sp I(6) [OF assms(3), of u] that assms(4) by auto
qed

lemma takes_frame:
  assumes "takes_ok D th cl tk" "\<And>p. to_read pc p \<longleftrightarrow> to_read (th t) p"
  shows "takes_ok D (th(t := pc)) cl tk"
proof -
  have "to_read ((th(t := pc)) u) p \<longleftrightarrow> to_read (th u) p" for u p using assms(2) by simp
  then show ?thesis using assms(1) unfolding takes_ok_def by simp
qed

lemma inv_write:
  assumes "mpmc_inv N E D sq dat th cl tk" "2 \<le> N" "th t = E_write v pos"
  shows "mpmc_inv N E D sq (dat(unat pos mod N := v)) (th(t := E_store pos)) cl tk"
proof -
  note I = invD [OF assms(1)]
  define p where "p = unat pos"
  have w: "writes (th t) p" using assms(3) by (simp add: p_def)
  have own: "p < E" "sq (p mod N) = p" "cl ! p = v" using I(4) [of t] assms(3) by (auto simp: p_def)
  have same: "writes ((th(t := E_store pos)) u) q \<longleftrightarrow> writes (th u) q" "reads ((th(t := E_store pos)) u) q \<longleftrightarrow> reads (th u) q" for u q
    using assms(3) by auto
  have cells: "cells_ok N E D sq (dat(p mod N := v)) (th(t := E_store pos)) cl"
    unfolding cells_ok_def
  proof (intro allI impI)
    fix i assume i: "i < N"
    have "empty_cell N E D th i (sq i) \<or> full_cell N E D th cl i (sq i) ((dat(p mod N := v)) i)"
      using I(3) [OF i] not_full_at [OF assms(2), of E D th cl p "sq i" "dat i"] own(2) by (cases "i = p mod N") auto
    then show "empty_cell N E D (th(t := E_store pos)) i (sq i) \<or> full_cell N E D (th(t := E_store pos)) cl i (sq i) ((dat(p mod N := v)) i)"
      by (rule cells_frame) (auto simp: same simp del: fun_upd_apply)
  qed
  have "pc_ok N E D sq (dat(p mod N := v)) cl ((th(t := E_store pos)) u)" for u
    using pc_ok_dat [OF I(4), of u "p mod N"] only_writer [OF assms(1,2) w, of u] own by (cases "u = t") (auto simp: p_def)
  moreover have "alone (th(t := E_store pos))" using I(8) unfolding alone_def same .
  moreover have "takes_ok D (th(t := E_store pos)) cl tk" by (rule takes_frame [OF I(7)]) (simp add: assms(3))
  ultimately show ?thesis using I(1,2) cells unfolding mpmc_inv_def p_def by blast
qed

lemma inv_store_E:
  assumes "mpmc_inv N E D sq dat th cl tk" "2 \<le> N" "th t = E_store pos"
  shows "mpmc_inv N E D (sq(unat pos mod N := Suc (unat pos))) dat (th(t := E_done True)) cl tk"
proof -
  note I = invD [OF assms(1)]
  define p where "p = unat pos"
  have w: "writes (th t) p" using assms(3) by (simp add: p_def)
  have own: "p < E" "sq (p mod N) = p" "dat (p mod N) = cl ! p" using I(4) [of t] assms(3) by (auto simp: p_def)
  have pN: "p mod N < N" using assms(2) by simp
  have ec: "empty_cell N E D th (p mod N) p"
    using I(3) [OF pN] not_full_at [OF assms(2), of E D th cl p "sq (p mod N)"] own(2) by auto
  have cells: "cells_ok N E D (sq(p mod N := Suc p)) dat (th(t := E_done True)) cl"
    unfolding cells_ok_def
  proof (intro allI impI)
    fix i assume i: "i < N"
    show "empty_cell N E D (th(t := E_done True)) i ((sq(p mod N := Suc p)) i) \<or>
        full_cell N E D (th(t := E_done True)) cl i ((sq(p mod N := Suc p)) i) (dat i)"
    proof (cases "i = p mod N")
      case True
      then show ?thesis using ec own by (simp add: full_cell_def empty_cell_def)
    next
      case False
      have "\<exists>u. writes ((th(t := E_done True)) u) (sq i)" if "sq i mod N = i" "writes (th u) (sq i)" for u
        using that False w assms(3) by (intro exI [of _ u]) (auto simp: p_def)
      moreover have "\<exists>u. reads ((th(t := E_done True)) u) r" if "reads (th u) r" for u r
        using that assms(3) by (intro exI [of _ u]) auto
      ultimately have "empty_cell N E D (th(t := E_done True)) i (sq i) \<or> full_cell N E D (th(t := E_done True)) cl i (sq i) (dat i)"
        using I(3) [OF i] unfolding empty_cell_def full_cell_def by metis
      then show ?thesis using False by simp
    qed
  qed
  have "pc_ok N E D (sq(p mod N := Suc p)) dat cl ((th(t := E_done True)) u)" for u
  proof (cases "u = t")
    case False
    have "D mod N = p mod N \<Longrightarrow> sq (p mod N) \<noteq> Suc D" using own(2) Suc_mod_neq [OF assms(2), of D] by auto
    then show ?thesis
      using pc_ok_sq [OF I(4), of u "p mod N" "Suc p"] only_writer [OF assms(1,2) w False] own False by simp
  qed simp
  moreover have "alone (th(t := E_done True))" by (rule alone_upd [OF I(8)]) simp_all
  moreover have "takes_ok D (th(t := E_done True)) cl tk" by (rule takes_frame [OF I(7)]) (simp add: assms(3))
  ultimately show ?thesis using I(1,2) cells unfolding mpmc_inv_def p_def by blast
qed

lemma cell_claim_D:
  assumes "2 \<le> N" "sq (D mod N) = Suc D" "empty_cell N E D th i (sq i) \<or> full_cell N E D th cl i (sq i) (dat i)"
    "\<And>p. writes (th t) p = False" "\<And>p. reads (th t) p = False" "reads pc D" "\<And>p. writes pc p = False"
  shows "empty_cell N E (Suc D) (th(t := pc)) i (sq i) \<or> full_cell N E (Suc D) (th(t := pc)) cl i (sq i) (dat i)"
proof -
  have keep: "\<exists>u. writes ((th(t := pc)) u) s" if "\<exists>u. writes (th u) s" for s
    using that assms(4) by (metis fun_upd_other)
  have keepr: "\<exists>u. reads ((th(t := pc)) u) s" if "\<exists>u. reads (th u) s" for s
    using that assms(5) by (metis fun_upd_other)
  have here: "\<exists>u. reads ((th(t := pc)) u) D" using assms(6) by (intro exI [of _ t]) simp
  show ?thesis
    using assms(3)
  proof
    assume e: "empty_cell N E D th i (sq i)"
    have "sq i \<noteq> D"
    proof
      assume "sq i = D"
      then have "i = D mod N" using e by (simp add: empty_cell_def)
      then show False using assms(2) \<open>sq i = D\<close> by simp
    qed
    then show ?thesis using e keep [of "sq i"] by (simp add: empty_cell_def del: fun_upd_apply)
  next
    assume "full_cell N E D th cl i (sq i) (dat i)"
    then obtain p where p: "sq i = Suc p" "p mod N = i" "p < E" "p < D + N" "E \<le> p + N" "dat i = cl ! p" "p < D \<longrightarrow> (\<exists>t. reads (th t) p)"
      by (auto simp: full_cell_def)
    have "p < Suc D \<longrightarrow> (\<exists>u. reads ((th(t := pc)) u) p)"
      using p(7) keepr [of p] here by (cases "p = D") (auto simp del: fun_upd_apply)
    then show ?thesis using p by (simp add: full_cell_def del: fun_upd_apply)
  qed
qed

lemma pc_ok_claim_D: "pc_ok N E D sq dat cl pc \<Longrightarrow> pc_ok N E (Suc D) sq dat cl pc"
  by (cases pc) auto

lemma inv_claim_D:
  assumes "mpmc_inv N E D sq dat th cl tk" "2 \<le> N" "th t = D_cas pos" "unat pos = D"
  shows "mpmc_inv N E (Suc D) sq dat (th(t := D_read pos)) cl tk"
proof -
  note I = invD [OF assms(1)]
  have sqD: "sq (D mod N) = Suc D" using I(4) [of t] assms(3,4) by simp
  have DN: "D mod N < N" using assms(2) by simp
  have "full_cell N E D th cl (D mod N) (Suc D) (dat (D mod N))"
    using I(3) [OF DN] not_empty_at [OF assms(2), of E D th D "sq (D mod N)"] sqD by auto
  then have full: "D < E" "dat (D mod N) = cl ! D" by (auto simp: full_cell_def)
  have cells: "cells_ok N E (Suc D) sq dat (th(t := D_read pos)) cl"
    unfolding cells_ok_def
  proof (intro allI impI)
    fix i assume i: "i < N"
    show "empty_cell N E (Suc D) (th(t := D_read pos)) i (sq i) \<or> full_cell N E (Suc D) (th(t := D_read pos)) cl i (sq i) (dat i)"
      by (rule cell_claim_D [where sq = sq and dat = dat and th = th and cl = cl, OF assms(2) sqD I(3) [OF i]]) (simp_all add: assms(3,4))
  qed
  have "pc_ok N E (Suc D) sq dat cl ((th(t := D_read pos)) u)" for u
    using pc_ok_claim_D [OF I(4)] sqD full(2) assms(4) by simp
  moreover have "alone (th(t := D_read pos))"
  proof (rule alone_upd [OF I(8)])
    fix u p assume "reads (D_read pos) p"
    then show "\<not> reads (th u) p" using reads_pc [OF I(4), of u p] assms(4) by auto
  qed simp
  moreover have "takes_ok (Suc D) (th(t := D_read pos)) cl tk"
  proof -
    have tr: "to_read ((th(t := D_read pos)) u) p \<longleftrightarrow> to_read (th u) p \<or> (u = t \<and> p = D)" for u p using assms(3,4) by auto
    show ?thesis using I(7) unfolding takes_ok_def tr by (auto simp: less_Suc_eq)
  qed
  ultimately show ?thesis using I(2) full(1) cells unfolding mpmc_inv_def by auto
qed

lemma inv_read:
  assumes "mpmc_inv N E D sq dat th cl tk" "2 \<le> N" "th t = D_read pos"
  shows "mpmc_inv N E D sq dat (th(t := D_store pos (dat (unat pos mod N)))) cl (tk @ [(unat pos, dat (unat pos mod N))])"
proof -
  note I = invD [OF assms(1)]
  define p where "p = unat pos"
  define d where "d = dat (p mod N)"
  have r: "reads (th t) p" "to_read (th t) p" using assms(3) by (simp_all add: p_def)
  have own: "p < D" "sq (p mod N) = Suc p" "d = cl ! p" using I(4) [of t] assms(3) by (auto simp: p_def d_def)
  have same: "writes ((th(t := D_store pos d)) u) q \<longleftrightarrow> writes (th u) q" "reads ((th(t := D_store pos d)) u) q \<longleftrightarrow> reads (th u) q" for u q
    using assms(3) by auto
  have "cells_ok N E D sq dat (th(t := D_store pos d)) cl"
    using assms(1) unfolding mpmc_inv_def cells_ok_def empty_cell_def full_cell_def same by blast
  moreover have "pc_ok N E D sq dat cl ((th(t := D_store pos d)) u)" for u
    using I(4) [of u] own by (auto simp: p_def)
  moreover have "alone (th(t := D_store pos d))" using I(8) unfolding alone_def same .
  moreover have "takes_ok D (th(t := D_store pos d)) cl (tk @ [(p, d)])"
  proof -
    have other: "\<not> to_read (th u) p" if "u \<noteq> t" for u using that I(6) [OF r(1), of u] to_read_reads by blast
    have tr: "to_read ((th(t := D_store pos d)) u) q \<longleftrightarrow> u \<noteq> t \<and> to_read (th u) q" for u q by auto
    have tp: "to_read (th t) q \<longleftrightarrow> q = p" for q using assms(3) by (auto simp: p_def)
    have T: "distinct (map fst tk)" "\<forall>x\<in>set tk. fst x < D \<and> snd x = cl ! fst x"
      "\<forall>p<D. p \<in> fst ` set tk \<or> (\<exists>t. to_read (th t) p)" "\<forall>t p. to_read (th t) p \<longrightarrow> p \<notin> fst ` set tk"
      using I(7) unfolding takes_ok_def by blast+
    have fs: "fst ` set (tk @ [(p, d)]) = insert p (fst ` set tk)" by simp
    have "p \<notin> fst ` set tk" using T(4) r(2) by blast
    then have "distinct (map fst (tk @ [(p, d)]))" using T(1) by simp
    moreover have "\<forall>x\<in>set (tk @ [(p, d)]). fst x < D \<and> snd x = cl ! fst x" using T(2) own by simp
    moreover have "\<forall>q<D. q \<in> insert p (fst ` set tk) \<or> (\<exists>u. u \<noteq> t \<and> to_read (th u) q)"
    proof (intro allI impI)
      fix q assume "q < D"
      then consider "q \<in> fst ` set tk" | u where "to_read (th u) q" using T(3) by blast
      then show "q \<in> insert p (fst ` set tk) \<or> (\<exists>u. u \<noteq> t \<and> to_read (th u) q)"
      proof cases
        case (2 u)
        then show ?thesis using tp [of q] by (cases "u = t") auto
      qed simp
    qed
    moreover have "\<forall>u q. u \<noteq> t \<and> to_read (th u) q \<longrightarrow> q \<notin> insert p (fst ` set tk)"
      using T(4) other by (metis insertE)
    ultimately show ?thesis unfolding takes_ok_def tr fs by (intro conjI)
  qed
  ultimately show ?thesis using I(1,2) unfolding mpmc_inv_def p_def d_def by blast
qed

lemma inv_store_D:
  assumes "mpmc_inv N E D sq dat th cl tk" "2 \<le> N" "th t = D_store pos v"
  shows "mpmc_inv N E D (sq(unat pos mod N := unat pos + N)) dat (th(t := D_done (Some v))) cl tk"
proof -
  note I = invD [OF assms(1)]
  define p where "p = unat pos"
  have r: "reads (th t) p" using assms(3) by (simp add: p_def)
  have own: "p < D" "sq (p mod N) = Suc p" using I(4) [of t] assms(3) by (auto simp: p_def)
  have pN: "p mod N < N" using assms(2) by simp
  have fc: "full_cell N E D th cl (p mod N) (Suc p) (dat (p mod N))"
    using I(3) [OF pN] not_empty_at [OF assms(2), of E D th p "sq (p mod N)"] own(2) by auto
  have cells: "cells_ok N E D (sq(p mod N := p + N)) dat (th(t := D_done (Some v))) cl"
    unfolding cells_ok_def
  proof (intro allI impI)
    fix i assume i: "i < N"
    show "empty_cell N E D (th(t := D_done (Some v))) i ((sq(p mod N := p + N)) i) \<or>
        full_cell N E D (th(t := D_done (Some v))) cl i ((sq(p mod N := p + N)) i) (dat i)"
    proof (cases "i = p mod N")
      case True
      then show ?thesis using fc own I(1) by (simp add: full_cell_def empty_cell_def)
    next
      case False
      have "\<exists>u. writes ((th(t := D_done (Some v))) u) s" if "writes (th u) s" for u s
        using that assms(3) by (intro exI [of _ u]) auto
      moreover have "\<exists>u. reads ((th(t := D_done (Some v))) u) q" if "q mod N = i" "reads (th u) q" for u q
        using that False assms(3) by (intro exI [of _ u]) (auto simp: p_def)
      ultimately have "empty_cell N E D (th(t := D_done (Some v))) i (sq i) \<or> full_cell N E D (th(t := D_done (Some v))) cl i (sq i) (dat i)"
        using I(3) [OF i] unfolding empty_cell_def full_cell_def by metis
      then show ?thesis using False by simp
    qed
  qed
  have "pc_ok N E D (sq(p mod N := p + N)) dat cl ((th(t := D_done (Some v))) u)" for u
  proof (cases "u = t")
    case False
    have "E mod N = p mod N \<Longrightarrow> sq (p mod N) \<noteq> E" using own(2) Suc_mod_neq [OF assms(2), of p] by auto
    then show ?thesis
      using pc_ok_sq [OF I(4), of u "p mod N" "p + N"] only_reader [OF assms(1,2) r False] own False by simp
  qed simp
  moreover have "alone (th(t := D_done (Some v)))" by (rule alone_upd [OF I(8)]) simp_all
  moreover have "takes_ok D (th(t := D_done (Some v))) cl tk" by (rule takes_frame [OF I(7)]) (simp add: assms(3))
  ultimately show ?thesis using I(1,2) cells unfolding mpmc_inv_def p_def by blast
qed

subsection \<open>The invariant of the system\<close>

definition sqs :: "'a MPMCQueue \<Rightarrow> nat \<Rightarrow> nat" where
  "sqs q i = unat (cell_sequence (mq_buffer q ! i))"

definition dats :: "'a MPMCQueue \<Rightarrow> nat \<Rightarrow> 'a" where
  "dats q i = cell_data (mq_buffer q ! i)"

definition shape :: "nat \<Rightarrow> 'a MPMCQueue \<Rightarrow> bool" where
  "shape k q \<longleftrightarrow> mq_mask q = 2 ^ k - 1 \<and> length (mq_buffer q) = 2 ^ k \<and> 1 \<le> k \<and> k \<le> 62"

definition sys_inv :: "nat \<Rightarrow> nat \<Rightarrow> 'a mpmc_sys \<Rightarrow> bool" where
  "sys_inv k n s \<longleftrightarrow> shape k (mq s) \<and> unat (enqueue_pos (mq s)) \<le> n \<and>
     mpmc_inv (2 ^ k) (unat (enqueue_pos (mq s))) (unat (dequeue_pos (mq s))) (sqs (mq s)) (dats (mq s)) (threads s) (claimed s) (taken s)"

lemma shape_index:
  assumes "shape k q"
  shows "cell_index q pos = unat pos mod 2 ^ k" "cell_index q pos < length (mq_buffer q)"
  using assms unat_mask_pow2 [of pos k] by (simp_all add: cell_index_def shape_def mask_eq_minus_1)

lemma store_simps:
  assumes "shape k q"
  shows "shape k (store_sequence pos w q)" "shape k (store_data pos v q)"
    "sqs (store_sequence pos w q) = (sqs q)(unat pos mod 2 ^ k := unat w)" "dats (store_sequence pos w q) = dats q"
    "sqs (store_data pos v q) = sqs q" "dats (store_data pos v q) = (dats q)(unat pos mod 2 ^ k := v)"
    "enqueue_pos (store_sequence pos w q) = enqueue_pos q" "dequeue_pos (store_sequence pos w q) = dequeue_pos q"
    "enqueue_pos (store_data pos v q) = enqueue_pos q" "dequeue_pos (store_data pos v q) = dequeue_pos q"
  using assms shape_index [OF assms, of pos]
  by (auto simp: shape_def store_sequence_def store_data_def sqs_def dats_def fun_eq_iff nth_list_update)

lemma load_simps: "shape k q \<Longrightarrow> unat (load_sequence q pos) = sqs q (unat pos mod 2 ^ k)"
  by (simp add: load_sequence_def sqs_def shape_index)

lemma small_word:
  assumes "unat (w :: u64) < 2 ^ 62" "k \<le> 62"
  shows "unat (w + 1) = Suc (unat w)" "unat (w + (2 ^ k - 1) + 1) = unat w + 2 ^ k"
proof -
  show "unat (w + 1) = Suc (unat w)" using assms(1) by (intro unat_Suc_u64) simp
  have "(2 :: nat) ^ k \<le> 2 ^ 62" using assms(2) by (intro power_increasing) simp_all
  then have "unat (of_nat (unat w + 2 ^ k) :: u64) = unat w + 2 ^ k"
    using assms(1) by (intro unat_of_nat_u64) simp
  then show "unat (w + (2 ^ k - 1) + 1) = unat w + 2 ^ k" by (simp add: algebra_simps)
qed

lemma sint_zero: "sint (x :: u64) = 0 \<longleftrightarrow> x = 0"
proof
  assume "sint x = 0"
  then have "of_int (sint x) = (0 :: u64)" by (simp only: of_int_0)
  then show "x = 0" by simp
qed simp

lemma run_access:
  assumes "sys_inv k n s" "n < 2 ^ 62" "mpmc_step (Run t weak) s = Some s'"
  shows "sys_inv k (Suc n) s'"
proof -
  define q where "q = mq s"
  have sh: "shape k q" and En: "unat (enqueue_pos q) \<le> n"
    and inv: "mpmc_inv (2 ^ k) (unat (enqueue_pos q)) (unat (dequeue_pos q)) (sqs q) (dats q) (threads s) (claimed s) (taken s)"
    using assms(1) by (auto simp: sys_inv_def q_def)
  have k: "k \<le> 62" "(2 :: nat) \<le> 2 ^ k" using sh self_le_power [of 2 k] by (auto simp: shape_def)
  note I = invD [OF inv]
  have Dn: "unat (dequeue_pos q) < 2 ^ 62" "unat (enqueue_pos q) < 2 ^ 62" using I(1) En assms(2) by linarith+
  have small: "unat pos < 2 ^ 62" if "unat pos \<le> unat (enqueue_pos q)" for pos :: u64 using that Dn(2) by linarith
  note S = store_simps [OF sh]
  have ok: "pc_ok (2 ^ k) (unat (enqueue_pos q)) (unat (dequeue_pos q)) (sqs q) (dats q) (claimed s) (threads s t)" by (rule I(4))
  note L = inv_local [OF inv, where t = t]
  have sq0: "sint (load_sequence q pos - w) = 0 \<longleftrightarrow> sqs q (unat pos mod 2 ^ k) = unat w" for pos w
  proof -
    have "sint (load_sequence q pos - w) = 0 \<longleftrightarrow> load_sequence q pos = w" unfolding sint_zero by simp
    then show ?thesis unfolding load_simps [OF sh, symmetric] by (simp add: word_unat_eq_iff)
  qed
  have s': "s' = s\<lparr>mq := snd (mpmc_access weak (threads s t) q), threads := (threads s)(t := fst (mpmc_access weak (threads s t) q)),
      claimed := note_claim (threads s t) (fst (mpmc_access weak (threads s t) q)) (claimed s),
      taken := note_take (threads s t) (fst (mpmc_access weak (threads s t) q)) (taken s)\<rparr>"
    using assms(3) by (simp add: Let_def q_def)
  show ?thesis
  proof (cases "threads s t")
    case Idle
    then show ?thesis using sh En inv by (simp add: s' sys_inv_def note_claim_def note_take_def fun_upd_idem)
  next
    case (E_load v)
    then show ?thesis using sh En L by (simp add: s' sys_inv_def note_claim_def note_take_def)
  next
    case (E_seq v pos)
    then show ?thesis using sh En L ok by (simp add: s' sys_inv_def note_claim_def note_take_def Let_def sq0)
  next
    case (E_cas v pos)
    have up: "unat (enqueue_pos q + 1) = Suc (unat (enqueue_pos q))" by (rule small_word(1) [OF Dn(2) k(1)])
    show ?thesis
    proof (cases "enqueue_pos q = pos \<and> \<not> weak")
      case True
      then show ?thesis using E_cas sh En up inv_claim_E [OF inv k(2) E_cas]
        by (simp add: s' sys_inv_def note_claim_def note_take_def shape_def sqs_def [abs_def] dats_def [abs_def])
    next
      case False
      then show ?thesis using E_cas sh En L by (auto simp: s' sys_inv_def note_claim_def note_take_def)
    qed
  next
    case (E_write v pos)
    then show ?thesis using En inv_write [OF inv k(2) E_write] by (simp add: s' sys_inv_def note_claim_def note_take_def S)
  next
    case (E_store pos)
    then have "unat (pos + 1) = Suc (unat pos)" using ok small_word(1) [OF small k(1)] by simp
    then show ?thesis
      using E_store En inv_store_E [OF inv k(2) E_store] by (simp add: s' sys_inv_def note_claim_def note_take_def S)
  next
    case (E_done b)
    then show ?thesis using sh En inv by (simp add: s' sys_inv_def note_claim_def note_take_def fun_upd_idem)
  next
    case D_load
    then show ?thesis using sh En L by (simp add: s' sys_inv_def note_claim_def note_take_def)
  next
    case (D_seq pos)
    then have "unat (pos + 1) = Suc (unat pos)" using ok small_word(1) [OF small k(1)] I(1) by simp
    then show ?thesis using D_seq sh En L ok by (simp add: s' sys_inv_def note_claim_def note_take_def Let_def sq0)
  next
    case (D_cas pos)
    have up: "unat (dequeue_pos q + 1) = Suc (unat (dequeue_pos q))" by (rule small_word(1) [OF Dn(1) k(1)])
    show ?thesis
    proof (cases "dequeue_pos q = pos \<and> \<not> weak")
      case True
      then show ?thesis using D_cas sh En up inv_claim_D [OF inv k(2) D_cas]
        by (simp add: s' sys_inv_def note_claim_def note_take_def shape_def sqs_def [abs_def] dats_def [abs_def])
    next
      case False
      then show ?thesis using D_cas sh En L by (auto simp: s' sys_inv_def note_claim_def note_take_def)
    qed
  next
    case (D_read pos)
    have "cell_data (mq_buffer q ! cell_index q pos) = dats q (unat pos mod 2 ^ k)" by (simp add: dats_def shape_index [OF sh])
    then show ?thesis using D_read sh En inv_read [OF inv k(2) D_read] by (simp add: s' sys_inv_def note_claim_def note_take_def)
  next
    case (D_store pos v)
    then have "unat pos < 2 ^ 62" using ok Dn by simp
    then have "unat (pos + mq_mask q + 1) = unat pos + 2 ^ k" using small_word(2) [OF _ k(1), of pos] sh by (simp add: shape_def)
    then show ?thesis
      using D_store En inv_store_D [OF inv k(2) D_store] by (simp add: s' sys_inv_def note_claim_def note_take_def S)
  next
    case (D_done r)
    then show ?thesis using sh En inv by (simp add: s' sys_inv_def note_claim_def note_take_def fun_upd_idem)
  qed
qed

lemma at_rest_free: "at_rest pc \<Longrightarrow> \<not> writes pc p \<and> \<not> reads pc p \<and> \<not> to_read pc p"
  by (cases pc) (auto simp: at_rest_def)

lemma sys_step:
  assumes "sys_inv k n s" "n < 2 ^ 62" "mpmc_step e s = Some s'"
  shows "sys_inv k (Suc n) s'"
proof (cases e)
  case (Call_push t v)
  then have r: "at_rest (threads s t)" and s': "s' = s\<lparr>threads := (threads s)(t := E_load v)\<rparr>"
    using assms(3) by (auto split: if_splits)
  show ?thesis using assms(1) inv_local [where th = "threads s" and t = t and pc = "E_load v"] at_rest_free [OF r] by (simp add: s' sys_inv_def)
next
  case (Call_pop t)
  then have r: "at_rest (threads s t)" and s': "s' = s\<lparr>threads := (threads s)(t := D_load)\<rparr>"
    using assms(3) by (auto split: if_splits)
  show ?thesis using assms(1) inv_local [where th = "threads s" and t = t and pc = D_load] at_rest_free [OF r] by (simp add: s' sys_inv_def)
next
  case (Run t weak)
  then show ?thesis using run_access [OF assms(1,2)] assms(3) by blast
qed

lemma sys_run:
  assumes "sys_inv k n s" "n + length es \<le> 2 ^ 62" "mpmc_run es s = Some s'"
  shows "sys_inv k (n + length es) s'"
  using assms
proof (induction es arbitrary: n s)
  case Nil
  then show ?case by simp
next
  case (Cons e es)
  then obtain s1 where s1: "mpmc_step e s = Some s1" "mpmc_run es s1 = Some s'" by (auto split: option.splits)
  have "sys_inv k (Suc n) s1" using sys_step [OF Cons.prems(1) _ s1(1)] Cons.prems(2) by simp
  then show ?case using Cons.IH [of "Suc n" s1] s1(2) Cons.prems(2) by simp
qed

lemma sys_start:
  assumes "cap \<le> 2 ^ 62"
  shows "\<exists>k. sys_inv k 0 (mpmc_start d cap) \<and> unat (round_up_pow2 cap) = 2 ^ k"
proof -
  have "cap \<le> 2 ^ 63" using assms by (simp add: word_le_nat_alt)
  then obtain k where k: "1 \<le> k" "k \<le> 63" "round_up_pow2 cap = 2 ^ k" "unat cap \<le> 2 ^ k" "2 \<le> cap \<longrightarrow> 2 ^ k < 2 * unat cap"
    using round_up_pow2_least by blast
  have uc: "unat cap \<le> 2 ^ 62" using assms by (simp add: word_le_nat_alt)
  have le: "(2 :: nat) ^ k \<le> 2 ^ 63" using k(2) by (intro power_increasing) simp_all
  have uk: "unat ((2 :: u64) ^ k) = 2 ^ k" using unat_of_nat_u64 [of "2 ^ k"] le by simp
  have "k \<le> 62"
  proof (cases "2 \<le> cap")
    case True
    then have "(2 :: nat) ^ k < 2 ^ 63" using k(5) uc by simp
    then have "k < 63" by (rule power_less_imp_less_exp [rotated]) simp
    then show ?thesis by simp
  next
    case False
    then have "round_up_pow2 cap = 2" unfolding not_le by (simp only: round_up_pow2_def if_True)
    then have "(2 :: u64) ^ k = 2 ^ 1" using k(3) by simp
    then have "unat ((2 :: u64) ^ k) = 2" by simp
    then have "(2 :: nat) ^ k = 2 ^ 1" unfolding uk by simp
    then have "k = 1" by (simp only: power_inject_exp)
    then show ?thesis by simp
  qed
  have seq: "unat (of_nat i :: u64) = i" if "i < 2 ^ k" for i
    using that le by (intro unat_of_nat_u64) simp
  have cells: "sqs (mpmc_init d cap) i = i" if "i < 2 ^ k" for i
    using that seq [OF that] by (simp add: sqs_def mpmc_init_def Let_def k(3) uk)
  have "cells_ok (2 ^ k) 0 0 (sqs (mpmc_init d cap)) (dats (mpmc_init d cap)) (\<lambda>_. Idle) []"
    using cells by (simp add: cells_ok_def empty_cell_def)
  then have "mpmc_inv (2 ^ k) 0 0 (sqs (mpmc_init d cap)) (dats (mpmc_init d cap)) (\<lambda>_. Idle) [] []"
    by (simp add: mpmc_inv_def alone_def takes_ok_def)
  then have "sys_inv k 0 (mpmc_start d cap)"
    using k(1,3) \<open>k \<le> 62\<close> uk by (simp add: sys_inv_def mpmc_start_def shape_def) (simp add: mpmc_init_def Let_def uk)
  then show ?thesis using uk unfolding k(3) by blast
qed

lemma mod_gap:
  assumes "a mod N = b mod (N :: nat)" "a < b"
  shows "a + N \<le> b"
proof -
  have "N dvd b - a" using assms by (metis mod_eq_dvd_iff_nat less_imp_le)
  then have "N \<le> b - a" using assms(2) by (intro dvd_imp_le) simp_all
  then show ?thesis using assms(2) by simp
qed

text \<open>When nobody is at work the cells between the two positions are full and hold the values claimed there.\<close>

lemma quiet_cell:
  assumes "mpmc_inv N E D sq dat th cl tk" "2 \<le> N" "\<And>t. at_rest (th t)" "D \<le> p" "p < E"
  shows "dat (p mod N) = cl ! p" "sq (p mod N) = Suc p"
proof -
  have i: "p mod N < N" using assms(2) by simp
  have free: "\<not> writes (th t) r" "\<not> reads (th t) r" for t r using at_rest_free [OF assms(3)] by blast+
  have "dat (p mod N) = cl ! p \<and> sq (p mod N) = Suc p"
    using invD(3) [OF assms(1) i]
  proof
    assume "empty_cell N E D th (p mod N) (sq (p mod N))"
    then have "sq (p mod N) mod N = p mod N" "sq (p mod N) < D + N" "E \<le> sq (p mod N)"
      using free unfolding empty_cell_def by (auto simp: not_less [symmetric])
    moreover then have "p + N \<le> sq (p mod N)" using assms(5) by (intro mod_gap) simp_all
    ultimately show ?thesis using assms(4) by linarith
  next
    assume "full_cell N E D th cl (p mod N) (sq (p mod N)) (dat (p mod N))"
    then obtain r where r: "r mod N = p mod N" "r < D + N" "E \<le> r + N" "dat (p mod N) = cl ! r" "D \<le> r" "sq (p mod N) = Suc r"
      using free unfolding full_cell_def by (metis not_less)
    have "\<not> r < p" using mod_gap [OF r(1)] r(3) assms(5) by linarith
    moreover have "\<not> p < r" using mod_gap [OF r(1) [symmetric]] r(2) assms(4) by linarith
    ultimately show ?thesis using r(4,6) by simp
  qed
  then show "dat (p mod N) = cl ! p" "sq (p mod N) = Suc p" by simp_all
qed

lemma quiet_bound:
  assumes "mpmc_inv N E D sq dat th cl tk" "2 \<le> N" "\<And>t. at_rest (th t)"
  shows "E \<le> D + N"
proof (rule ccontr)
  assume "\<not> E \<le> D + N"
  then have "sq (D mod N) = Suc D" "sq ((D + N) mod N) = Suc (D + N)"
    using quiet_cell(2) [OF assms, of D] quiet_cell(2) [OF assms, of "D + N"] by simp_all
  then show False using assms(2) by simp
qed

lemma quiet_next:
  assumes "mpmc_inv N E D sq dat th cl tk" "2 \<le> N" "\<And>t. at_rest (th t)" "E < D + N"
  shows "sq (E mod N) = E"
proof -
  have i: "E mod N < N" using assms(2) by simp
  have free: "\<not> writes (th t) r" "\<not> reads (th t) r" for t r using at_rest_free [OF assms(3)] by blast+
  show ?thesis
    using invD(3) [OF assms(1) i]
  proof
    assume e: "empty_cell N E D th (E mod N) (sq (E mod N))"
    then have "sq (E mod N) mod N = E mod N" "sq (E mod N) < D + N" "E \<le> sq (E mod N)"
      using free unfolding empty_cell_def by (auto simp: not_less [symmetric])
    then show ?thesis using mod_gap [of E N "sq (E mod N)"] invD(1) [OF assms(1)] by (cases "E = sq (E mod N)") auto
  next
    assume "full_cell N E D th cl (E mod N) (sq (E mod N)) (dat (E mod N))"
    then obtain r where "r mod N = E mod N" "r < E" "D \<le> r"
      using free unfolding full_cell_def by (metis not_less)
    then show ?thesis using mod_gap [of r N E] assms(4) by simp
  qed
qed

definition queue_contents :: "'a MPMCQueue \<Rightarrow> 'a list" where
  "queue_contents q = map (\<lambda>p. cell_data (mq_buffer q ! (p mod length (mq_buffer q)))) [unat (dequeue_pos q)..<unat (enqueue_pos q)]"

lemma quiet_contents:
  assumes "sys_inv k n s" "\<And>t. at_rest (threads s t)"
  shows "queue_contents (mq s) = drop (unat (dequeue_pos (mq s))) (claimed s)"
proof -
  have sh: "shape k (mq s)"
    and inv: "mpmc_inv (2 ^ k) (unat (enqueue_pos (mq s))) (unat (dequeue_pos (mq s))) (sqs (mq s)) (dats (mq s)) (threads s) (claimed s) (taken s)"
    using assms(1) by (auto simp: sys_inv_def)
  have "(2 :: nat) \<le> 2 ^ k" using sh self_le_power [of 2 k] by (auto simp: shape_def)
  then show ?thesis
    using quiet_cell(1) [OF inv _ assms(2)] invD(2) [OF inv] sh
    by (intro nth_equalityI) (simp_all add: queue_contents_def shape_def dats_def)
qed

text \<open>
  C2: for any number of producers and consumers and any interleaving of their accesses, no position is
  read twice and what is read at a position is the value whose push claimed it. When no operation is
  in progress, exactly the positions below \<open>dequeue_pos_\<close> have been read and the cells from there to
  \<open>enqueue_pos_\<close> hold the remaining values in the order of the claims: nothing is lost or doubled.
\<close>

theorem mpmc_exactly_once:
  assumes "mpmc_run es (mpmc_start d cap) = Some s" "length es \<le> 2 ^ 62" "cap \<le> 2 ^ 62"
  shows "distinct (map fst (taken s)) \<and> (\<forall>x\<in>set (taken s). fst x < length (claimed s) \<and> snd x = claimed s ! fst x) \<and>
    ((\<forall>t. at_rest (threads s t)) \<longrightarrow>
       fst ` set (taken s) = {0..<unat (dequeue_pos (mq s))} \<and>
       queue_contents (mq s) = drop (unat (dequeue_pos (mq s))) (claimed s))"
proof -
  obtain k where si: "sys_inv k (0 + length es) s"
    using sys_start [OF assms(3), of d] sys_run [OF _ _ assms(1), of _ 0] assms(2) by auto
  then have inv: "mpmc_inv (2 ^ k) (unat (enqueue_pos (mq s))) (unat (dequeue_pos (mq s))) (sqs (mq s)) (dats (mq s)) (threads s) (claimed s) (taken s)"
    by (auto simp: sys_inv_def)
  note I = invD [OF inv]
  have T: "distinct (map fst (taken s))" "\<forall>x\<in>set (taken s). fst x < unat (dequeue_pos (mq s)) \<and> snd x = claimed s ! fst x"
    "\<forall>p<unat (dequeue_pos (mq s)). p \<in> fst ` set (taken s) \<or> (\<exists>t. to_read (threads s t) p)"
    using I(7) unfolding takes_ok_def by blast+
  have quiet: "fst ` set (taken s) = {0..<unat (dequeue_pos (mq s))}" "queue_contents (mq s) = drop (unat (dequeue_pos (mq s))) (claimed s)"
    if rest: "\<forall>t. at_rest (threads s t)"
  proof -
    have "\<not> to_read (threads s t) p" for t p using at_rest_free rest by blast
    then show "fst ` set (taken s) = {0..<unat (dequeue_pos (mq s))}" using T(2,3) by force
    show "queue_contents (mq s) = drop (unat (dequeue_pos (mq s))) (claimed s)"
      using quiet_contents [OF si] rest by blast
  qed
  have "\<forall>x\<in>set (taken s). fst x < length (claimed s) \<and> snd x = claimed s ! fst x"
    using T(2) I(1,2) by fastforce
  then show ?thesis using T(1) quiet by blast
qed

lemma round_two: "round_up_pow2 2 = 2"
  by (simp add: round_up_pow2_def Let_def)

lemma start_two:
  "mpmc_start d 2 = \<lparr>mq = \<lparr>mq_capacity = 2, mq_mask = 1,
     mq_buffer = [\<lparr>cell_sequence = 0, cell_data = d\<rparr>, \<lparr>cell_sequence = 1, cell_data = d\<rparr>], enqueue_pos = 0, dequeue_pos = 0\<rparr>,
     threads = (\<lambda>_. Idle), claimed = [], taken = []\<rparr>"
  by (simp add: mpmc_start_def mpmc_init_def round_two upt_rec)
lemmas mpmc_eval = load_sequence_def store_sequence_def store_data_def cell_index_def note_claim_def note_take_def at_rest_def Let_def

definition two_producers :: "nat mpmc_event list" where
  "two_producers = [Call_push 0 7, Call_push 1 8, Run 0 False, Run 1 False, Run 0 False, Run 1 False, Run 1 False, Run 0 False,
     Run 1 False, Run 1 False, Run 0 False, Run 0 False, Run 0 False, Run 0 False]"

lemma two_producers_run:
  "mpmc_run two_producers (mpmc_start 0 2) = Some
    \<lparr>mq = \<lparr>mq_capacity = 2, mq_mask = 1,
     mq_buffer = [\<lparr>cell_sequence = 1, cell_data = 8\<rparr>, \<lparr>cell_sequence = 2, cell_data = 7\<rparr>], enqueue_pos = 2, dequeue_pos = 0\<rparr>,
     threads = (\<lambda>_. Idle)(1 := E_done True, 0 := E_done True), claimed = [8, 7], taken = []\<rparr>"
  unfolding two_producers_def start_two by (simp add: mpmc_eval)
lemma mpmc_run_append: "mpmc_run (a @ b) s = (case mpmc_run a s of None \<Rightarrow> None | Some s' \<Rightarrow> mpmc_run b s')"
  by (induction a arbitrary: s) (simp_all split: option.split)

theorem mpmc_exactly_once_witness:
  "case mpmc_run (two_producers @ [Call_pop 2, Run 2 False, Run 2 False, Run 2 False, Run 2 False, Run 2 False]) (mpmc_start 0 2) of
     None \<Rightarrow> False
   | Some s \<Rightarrow> taken s = [(0, 8)] \<and> claimed s = [8, 7] \<and> queue_contents (mq s) = [7]"
proof -
  define es where "es = two_producers @ [Call_pop 2, Run 2 False, Run 2 False, Run 2 False, Run 2 False, Run 2 False]"
  obtain s where r: "mpmc_run es (mpmc_start 0 2) = Some s" and t: "taken s = [(0, 8)]" "claimed s = [8, 7]"
    "\<forall>t. at_rest (threads s t)" "unat (dequeue_pos (mq s)) = 1"
    by (simp add: es_def mpmc_run_append two_producers_run mpmc_eval)
  have "length es \<le> 2 ^ 62" by (simp add: es_def two_producers_def)
  then show ?thesis
    using mpmc_exactly_once [OF r] t unfolding es_def [symmetric] by (simp add: r)
qed

subsection \<open>Operations without interference\<close>

lemma sint_negative:
  assumes "0 < m" "m < 2 ^ 63"
  shows "sint (- of_nat m :: u64) < 0"
proof -
  have "(- of_nat m :: u64) = of_int (- int m)" by simp
  then have "sint (- of_nat m :: u64) = signed_take_bit (LENGTH(64) - 1) (- int m)"
    by (simp only: signed_of_int of_int_eq_id id_apply One_nat_def)
  also have "\<dots> = - int m" using assms by (intro signed_take_bit_int_eq_self) simp_all
  finally show ?thesis using assms(1) by simp
qed

text \<open>The words that a thread alone meets in the two operations.\<close>

lemma solo_sequences:
  assumes "sys_inv k n s" "n < 2 ^ 62" "\<And>t. at_rest (threads s t)"
  defines "q \<equiv> mq s"
  defines "len \<equiv> length (queue_contents q)"
  shows "len \<le> 2 ^ k" "len < 2 ^ k \<Longrightarrow> load_sequence q (enqueue_pos q) = enqueue_pos q"
    "len = 2 ^ k \<Longrightarrow> sint (load_sequence q (enqueue_pos q) - enqueue_pos q) < 0"
    "0 < len \<Longrightarrow> load_sequence q (dequeue_pos q) = dequeue_pos q + 1"
    "len = 0 \<Longrightarrow> load_sequence q (dequeue_pos q) = dequeue_pos q"
proof -
  define E D where "E = unat (enqueue_pos q)" "D = unat (dequeue_pos q)"
  have sh: "shape k q" and En: "E \<le> n"
    and inv: "mpmc_inv (2 ^ k) E D (sqs q) (dats q) (threads s) (claimed s) (taken s)"
    using assms(1) by (auto simp: sys_inv_def q_def E_D_def)
  have k: "k \<le> 62" "(2 :: nat) \<le> 2 ^ k" using sh self_le_power [of 2 k] by (auto simp: shape_def)
  have kb: "(2 :: nat) ^ k \<le> 2 ^ 62" using k(1) by (intro power_increasing) simp_all
  have DE: "D \<le> E" "E < 2 ^ 62" using invD(1) [OF inv] En assms(2) by linarith+
  have len: "len = E - D" by (simp add: len_def queue_contents_def E_D_def)
  have bound: "E \<le> D + 2 ^ k" by (rule quiet_bound [OF inv k(2) assms(3)])
  then show "len \<le> 2 ^ k" unfolding len by simp
  have eq: "load_sequence q pos = w \<longleftrightarrow> sqs q (unat pos mod 2 ^ k) = unat w" for pos w
    using load_simps [OF sh, of pos] by (simp add: word_unat_eq_iff)
  show "load_sequence q (enqueue_pos q) = enqueue_pos q" if "len < 2 ^ k"
    using quiet_next [OF inv k(2) assms(3)] that DE(1) unfolding eq E_D_def [symmetric] len by simp
  have dq: "unat (dequeue_pos q + 1) = Suc D" unfolding E_D_def by (rule small_word(1) [OF _ k(1)]) (use DE in \<open>simp add: E_D_def\<close>)
  show full: "load_sequence q (dequeue_pos q) = dequeue_pos q + 1" if "0 < len"
    using quiet_cell(2) [OF inv k(2) assms(3), of D] that unfolding eq dq E_D_def [symmetric] len by simp
  show "load_sequence q (dequeue_pos q) = dequeue_pos q" if "len = 0"
  proof -
    have "E = D" using that DE(1) by (simp add: len)
    then show ?thesis using quiet_next [OF inv k(2) assms(3)] k(2) unfolding eq E_D_def [symmetric] by simp
  qed
  show "sint (load_sequence q (enqueue_pos q) - enqueue_pos q) < 0" if "len = 2 ^ k"
  proof -
    have ED: "E = D + 2 ^ k" using that DE(1) by (simp add: len)
    have "unat (load_sequence q (enqueue_pos q)) = Suc D"
      using quiet_cell(2) [OF inv k(2) assms(3), of D] load_simps [OF sh, of "enqueue_pos q"] ED k(2)
      by (simp add: E_D_def [symmetric])
    then have "of_nat (unat (load_sequence q (enqueue_pos q))) = (of_nat (Suc D) :: u64)" by (simp only:)
    then have "load_sequence q (enqueue_pos q) = of_nat (Suc D)" by simp
    moreover have "enqueue_pos q = of_nat E" by (simp add: E_D_def)
    then have "enqueue_pos q = of_nat (D + 2 ^ k)" unfolding ED .
    ultimately have "load_sequence q (enqueue_pos q) - enqueue_pos q = - of_nat (2 ^ k - 1)" using k(2) by (simp add: of_nat_diff)
    then show ?thesis using sint_negative [of "2 ^ k - 1"] k(2) kb by simp
  qed
qed

definition solo_push :: "nat \<Rightarrow> 'a \<Rightarrow> 'a mpmc_sys \<Rightarrow> 'a mpmc_sys option" where
  "solo_push t v s = mpmc_run [Call_push t v, Run t False, Run t False, Run t False, Run t False, Run t False] s"

definition solo_pop :: "nat \<Rightarrow> 'a mpmc_sys \<Rightarrow> 'a mpmc_sys option" where
  "solo_pop t s = mpmc_run [Call_pop t, Run t False, Run t False, Run t False, Run t False, Run t False] s"

lemma solo_push_full:
  assumes "sint (load_sequence (mq s) (enqueue_pos (mq s)) - enqueue_pos (mq s)) < 0" "at_rest (threads s t)"
  shows "solo_push t v s = Some (s\<lparr>threads := (threads s)(t := E_done False)\<rparr>)"
  using assms by (simp add: solo_push_def Let_def note_claim_def note_take_def)

lemma solo_push_free:
  assumes "load_sequence (mq s) (enqueue_pos (mq s)) = enqueue_pos (mq s)" "at_rest (threads s t)"
  shows "\<exists>s'. solo_push t v s = Some s' \<and> threads s' = (threads s)(t := E_done True) \<and> claimed s' = claimed s @ [v] \<and>
    dequeue_pos (mq s') = dequeue_pos (mq s)"
  using assms by (simp add: solo_push_def Let_def note_claim_def note_take_def store_data_def store_sequence_def)

lemma solo_pop_empty:
  assumes "load_sequence (mq s) (dequeue_pos (mq s)) = dequeue_pos (mq s)" "at_rest (threads s t)"
  shows "solo_pop t s = Some (s\<lparr>threads := (threads s)(t := D_done None)\<rparr>)"
  using assms by (simp add: solo_pop_def Let_def note_claim_def note_take_def)

lemma solo_pop_some:
  assumes "load_sequence (mq s) (dequeue_pos (mq s)) = dequeue_pos (mq s) + 1" "at_rest (threads s t)"
  shows "\<exists>s'. solo_pop t s = Some s' \<and> claimed s' = claimed s \<and> dequeue_pos (mq s') = dequeue_pos (mq s) + 1 \<and>
    threads s' = (threads s)(t := D_done (Some (cell_data (mq_buffer (mq s) ! cell_index (mq s) (dequeue_pos (mq s))))))"
  using assms by (simp add: solo_pop_def Let_def note_claim_def note_take_def store_sequence_def cell_index_def)

text \<open>
  C27: an operation that runs without interference terminates and is that of a bounded queue: a push
  succeeds and appends exactly while fewer values are queued than the capacity rounded up, a pop
  removes the oldest value exactly when there is one, and a refused operation changes nothing.
\<close>

theorem mpmc_solo:
  assumes "mpmc_run es (mpmc_start d cap) = Some s" "length es < 2 ^ 61" "cap \<le> 2 ^ 62" "\<forall>t. at_rest (threads s t)"
  shows "(\<exists>s'. solo_push t v s = Some s' \<and>
      (if length (queue_contents (mq s)) < unat (round_up_pow2 cap)
       then threads s' t = E_done True \<and> queue_contents (mq s') = queue_contents (mq s) @ [v]
       else threads s' t = E_done False \<and> mq s' = mq s)) \<and>
    (\<exists>s'. solo_pop t s = Some s' \<and>
      (case queue_contents (mq s) of [] \<Rightarrow> threads s' t = D_done None \<and> mq s' = mq s
       | x # xs \<Rightarrow> threads s' t = D_done (Some x) \<and> queue_contents (mq s') = xs))"
proof -
  obtain k where si: "sys_inv k (length es) s" and cap: "unat (round_up_pow2 cap) = 2 ^ k"
    using sys_start [OF assms(3), of d] sys_run [OF _ _ assms(1), of _ 0] assms(2) by auto
  have rest: "at_rest (threads s u)" for u using assms(4) by blast
  have n: "length es < 2 ^ 62" "length es + 6 \<le> 2 ^ 62" using assms(2) by simp_all
  note S = solo_sequences [OF si n(1) rest]
  note qc = quiet_contents [OF si rest]
  have after: "sys_inv k (length es + length xs) s'" if "mpmc_run xs s = Some s'" "length xs = 6" for xs s'
    using sys_run [OF si _ that(1)] n(2) that(2) by simp
  have inv: "mpmc_inv (2 ^ k) (unat (enqueue_pos (mq s))) (unat (dequeue_pos (mq s))) (sqs (mq s)) (dats (mq s)) (threads s) (claimed s) (taken s)"
    and sh: "shape k (mq s)" using si by (auto simp: sys_inv_def)
  have k2: "(2 :: nat) \<le> 2 ^ k" using sh self_le_power [of 2 k] by (auto simp: shape_def)
  note I = invD(1,2) [OF inv]
  have push: "\<exists>s'. solo_push t v s = Some s' \<and>
      (if length (queue_contents (mq s)) < unat (round_up_pow2 cap)
       then threads s' t = E_done True \<and> queue_contents (mq s') = queue_contents (mq s) @ [v]
       else threads s' t = E_done False \<and> mq s' = mq s)"
  proof (cases "length (queue_contents (mq s)) < 2 ^ k")
    case True
    then obtain s' where s': "solo_push t v s = Some s'" "threads s' = (threads s)(t := E_done True)" "claimed s' = claimed s @ [v]"
      "dequeue_pos (mq s') = dequeue_pos (mq s)"
      using solo_push_free [OF S(2) rest, of t v] by blast
    have r': "at_rest (threads s' u)" for u using rest by (simp add: s'(2) at_rest_def)
    have "queue_contents (mq s') = drop (unat (dequeue_pos (mq s'))) (claimed s')"
      by (rule quiet_contents [OF after [OF s'(1) [unfolded solo_push_def]] r']) simp
    then show ?thesis using s' True I by (simp add: cap qc)
  next
    case False
    then have "length (queue_contents (mq s)) = 2 ^ k" using S(1) by simp
    then show ?thesis using solo_push_full [OF S(3) rest, of t v] False by (simp add: cap)
  qed
  have pop: "\<exists>s'. solo_pop t s = Some s' \<and>
      (case queue_contents (mq s) of [] \<Rightarrow> threads s' t = D_done None \<and> mq s' = mq s
       | x # xs \<Rightarrow> threads s' t = D_done (Some x) \<and> queue_contents (mq s') = xs)"
  proof (cases "queue_contents (mq s)")
    case Nil
    then show ?thesis using solo_pop_empty [OF S(5) rest, of t] by simp
  next
    case (Cons x xs)
    define D where "D = unat (dequeue_pos (mq s))"
    have len: "D < length (claimed s)" using Cons unfolding qc D_def by (cases "D < length (claimed s)") (auto simp: D_def)
    have dr: "drop D (claimed s) = x # xs" using Cons qc by (simp add: D_def)
    obtain s' where s': "solo_pop t s = Some s'" "claimed s' = claimed s" "dequeue_pos (mq s') = dequeue_pos (mq s) + 1"
      "threads s' = (threads s)(t := D_done (Some (cell_data (mq_buffer (mq s) ! cell_index (mq s) (dequeue_pos (mq s))))))"
      using solo_pop_some [OF S(4) rest, of t] Cons by auto
    have "cell_data (mq_buffer (mq s) ! cell_index (mq s) (dequeue_pos (mq s))) = claimed s ! D"
      using quiet_cell(1) [OF inv k2 rest, of D] len I by (simp add: shape_index [OF sh] dats_def D_def)
    moreover have "claimed s ! D = x" using dr len by (metis Cons_nth_drop_Suc list.inject)
    moreover have r': "at_rest (threads s' u)" for u using rest by (simp add: s'(4) at_rest_def)
    have "queue_contents (mq s') = drop (unat (dequeue_pos (mq s'))) (claimed s')"
      by (rule quiet_contents [OF after [OF s'(1) [unfolded solo_pop_def]] r']) simp
    moreover have "unat (dequeue_pos (mq s) + 1) = Suc D"
      unfolding D_def by (rule unat_Suc_u64) (use len I si n in \<open>simp add: D_def sys_inv_def\<close>)
    moreover have "drop (Suc D) (claimed s) = xs" using dr by (simp add: drop_Suc drop_tl)
    ultimately show ?thesis using s' Cons by simp
  qed
  show ?thesis using push pop by blast
qed

theorem mpmc_solo_witness:
  "case mpmc_run two_producers (mpmc_start 0 2) of None \<Rightarrow> False
   | Some s \<Rightarrow> (\<exists>s'. solo_push 3 9 s = Some s' \<and> threads s' 3 = E_done False) \<and>
       (\<exists>s'. solo_pop 3 s = Some s' \<and> threads s' 3 = D_done (Some 8))"
proof -
  define s where "s = the (mpmc_run two_producers (mpmc_start 0 2))"
  have r: "mpmc_run two_producers (mpmc_start 0 2) = Some s" by (simp add: s_def two_producers_run)
  have t: "\<forall>t. at_rest (threads s t)" "queue_contents (mq s) = [8, 7]"
    by (simp_all add: s_def two_producers_run at_rest_def queue_contents_def upt_rec)
  have "length two_producers < 2 ^ 61" by (simp add: two_producers_def)
  then show ?thesis using mpmc_solo [OF r _ _ t(1), of 3 9] t(2) unfolding r by (auto simp: round_two)
qed

end
