(* ===== verification/Futex_Mutex.thy ===== *)
theory Futex_Mutex
  imports Sys_Prelude
begin

text \<open>
  The three-state futex mutex of \<open>futex_mutex.hpp\<close>, shared by any number of processes. Each process is
  at one of the atomic accesses or system calls of \<open>lock\<close>, \<open>try_lock\<close> and \<open>unlock\<close>; a step of the
  relation is one such access. \<open>FUTEX_WAIT\<close> sleeps when the word still has the value given and returns
  at once otherwise, may return early, and \<open>FUTEX_WAKE\<close> wakes one sleeper when there is one.
\<close>

datatype futex_pc =
    Outside
  | Lock_cas
  | Lock_exchange
  | Lock_wait
  | Asleep
  | Try_cas
  | Critical
  | Unlock_store
  | Unlock_wake

record FutexMutex =
  state_word :: u32
  pcs :: "nat \<Rightarrow> futex_pc"

definition futex_init :: FutexMutex where
  "futex_init = \<lparr>state_word = 0, pcs = (\<lambda>_. Outside)\<rparr>"

definition goto :: "nat \<Rightarrow> futex_pc \<Rightarrow> FutexMutex \<Rightarrow> FutexMutex" where
  "goto t p m = m\<lparr>pcs := (pcs m)(t := p)\<rparr>"

text \<open>The steps of one process, as the function bodies have them.\<close>

definition lock_cas :: "nat \<Rightarrow> FutexMutex \<Rightarrow> FutexMutex" where
  "lock_cas t m =
     (if state_word m = 0 then goto t Critical (m\<lparr>state_word := 1\<rparr>)
      else if state_word m \<noteq> 2 then goto t Lock_exchange m
      else goto t Lock_wait m)"

definition lock_exchange :: "nat \<Rightarrow> FutexMutex \<Rightarrow> FutexMutex" where
  "lock_exchange t m =
     (let m' = m\<lparr>state_word := 2\<rparr> in if state_word m \<noteq> 0 then goto t Lock_wait m' else goto t Critical m')"

definition futex_wait :: "nat \<Rightarrow> FutexMutex \<Rightarrow> FutexMutex" where
  "futex_wait t m = (if state_word m = 2 then goto t Asleep m else goto t Lock_exchange m)"

definition try_lock :: "nat \<Rightarrow> FutexMutex \<Rightarrow> FutexMutex" where
  "try_lock t m = (if state_word m = 0 then goto t Critical (m\<lparr>state_word := 1\<rparr>) else goto t Outside m)"

definition unlock_sub :: "nat \<Rightarrow> FutexMutex \<Rightarrow> FutexMutex" where
  "unlock_sub t m =
     (let m' = m\<lparr>state_word := state_word m - 1\<rparr> in if state_word m \<noteq> 1 then goto t Unlock_store m' else goto t Outside m')"

definition unlock_store :: "nat \<Rightarrow> FutexMutex \<Rightarrow> FutexMutex" where
  "unlock_store t m = goto t Unlock_wake (m\<lparr>state_word := 0\<rparr>)"

inductive futex_step :: "FutexMutex \<Rightarrow> FutexMutex \<Rightarrow> bool" where
  call_lock: "pcs m t = Outside \<Longrightarrow> futex_step m (goto t Lock_cas m)"
| call_try_lock: "pcs m t = Outside \<Longrightarrow> futex_step m (goto t Try_cas m)"
| cas: "pcs m t = Lock_cas \<Longrightarrow> futex_step m (lock_cas t m)"
| exchange: "pcs m t = Lock_exchange \<Longrightarrow> futex_step m (lock_exchange t m)"
| wait: "pcs m t = Lock_wait \<Longrightarrow> futex_step m (futex_wait t m)"
| early: "pcs m t = Asleep \<Longrightarrow> futex_step m (goto t Lock_exchange m)"
| try_cas: "pcs m t = Try_cas \<Longrightarrow> futex_step m (try_lock t m)"
| unlock: "pcs m t = Critical \<Longrightarrow> futex_step m (unlock_sub t m)"
| store: "pcs m t = Unlock_store \<Longrightarrow> futex_step m (unlock_store t m)"
| wake_one: "pcs m t = Unlock_wake \<Longrightarrow> pcs m u = Asleep \<Longrightarrow> futex_step m (goto t Outside (goto u Lock_exchange m))"
| wake_none: "pcs m t = Unlock_wake \<Longrightarrow> \<forall>u. pcs m u \<noteq> Asleep \<Longrightarrow> futex_step m (goto t Outside m)"

definition owns :: "futex_pc \<Rightarrow> bool" where
  "owns p \<longleftrightarrow> p = Critical \<or> p = Unlock_store"

text \<open>A process that will look at the word again or wake a sleeper.\<close>

definition rouses :: "futex_pc \<Rightarrow> bool" where
  "rouses p \<longleftrightarrow> p = Lock_exchange \<or> p = Lock_wait \<or> p = Unlock_store \<or> p = Unlock_wake"

lemma goto_simps [simp]:
  "state_word (goto t p m) = state_word m" "pcs (goto t p m) = (pcs m)(t := p)"
  by (simp_all add: goto_def)

lemma owns_simps [simp]:
  "owns Critical" "owns Unlock_store" "\<not> owns Outside" "\<not> owns Lock_cas" "\<not> owns Lock_exchange" "\<not> owns Lock_wait"
  "\<not> owns Asleep" "\<not> owns Try_cas" "\<not> owns Unlock_wake"
  "rouses Lock_exchange" "rouses Lock_wait" "rouses Unlock_store" "rouses Unlock_wake" "\<not> rouses Outside" "\<not> rouses Lock_cas"
  "\<not> rouses Asleep" "\<not> rouses Try_cas" "\<not> rouses Critical"
  by (simp_all add: owns_def rouses_def)

text \<open>A step that moves one process either keeps the owner, or takes the free mutex, or gives it up.\<close>

definition excl_inv :: "FutexMutex \<Rightarrow> bool" where
  "excl_inv m \<longleftrightarrow> (state_word m = 0 \<and> (\<forall>t. \<not> owns (pcs m t))) \<or>
     ((state_word m = 1 \<or> state_word m = 2) \<and> (\<exists>h. \<forall>t. owns (pcs m t) \<longleftrightarrow> t = h))"

lemma excl_keep:
  assumes "excl_inv m" "state_word m' = state_word m \<or> (state_word m \<noteq> 0 \<and> (state_word m' = 1 \<or> state_word m' = 2))"
    "\<And>t. owns (pcs m' t) \<longleftrightarrow> owns (pcs m t)"
  shows "excl_inv m'"
  using assms unfolding excl_inv_def by auto

lemma excl_move:
  assumes "excl_inv m" "pcs m' = (pcs m)(t := p)" "owns p \<longleftrightarrow> owns (pcs m t)"
    "state_word m' = state_word m \<or> (state_word m \<noteq> 0 \<and> (state_word m' = 1 \<or> state_word m' = 2))"
  shows "excl_inv m'"
  using excl_keep [OF assms(1,4)] assms(2,3) by simp

lemma excl_take:
  assumes "excl_inv m" "state_word m = 0" "state_word m' = 1 \<or> state_word m' = 2" "pcs m' = (pcs m)(t := Critical)"
  shows "excl_inv m'"
proof -
  have "owns (pcs m' u) \<longleftrightarrow> u = t" for u using assms by (auto simp: excl_inv_def)
  then show ?thesis using assms(3) unfolding excl_inv_def by blast
qed

lemma excl_give:
  assumes "excl_inv m" "owns (pcs m t)" "state_word m' = 0" "pcs m' = (pcs m)(t := p)" "\<not> owns p"
  shows "excl_inv m'"
proof -
  obtain h where "\<forall>u. owns (pcs m u) \<longleftrightarrow> u = h" using assms(1,2) unfolding excl_inv_def by blast
  then have "\<not> owns (pcs m' u)" for u using assms(2,4,5) by auto
  then show ?thesis using assms(3) unfolding excl_inv_def by blast
qed

lemma excl_word: "excl_inv m \<Longrightarrow> state_word m \<noteq> 0 \<Longrightarrow> state_word m = 1 \<or> state_word m = 2"
  by (auto simp: excl_inv_def)

lemma excl_owner: "excl_inv m \<Longrightarrow> owns (pcs m t) \<Longrightarrow> state_word m \<noteq> 0"
  by (auto simp: excl_inv_def)

lemma excl_step:
  assumes "futex_step m m'" "excl_inv m"
  shows "excl_inv m'"
  using assms(1)
proof cases
  case (cas t)
  then show ?thesis
    by (auto simp: lock_cas_def intro: excl_move [OF assms(2), of _ t] excl_take [OF assms(2), of _ t])
next
  case (exchange t)
  then show ?thesis
    by (auto simp: lock_exchange_def Let_def intro: excl_move [OF assms(2), of _ t] excl_take [OF assms(2), of _ t])
next
  case (try_cas t)
  then show ?thesis
    by (auto simp: try_lock_def intro: excl_move [OF assms(2), of _ t] excl_take [OF assms(2), of _ t])
next
  case (unlock t)
  then have "state_word m = 1 \<or> state_word m = 2" using assms(2) excl_word excl_owner [of m t] by auto
  then show ?thesis
  proof
    assume "state_word m = 1"
    then show ?thesis using unlock by (auto simp: unlock_sub_def intro: excl_give [OF assms(2), of t _ Outside])
  next
    assume "state_word m = 2"
    then show ?thesis using unlock by (auto simp: unlock_sub_def intro: excl_move [OF assms(2), of _ t])
  qed
next
  case (store t)
  then show ?thesis by (auto simp: unlock_store_def intro: excl_give [OF assms(2), of t _ Unlock_wake])
next
  case (wait t)
  then show ?thesis by (auto simp: futex_wait_def intro: excl_move [OF assms(2), of _ t])
qed (auto split: if_splits intro!: excl_keep [OF assms(2)])

text \<open>Nobody sleeps unless the word says so or somebody is on the way to wake or look again.\<close>

definition sleep_inv :: "FutexMutex \<Rightarrow> bool" where
  "sleep_inv m \<longleftrightarrow> ((\<exists>t. pcs m t = Asleep) \<longrightarrow> state_word m = 2 \<or> (\<exists>t. rouses (pcs m t)))"

lemma sleep_two: "state_word m' = 2 \<Longrightarrow> sleep_inv m'"
  by (simp add: sleep_inv_def)

lemma sleep_rouse: "rouses (pcs m' t) \<Longrightarrow> sleep_inv m'"
  by (auto simp: sleep_inv_def)

lemma sleep_keep:
  assumes "sleep_inv m" "state_word m = 2 \<longrightarrow> state_word m' = 2" "pcs m' = (pcs m)(t := p)" "\<not> rouses (pcs m t)" "p \<noteq> Asleep"
  shows "sleep_inv m'"
proof -
  have "rouses (pcs m' u)" if "rouses (pcs m u)" for u using that assms(3,4) by auto
  moreover have "\<exists>u. pcs m u = Asleep" if "pcs m' u = Asleep" for u using that assms(3,5) by (auto split: if_splits)
  ultimately show ?thesis using assms(1,2) unfolding sleep_inv_def by blast
qed

lemma sleep_step:
  assumes "futex_step m m'" "excl_inv m" "sleep_inv m"
  shows "sleep_inv m'"
  using assms(1)
proof cases
  case (call_lock t)
  then show ?thesis by (auto intro: sleep_keep [OF assms(3), of _ t])
next
  case (call_try_lock t)
  then show ?thesis by (auto intro: sleep_keep [OF assms(3), of _ t])
next
  case (cas t)
  then show ?thesis
    by (auto simp: lock_cas_def intro: sleep_keep [OF assms(3), of _ t] sleep_rouse [of _ t])
next
  case (exchange t)
  then show ?thesis by (auto simp: lock_exchange_def Let_def intro: sleep_two)
next
  case (wait t)
  then show ?thesis by (auto simp: futex_wait_def intro: sleep_two sleep_rouse [of _ t])
next
  case (early t)
  then show ?thesis by (auto intro: sleep_rouse [of _ t])
next
  case (try_cas t)
  then show ?thesis by (auto simp: try_lock_def intro: sleep_keep [OF assms(3), of _ t])
next
  case (unlock t)
  then show ?thesis
    by (auto simp: unlock_sub_def Let_def intro: sleep_keep [OF assms(3), of _ t] sleep_rouse [of _ t])
next
  case (store t)
  then show ?thesis by (auto simp: unlock_store_def intro: sleep_rouse [of _ t])
next
  case (wake_one t u)
  then show ?thesis by (auto intro!: sleep_rouse [of _ u])
next
  case (wake_none t)
  then show ?thesis by (auto simp: sleep_inv_def)
qed

text \<open>
  C14: mutual exclusion and no lost wake-up. In every reachable state at most one process is between a
  successful \<open>lock\<close> or \<open>try_lock\<close> and the release in its \<open>unlock\<close>, the word is 0 exactly when there is
  none, and whenever a process sleeps in the kernel another one either holds the mutex, or is about to
  wake a sleeper, or is about to look at the word again.
\<close>

theorem futex_mutual_exclusion:
  assumes "futex_step\<^sup>*\<^sup>* futex_init m"
  shows "(owns (pcs m t) \<and> owns (pcs m u) \<longrightarrow> t = u) \<and>
    (state_word m = 0 \<longleftrightarrow> (\<forall>t. \<not> owns (pcs m t))) \<and> unat (state_word m) \<le> 2 \<and>
    (pcs m t = Asleep \<longrightarrow> (\<exists>u. u \<noteq> t \<and> (owns (pcs m u) \<or> rouses (pcs m u))))"
proof -
  have "excl_inv m \<and> sleep_inv m"
    using assms
  proof (induction rule: rtranclp_induct)
    case base
    show ?case by (simp add: excl_inv_def sleep_inv_def futex_init_def)
  next
    case (step m1 m2)
    then show ?case using excl_step sleep_step by blast
  qed
  then have e: "excl_inv m" and s: "sleep_inv m" by simp_all
  have "\<exists>u. owns (pcs m u) \<or> rouses (pcs m u)" if "pcs m t = Asleep"
    using e s that unfolding excl_inv_def sleep_inv_def by auto
  then have "\<exists>u. u \<noteq> t \<and> (owns (pcs m u) \<or> rouses (pcs m u))" if "pcs m t = Asleep"
    using that by (metis owns_simps(7,16))
  then show ?thesis using e unfolding excl_inv_def by auto
qed

text \<open>Two processes: the first takes the mutex, the second finds it taken and goes to sleep.\<close>

definition futex_contended :: FutexMutex where
  "futex_contended =
     futex_wait 1 (lock_exchange 1 (lock_cas 1 (goto 1 Lock_cas (lock_cas 0 (goto 0 Lock_cas futex_init)))))"

lemmas futex_defs = lock_cas_def lock_exchange_def futex_wait_def Let_def

lemma futex_contended_reachable: "futex_step\<^sup>*\<^sup>* futex_init futex_contended"
proof -
  define m1 where "m1 = goto 0 Lock_cas futex_init"
  define m2 where "m2 = lock_cas 0 m1"
  define m3 where "m3 = goto 1 Lock_cas m2"
  define m4 where "m4 = lock_cas 1 m3"
  define m5 where "m5 = lock_exchange 1 m4"
  note ms = m5_def m4_def m3_def m2_def m1_def futex_init_def futex_defs
  have "futex_step\<^sup>*\<^sup>* futex_init futex_init" by simp
  also have "futex_step futex_init m1" unfolding m1_def by (rule call_lock) (simp add: futex_init_def)
  also have "futex_step m1 m2" unfolding m2_def by (rule cas) (simp add: m1_def)
  also have "futex_step m2 m3" unfolding m3_def by (rule call_lock) (simp add: ms)
  also have "futex_step m3 m4" unfolding m4_def by (rule cas) (simp add: m3_def)
  also have "futex_step m4 m5" unfolding m5_def by (rule exchange) (simp add: ms)
  also have "futex_step m5 futex_contended"
    unfolding futex_contended_def m1_def [symmetric] m2_def [symmetric] m3_def [symmetric] m4_def [symmetric] m5_def [symmetric]
    by (rule wait) (simp add: ms)
  finally show ?thesis .
qed

theorem futex_mutual_exclusion_witness:
  "pcs futex_contended 1 = Asleep \<and> owns (pcs futex_contended 0) \<and> state_word futex_contended = 2 \<and>
   (\<exists>u. u \<noteq> 1 \<and> (owns (pcs futex_contended u) \<or> rouses (pcs futex_contended u)))"
proof -
  have "pcs futex_contended 1 = Asleep" "owns (pcs futex_contended 0)" "state_word futex_contended = 2"
    by (simp_all add: futex_contended_def futex_init_def futex_defs)
  then show ?thesis using futex_mutual_exclusion [OF futex_contended_reachable, of 1 0] by simp
qed

end
