(* ===== verification/Latch_BTree.thy ===== *)
theory Latch_BTree
  imports Sys_Prelude
begin

text \<open>
  The B+ tree with latch crabbing of \<open>latch_crabbing_btree.hpp\<close>. Nodes live in a heap and refer to each
  other by address, as the shared pointers do. Every operation also yields the latches it takes and
  releases, in order; \<open>MaxKeys\<close> is an argument, as it is of the template.
\<close>

record ('k, 'v) BNode =
  is_leaf :: bool
  node_keys :: "'k list"
  node_children :: "nat list"
  node_values :: "'v list"
  node_next :: "nat option"

record ('k, 'v) ConcurrentBTree =
  nodes :: "('k, 'v) BNode list"
  root_node :: nat

datatype latch_event = LockRoot | UnlockRoot | LockNode nat | UnlockNode nat

definition is_safe_for_insert :: "nat \<Rightarrow> ('k, 'v) BNode \<Rightarrow> bool" where
  "is_safe_for_insert MaxKeys n = (length (node_keys n) < MaxKeys)"

definition mk_leaf :: "('k, 'v) BNode" where
  "mk_leaf = \<lparr>is_leaf = True, node_keys = [], node_children = [], node_values = [], node_next = None\<rparr>"

definition mk_internal :: "('k, 'v) BNode" where
  "mk_internal = \<lparr>is_leaf = False, node_keys = [], node_children = [], node_values = [], node_next = None\<rparr>"

definition btree_init :: "('k, 'v) ConcurrentBTree" where
  "btree_init = \<lparr>nodes = [mk_leaf], root_node = 0\<rparr>"

text \<open>The scan for the child to follow.\<close>

fun child_index :: "'k::linorder \<Rightarrow> 'k list \<Rightarrow> nat" where
  "child_index key [] = 0"
| "child_index key (k # ks) = (if key \<ge> k then Suc (child_index key ks) else 0)"

partial_function (option) descend_read ::
  "('k::linorder, 'v) BNode list \<Rightarrow> 'k \<Rightarrow> nat \<Rightarrow> latch_event list \<Rightarrow> (latch_event list \<times> nat) option" where
  "descend_read h key cur evs =
     (if is_leaf (h ! cur) then Some (evs, cur)
      else let child = node_children (h ! cur) ! child_index key (node_keys (h ! cur))
           in descend_read h key child (evs @ [LockNode child, UnlockNode cur]))"

definition leaf_lookup :: "'k::linorder \<Rightarrow> ('k, 'v) BNode \<Rightarrow> 'v option" where
  "leaf_lookup key leaf =
     (let i = lower_bound (\<lambda>k. k < key) (node_keys leaf)
      in if i < length (node_keys leaf) \<and> node_keys leaf ! i = key then Some (node_values leaf ! i) else None)"

definition btree_search :: "'k::linorder \<Rightarrow> ('k, 'v) ConcurrentBTree \<Rightarrow> ('v option \<times> latch_event list) option" where
  "btree_search key t =
     (case descend_read (nodes t) key (root_node t) [LockRoot, LockNode (root_node t), UnlockRoot] of None \<Rightarrow> None
      | Some (evs, leaf) \<Rightarrow> Some (leaf_lookup key (nodes t ! leaf), evs @ [UnlockNode leaf]))"

definition insert_into_leaf :: "'k::linorder \<Rightarrow> 'v \<Rightarrow> ('k, 'v) BNode \<Rightarrow> ('k, 'v) BNode" where
  "insert_into_leaf key val leaf =
     (let ks = node_keys leaf; vs = node_values leaf; i = lower_bound (\<lambda>k. k < key) ks
      in if i < length ks \<and> ks ! i = key then leaf\<lparr>node_values := vs[i := val]\<rparr>
         else leaf\<lparr>node_keys := take i ks @ key # drop i ks, node_values := take i vs @ val # drop i vs\<rparr>)"

text \<open>The split of a root that is a leaf; the new root is allocated before the new leaf.\<close>

definition split_root :: "('k, 'v) ConcurrentBTree \<Rightarrow> ('k, 'v) ConcurrentBTree" where
  "split_root t =
     (let r = root_node t; leaf = nodes t ! r; new_root = length (nodes t); new_leaf = Suc new_root;
          mid = length (node_keys leaf) div 2;
          split_key = node_keys leaf ! mid;
          right = mk_leaf\<lparr>node_keys := drop mid (node_keys leaf), node_values := drop mid (node_values leaf), node_next := node_next leaf\<rparr>;
          left = leaf\<lparr>node_keys := take mid (node_keys leaf), node_values := take mid (node_values leaf), node_next := Some new_leaf\<rparr>;
          top = mk_internal\<lparr>node_keys := [split_key], node_children := [r, new_leaf]\<rparr>
      in t\<lparr>nodes := (nodes t)[r := left] @ [top, right], root_node := new_root\<rparr>)"

text \<open>
  The descent of an insertion: the latches held on the path and whether the root latch is still owned
  are the loop's variables.
\<close>

partial_function (option) descend_write ::
  "('k::linorder, 'v) BNode list \<Rightarrow> nat \<Rightarrow> 'k \<Rightarrow> nat \<Rightarrow> nat list \<Rightarrow> bool \<Rightarrow> latch_event list \<Rightarrow>
     (latch_event list \<times> nat \<times> nat list \<times> bool) option" where
  "descend_write h MaxKeys key cur locked owned evs =
     (if is_leaf (h ! cur) then Some (evs, cur, locked, owned)
      else let child = node_children (h ! cur) ! child_index key (node_keys (h ! cur));
               safe = is_safe_for_insert MaxKeys (h ! child);
               released = (if safe then map UnlockNode locked @ (if owned then [UnlockRoot] else []) else []);
               locked' = (if safe then [] else locked) @ [child]
           in descend_write h MaxKeys key child locked' (owned \<and> \<not> safe) (evs @ LockNode child # released))"

definition btree_insert ::
  "nat \<Rightarrow> 'k::linorder \<Rightarrow> 'v \<Rightarrow> ('k, 'v) ConcurrentBTree \<Rightarrow> (('k, 'v) ConcurrentBTree \<times> latch_event list) option" where
  "btree_insert MaxKeys key val t =
     (let r = root_node t in
      if is_leaf (nodes t ! r) then
        (let t1 = t\<lparr>nodes := (nodes t)[r := insert_into_leaf key val (nodes t ! r)]\<rparr>;
             t2 = (if length (node_keys (nodes t1 ! r)) > MaxKeys then split_root t1 else t1)
         in Some (t2, [LockRoot, LockNode r, UnlockNode r, UnlockRoot]))
      else
        (let safe = is_safe_for_insert MaxKeys (nodes t ! r)
         in case descend_write (nodes t) MaxKeys key r [r] (\<not> safe) ([LockRoot, LockNode r] @ (if safe then [UnlockRoot] else [])) of
              None \<Rightarrow> None
            | Some (evs, leaf, locked, owned) \<Rightarrow>
                Some (t\<lparr>nodes := (nodes t)[leaf := insert_into_leaf key val (nodes t ! leaf)]\<rparr>,
                      evs @ map UnlockNode locked @ (if owned then [UnlockRoot] else []))))"

subsection \<open>Leaves as maps\<close>

definition leaf_ok :: "('k::linorder, 'v) BNode \<Rightarrow> bool" where
  "leaf_ok n \<longleftrightarrow> is_leaf n \<and> sorted_wrt (<) (node_keys n) \<and> length (node_values n) = length (node_keys n)"

definition leaf_map :: "('k, 'v) BNode \<Rightarrow> 'k \<rightharpoonup> 'v" where
  "leaf_map n = map_of (zip (node_keys n) (node_values n))"

lemma dom_leaf_map: "leaf_ok n \<Longrightarrow> dom (leaf_map n) = set (node_keys n)"
  by (simp add: leaf_ok_def leaf_map_def)

lemma zip_split_at:
  "length ks = length vs \<Longrightarrow> zip ks vs = zip (take i ks) (take i vs) @ zip (drop i ks) (drop i vs)"
  by (metis append_take_drop_id length_take zip_append)

lemma lower_bound_absent:
  assumes "sorted_wrt (<) (ks :: 'k::linorder list)" "\<not> (lower_bound (\<lambda>k. k < key) ks < length ks \<and> ks ! lower_bound (\<lambda>k. k < key) ks = key)"
  shows "key \<notin> set ks"
proof
  assume "key \<in> set ks"
  moreover have "sorted ks" using assms(1) by (rule strict_sorted_imp_sorted)
  ultimately have "binary_search ks key" by (simp add: binary_search_sorted)
  then have "lower_bound (\<lambda>k. k < key) ks < length ks" "\<not> key < ks ! lower_bound (\<lambda>k. k < key) ks"
    by (auto simp: binary_search_def Let_def)
  then show False using assms(2) lower_bound_at [of "\<lambda>k. k < key" ks] by auto
qed

lemma leaf_lookup_map:
  assumes "leaf_ok n"
  shows "leaf_lookup key n = leaf_map n key"
proof -
  define i where "i = lower_bound (\<lambda>k. k < key) (node_keys n)"
  have ok: "sorted_wrt (<) (node_keys n)" "length (node_values n) = length (node_keys n)" using assms by (auto simp: leaf_ok_def)
  show ?thesis
  proof (cases "i < length (node_keys n) \<and> node_keys n ! i = key")
    case True
    moreover have "distinct (node_keys n)" using ok(1) by (simp add: strict_sorted_iff)
    ultimately have "map_of (zip (node_keys n) (node_values n)) key = Some (node_values n ! i)"
      using map_of_zip_nth [of "node_keys n" "node_values n" i] ok(2) by auto
    then show ?thesis using True by (simp add: leaf_lookup_def Let_def i_def leaf_map_def)
  next
    case False
    then have "key \<notin> set (node_keys n)" using lower_bound_absent [OF ok(1)] unfolding i_def by blast
    then have "leaf_map n key = None" using dom_leaf_map [OF assms] by (metis domIff)
    then show ?thesis using False by (auto simp: leaf_lookup_def Let_def i_def)
  qed
qed

lemma lower_bound_parts:
  assumes "sorted (ks :: 'k::linorder list)"
  shows "x \<in> set (take (lower_bound (\<lambda>k. k < key) ks) ks) \<Longrightarrow> x < key"
    "x \<in> set (drop (lower_bound (\<lambda>k. k < key) ks) ks) \<Longrightarrow> key \<le> x"
proof -
  define i where "i = lower_bound (\<lambda>k. k < key) ks"
  show "x < key" if x: "x \<in> set (take (lower_bound (\<lambda>k. k < key) ks) ks)"
  proof -
    obtain j where j: "j < i" "ks ! j = x" using x by (auto simp: in_set_conv_nth i_def)
    show ?thesis using lower_bound_before [of j "\<lambda>k. k < key" ks] j unfolding i_def by auto
  qed
  show "key \<le> x" if x: "x \<in> set (drop (lower_bound (\<lambda>k. k < key) ks) ks)"
  proof -
    obtain j where "j < length (drop i ks)" "drop i ks ! j = x" using x unfolding in_set_conv_nth i_def by blast
    then have j: "i + j < length ks" "ks ! (i + j) = x" by simp_all
    then have "key \<le> ks ! i" using lower_bound_at [of "\<lambda>k. k < key" ks] unfolding i_def by auto
    also have "\<dots> \<le> ks ! (i + j)" by (rule sorted_nth_mono [OF assms _ j(1)]) simp
    finally show ?thesis using j(2) by simp
  qed
qed

lemma map_of_insert_at: "k \<notin> fst ` set xs \<Longrightarrow> map_of (xs @ (k, v) # ys) = (map_of (xs @ ys))(k \<mapsto> v)"
  by (induction xs) auto

lemma map_of_zip_update:
  assumes "distinct ks" "length vs = length ks" "i < length ks"
  shows "map_of (zip ks (vs[i := v])) = (map_of (zip ks vs))(ks ! i \<mapsto> v)"
proof
  fix k
  show "map_of (zip ks (vs[i := v])) k = ((map_of (zip ks vs))(ks ! i \<mapsto> v)) k"
  proof (cases "k \<in> set ks")
    case True
    then obtain j where j: "j < length ks" "k = ks ! j" by (auto simp: in_set_conv_nth)
    have "map_of (zip ks (vs[i := v])) (ks ! j) = Some (vs[i := v] ! j)" "map_of (zip ks vs) (ks ! j) = Some (vs ! j)"
      using map_of_zip_nth [of ks "vs[i := v]" j] map_of_zip_nth [of ks vs j] assms(1,2) j(1) by simp_all
    then show ?thesis using j assms by (auto simp: nth_eq_iff_index_eq nth_list_update)
  next
    case False
    moreover have "k \<noteq> ks ! i" using False assms(3) nth_mem by blast
    moreover have "map_of (zip ks (vs[i := v])) k = None" "map_of (zip ks vs) k = None"
      using False assms(2) map_of_zip_is_None [of ks "vs[i := v]" k] map_of_zip_is_None [of ks vs k] by auto
    ultimately show ?thesis by simp
  qed
qed

lemma insert_into_leaf_ok:
  assumes "leaf_ok n"
  shows "leaf_ok (insert_into_leaf key val n)" "leaf_map (insert_into_leaf key val n) = (leaf_map n)(key \<mapsto> val)"
    "set (node_keys (insert_into_leaf key val n)) = insert key (set (node_keys n))"
    "node_next (insert_into_leaf key val n) = node_next n"
proof -
  define ks vs i where "ks = node_keys n" "vs = node_values n" "i = lower_bound (\<lambda>k. k < key) ks"
  have ok: "is_leaf n" "sorted_wrt (<) ks" "length vs = length ks" using assms by (auto simp: leaf_ok_def ks_vs_i_def)
  have srt: "sorted ks" "distinct ks" using ok(2) by (simp_all add: strict_sorted_iff)
  have il: "i \<le> length ks" by (simp add: ks_vs_i_def)
  define n' where "n' = insert_into_leaf key val n"
  have "leaf_ok n' \<and> leaf_map n' = (leaf_map n)(key \<mapsto> val) \<and> set (node_keys n') = insert key (set ks) \<and> node_next n' = node_next n"
  proof (cases "i < length ks \<and> ks ! i = key")
    case True
    then have n': "n' = n\<lparr>node_values := vs[i := val]\<rparr>" by (simp add: n'_def insert_into_leaf_def Let_def ks_vs_i_def)
    have "map_of (zip ks (vs[i := val])) = (map_of (zip ks vs))(key \<mapsto> val)"
      using map_of_zip_update [OF srt(2) ok(3), of i] True by simp
    moreover have "key \<in> set ks" using True nth_mem by blast
    ultimately show ?thesis using ok by (auto simp: n' leaf_ok_def leaf_map_def ks_vs_i_def)
  next
    case False
    then have n': "n' = n\<lparr>node_keys := take i ks @ key # drop i ks, node_values := take i vs @ val # drop i vs\<rparr>"
      by (auto simp: n'_def insert_into_leaf_def Let_def ks_vs_i_def)
    have ab: "key \<notin> set ks" using False lower_bound_absent [OF ok(2)] unfolding ks_vs_i_def by blast
    have lt: "x < key" if "x \<in> set (take i ks)" for x using lower_bound_parts(1) [OF srt(1)] that unfolding ks_vs_i_def by blast
    have gt: "key < x" if "x \<in> set (drop i ks)" for x
      using lower_bound_parts(2) [OF srt(1), of x key] ab that in_set_dropD [of x i ks] unfolding ks_vs_i_def by (cases "x = key") auto
    have "sorted_wrt (<) (take i ks @ drop i ks)" using ok(2) by simp
    then have s: "sorted_wrt (<) (take i ks @ key # drop i ks)"
      using lt gt unfolding sorted_wrt_append sorted_wrt.simps by auto
    have set: "set (take i ks @ key # drop i ks) = insert key (set ks)"
      by (metis append_take_drop_id list.simps(15) set_append Un_insert_right)
    have "key \<notin> set (take i ks)" using ab in_set_takeD by fast
    then have "key \<notin> fst ` set (zip (take i ks) (take i vs))" by (auto dest: set_zip_leftD)
    then have "map_of (zip (take i ks @ key # drop i ks) (take i vs @ val # drop i vs)) = (map_of (zip ks vs))(key \<mapsto> val)"
      using ok(3) zip_split_at [OF ok(3) [symmetric], of i] by (simp add: map_of_insert_at del: map_of_append)
    then show ?thesis using ok s set by (simp add: n' leaf_ok_def leaf_map_def ks_vs_i_def)
  qed
  then show "leaf_ok (insert_into_leaf key val n)" "leaf_map (insert_into_leaf key val n) = (leaf_map n)(key \<mapsto> val)"
    "set (node_keys (insert_into_leaf key val n)) = insert key (set (node_keys n))"
    "node_next (insert_into_leaf key val n) = node_next n"
    by (simp_all add: n'_def ks_vs_i_def)
qed

subsection \<open>The tree as a map\<close>

text \<open>
  The only shapes the code builds: a single leaf, or a root with two leaves, since a leaf below the root
  is never split.
\<close>

definition one_leaf :: "('k::linorder, 'v) ConcurrentBTree \<Rightarrow> ('k \<rightharpoonup> 'v) \<Rightarrow> bool" where
  "one_leaf t f \<longleftrightarrow> (\<exists>l. t = \<lparr>nodes = [l], root_node = 0\<rparr> \<and> leaf_ok l \<and> leaf_map l = f)"

definition two_leaves :: "('k::linorder, 'v) ConcurrentBTree \<Rightarrow> ('k \<rightharpoonup> 'v) \<Rightarrow> bool" where
  "two_leaves t f \<longleftrightarrow> (\<exists>l r s.
     t = \<lparr>nodes = [l, mk_internal\<lparr>node_keys := [s], node_children := [0, 2]\<rparr>, r], root_node = 1\<rparr> \<and>
     leaf_ok l \<and> leaf_ok r \<and> (\<forall>k\<in>set (node_keys l). k < s) \<and> (\<forall>k\<in>set (node_keys r). s \<le> k) \<and>
     f = leaf_map l ++ leaf_map r)"

definition btree_rel :: "('k::linorder, 'v) ConcurrentBTree \<Rightarrow> ('k \<rightharpoonup> 'v) \<Rightarrow> bool" where
  "btree_rel t f \<longleftrightarrow> one_leaf t f \<or> two_leaves t f"

text \<open>
  A disciplined use of latches: none is taken twice or released unheld, from the first to the last
  event some latch is held, and none is left behind. \<open>None\<close> is the latch of the root pointer.
\<close>

fun disciplined :: "nat option set \<Rightarrow> latch_event list \<Rightarrow> bool" where
  "disciplined H [] \<longleftrightarrow> H = {}"
| "disciplined H (LockRoot # es) \<longleftrightarrow> None \<notin> H \<and> disciplined (insert None H) es"
| "disciplined H (LockNode n # es) \<longleftrightarrow> Some n \<notin> H \<and> disciplined (insert (Some n) H) es"
| "disciplined H (UnlockRoot # es) \<longleftrightarrow> None \<in> H \<and> (H - {None} = {} \<longrightarrow> es = []) \<and> disciplined (H - {None}) es"
| "disciplined H (UnlockNode n # es) \<longleftrightarrow> Some n \<in> H \<and> (H - {Some n} = {} \<longrightarrow> es = []) \<and> disciplined (H - {Some n}) es"

lemma internal_simps [simp]:
  "is_leaf (mk_internal\<lparr>node_keys := ks, node_children := cs\<rparr>) = False"
  "node_keys (mk_internal\<lparr>node_keys := ks, node_children := cs\<rparr>) = ks"
  "node_children (mk_internal\<lparr>node_keys := ks, node_children := cs\<rparr>) = cs"
  by (simp_all add: mk_internal_def)

lemma leaf_okD [simp]: "leaf_ok n \<Longrightarrow> is_leaf n"
  by (simp add: leaf_ok_def)

lemma leaf_map_outside: "leaf_ok n \<Longrightarrow> k \<notin> set (node_keys n) \<Longrightarrow> leaf_map n k = None"
  using dom_leaf_map by (metis domIff)

lemma search_one:
  assumes "one_leaf t f"
  shows "\<exists>evs. btree_search key t = Some (f key, evs) \<and> disciplined {} evs"
  using assms by (auto simp: one_leaf_def btree_search_def descend_read.simps [of _ _ 0] leaf_lookup_map)

lemma search_two:
  assumes "two_leaves t f"
  shows "\<exists>evs. btree_search key t = Some (f key, evs) \<and> disciplined {} evs"
proof -
  obtain l r s where t: "t = \<lparr>nodes = [l, mk_internal\<lparr>node_keys := [s], node_children := [0, 2]\<rparr>, r], root_node = 1\<rparr>"
    and ok: "leaf_ok l" "leaf_ok r" "\<forall>k\<in>set (node_keys l). k < s" "\<forall>k\<in>set (node_keys r). s \<le> k" and f: "f = leaf_map l ++ leaf_map r"
    using assms by (auto simp: two_leaves_def)
  show ?thesis
  proof (cases "s \<le> key")
    case True
    then have "key \<notin> set (node_keys l)" using ok(3) by (meson leD)
    then have "leaf_map l key = None" by (rule leaf_map_outside [OF ok(1)])
    then show ?thesis
      using True ok by (simp add: t f btree_search_def descend_read.simps [of _ _ "Suc 0"] descend_read.simps [of _ _ 2]
          leaf_lookup_map map_add_def insert_Diff_if split: option.split)
  next
    case False
    then have "key \<notin> set (node_keys r)" using ok(4) by blast
    then have "leaf_map r key = None" by (rule leaf_map_outside [OF ok(2)])
    then show ?thesis
      using False ok by (simp add: t f btree_search_def descend_read.simps [of _ _ "Suc 0"] descend_read.simps [of _ _ 0]
          leaf_lookup_map map_add_def insert_Diff_if)
  qed
qed

lemma split_leaf:
  fixes n :: "('k::linorder, 'v) BNode" and a :: nat and b :: "nat option"
  assumes "leaf_ok n" "node_keys n \<noteq> []"
  defines "mid \<equiv> length (node_keys n) div 2"
  defines "l \<equiv> n\<lparr>node_keys := take mid (node_keys n), node_values := take mid (node_values n), node_next := Some a\<rparr>"
  defines "r \<equiv> mk_leaf\<lparr>node_keys := drop mid (node_keys n), node_values := drop mid (node_values n), node_next := b\<rparr>"
  shows "leaf_ok l" "leaf_ok r" "\<forall>k\<in>set (node_keys l). k < node_keys n ! mid" "\<forall>k\<in>set (node_keys r). node_keys n ! mid \<le> k"
    "leaf_map n = leaf_map l ++ leaf_map r"
proof -
  define ks vs where "ks = node_keys n" "vs = node_values n"
  have ok: "is_leaf n" "sorted_wrt (<) ks" "length vs = length ks" using assms(1) by (auto simp: leaf_ok_def ks_vs_def)
  have mid: "mid < length ks" using assms(2) by (cases ks) (auto simp: mid_def ks_vs_def)
  have "sorted_wrt (<) (take mid ks @ drop mid ks)" using ok(2) by simp
  then have s: "sorted_wrt (<) (take mid ks)" "sorted_wrt (<) (drop mid ks)" "\<forall>x\<in>set (take mid ks). \<forall>y\<in>set (drop mid ks). x < y"
    unfolding sorted_wrt_append by blast+
  have hd: "drop mid ks = ks ! mid # drop (Suc mid) ks" using mid by (simp add: Cons_nth_drop_Suc)
  have lk: "node_keys l = take mid ks" "node_values l = take mid vs" "node_keys r = drop mid ks" "node_values r = drop mid vs"
    by (simp_all add: l_def r_def ks_vs_def mk_leaf_def)
  show "leaf_ok l" "leaf_ok r" using ok s(1,2) by (simp_all add: leaf_ok_def lk) (simp_all add: l_def r_def mk_leaf_def)
  show "\<forall>k\<in>set (node_keys l). k < node_keys n ! mid"
    using s(3) unfolding lk ks_vs_def(1) [symmetric] hd by simp
  show "\<forall>k\<in>set (node_keys r). node_keys n ! mid \<le> k"
    using s(2) unfolding lk ks_vs_def(1) [symmetric] hd by auto
  have d: "set (take mid ks) \<inter> set (drop mid ks) = {}" using s(3) by fastforce
  have "map_of (zip ks vs) = map_of (zip (drop mid ks) (drop mid vs)) ++ map_of (zip (take mid ks) (take mid vs))"
    using zip_split_at [OF ok(3) [symmetric], of mid] by simp
  also have "\<dots> = map_of (zip (take mid ks) (take mid vs)) ++ map_of (zip (drop mid ks) (drop mid vs))"
    using d ok(3) by (intro map_add_comm) (simp add: Int_commute)
  finally show "leaf_map n = leaf_map l ++ leaf_map r" by (simp add: leaf_map_def lk ks_vs_def)
qed

lemma split_two:
  assumes "leaf_ok n" "node_keys n \<noteq> []" "leaf_map n = f"
  shows "two_leaves (split_root \<lparr>nodes = [n], root_node = 0\<rparr>) f"
proof -
  define mid where "mid = length (node_keys n) div 2"
  define l where "l = n\<lparr>node_keys := take mid (node_keys n), node_values := take mid (node_values n), node_next := Some 2\<rparr>"
  define r where "r = mk_leaf\<lparr>node_keys := drop mid (node_keys n), node_values := drop mid (node_values n), node_next := node_next n\<rparr>"
  have "split_root \<lparr>nodes = [n], root_node = 0\<rparr> =
      \<lparr>nodes = [l, mk_internal\<lparr>node_keys := [node_keys n ! mid], node_children := [0, 2]\<rparr>, r], root_node = 1\<rparr>"
    by (simp add: split_root_def Let_def l_def r_def mid_def numeral_2_eq_2)
  moreover note split_leaf(1,3) [OF assms(1,2), of 2, folded mid_def, folded l_def]
    split_leaf(2,4) [OF assms(1,2), of "node_next n", folded mid_def, folded r_def]
    split_leaf(5) [OF assms(1,2), of 2 "node_next n", folded mid_def, folded l_def r_def]
  ultimately show ?thesis using assms(3) unfolding two_leaves_def by blast
qed

lemma insert_one:
  assumes "one_leaf t f"
  shows "\<exists>t' evs. btree_insert M key val t = Some (t', evs) \<and> btree_rel t' (f(key \<mapsto> val)) \<and> disciplined {} evs"
proof -
  obtain l where t: "t = \<lparr>nodes = [l], root_node = 0\<rparr>" and ok: "leaf_ok l" "leaf_map l = f"
    using assms by (auto simp: one_leaf_def)
  define n where "n = insert_into_leaf key val l"
  have n: "leaf_ok n" "leaf_map n = f(key \<mapsto> val)" "set (node_keys n) = insert key (set (node_keys l))"
    using insert_into_leaf_ok [OF ok(1), of key val] ok(2) by (simp_all add: n_def)
  have ne: "node_keys n \<noteq> []" using n(3) by auto
  define t1 where "t1 = \<lparr>nodes = [n], root_node = 0\<rparr>"
  define t2 where "t2 = (if length (node_keys n) > M then split_root t1 else t1)"
  have "btree_insert M key val t = Some (t2, [LockRoot, LockNode 0, UnlockNode 0, UnlockRoot])"
    using ok(1) by (simp add: btree_insert_def t Let_def n_def t1_def t2_def)
  moreover have "btree_rel t1 (f(key \<mapsto> val))" using n by (auto simp: btree_rel_def one_leaf_def t1_def)
  moreover have "two_leaves (split_root t1) (f(key \<mapsto> val))" unfolding t1_def by (rule split_two [OF n(1) ne n(2)])
  ultimately show ?thesis by (auto simp: t2_def btree_rel_def)
qed

lemma insert_two:
  assumes "two_leaves t f"
  shows "\<exists>t' evs. btree_insert M key val t = Some (t', evs) \<and> two_leaves t' (f(key \<mapsto> val)) \<and> disciplined {} evs"
proof -
  obtain l r s where t: "t = \<lparr>nodes = [l, mk_internal\<lparr>node_keys := [s], node_children := [0, 2]\<rparr>, r], root_node = 1\<rparr>"
    and ok: "leaf_ok l" "leaf_ok r" "\<forall>k\<in>set (node_keys l). k < s" "\<forall>k\<in>set (node_keys r). s \<le> k" and f: "f = leaf_map l ++ leaf_map r"
    using assms by (auto simp: two_leaves_def)
  note dw = descend_write.simps [of _ _ _ "Suc 0"] descend_write.simps [of _ _ _ 0] descend_write.simps [of _ _ _ 2]
  show ?thesis
  proof (cases "s \<le> key")
    case True
    define r' where "r' = insert_into_leaf key val r"
    note r' = insert_into_leaf_ok [OF ok(2), of key val, folded r'_def]
    define t' where "t' = \<lparr>nodes = [l, mk_internal\<lparr>node_keys := [s], node_children := [0, 2]\<rparr>, r'], root_node = 1\<rparr>"
    have "two_leaves t' (f(key \<mapsto> val))"
      using ok r' True unfolding two_leaves_def t'_def f by (intro exI [of _ l] exI [of _ r'] exI [of _ s]) simp
    moreover have "\<exists>evs. btree_insert M key val t = Some (t', evs) \<and> disciplined {} evs"
      using True ok by (simp add: btree_insert_def t Let_def dw is_safe_for_insert_def insert_Diff_if t'_def r'_def)
    ultimately show ?thesis by blast
  next
    case False
    define l' where "l' = insert_into_leaf key val l"
    note l' = insert_into_leaf_ok [OF ok(1), of key val, folded l'_def]
    define t' where "t' = \<lparr>nodes = [l', mk_internal\<lparr>node_keys := [s], node_children := [0, 2]\<rparr>, r], root_node = 1\<rparr>"
    have "key \<notin> set (node_keys r)" using False ok(4) by blast
    then have "leaf_map r key = None" by (rule leaf_map_outside [OF ok(2)])
    then have "f(key \<mapsto> val) = leaf_map l' ++ leaf_map r"
      unfolding f l'(2) by (auto simp: fun_eq_iff map_add_def split: option.split)
    then have "two_leaves t' (f(key \<mapsto> val))"
      using ok l' False unfolding two_leaves_def t'_def by (intro exI [of _ l'] exI [of _ r] exI [of _ s]) simp
    moreover have "\<exists>evs. btree_insert M key val t = Some (t', evs) \<and> disciplined {} evs"
      using False ok by (simp add: btree_insert_def t Let_def dw is_safe_for_insert_def insert_Diff_if t'_def l'_def)
    ultimately show ?thesis by blast
  qed
qed

text \<open>Insertions one after the other.\<close>

fun btree_inserts :: "nat \<Rightarrow> ('k::linorder \<times> 'v) list \<Rightarrow> ('k, 'v) ConcurrentBTree \<Rightarrow> ('k, 'v) ConcurrentBTree option" where
  "btree_inserts M [] t = Some t"
| "btree_inserts M (p # ps) t =
     (case btree_insert M (fst p) (snd p) t of None \<Rightarrow> None | Some (t', evs) \<Rightarrow> btree_inserts M ps t')"

lemma btree_inserts_rel:
  "btree_rel t f \<Longrightarrow> \<exists>t'. btree_inserts M ps t = Some t' \<and> btree_rel t' (f ++ map_of (rev ps))"
proof (induction ps arbitrary: t f)
  case Nil
  then show ?case by simp
next
  case (Cons p ps)
  then obtain t1 evs where t1: "btree_insert M (fst p) (snd p) t = Some (t1, evs)" "btree_rel t1 (f(fst p \<mapsto> snd p))"
    using insert_one [of t f M "fst p" "snd p"] insert_two [of t f M "fst p" "snd p"] unfolding btree_rel_def by blast
  have "(f(fst p \<mapsto> snd p)) ++ map_of (rev ps) = f ++ map_of (rev (p # ps))" by (cases p) simp
  then have "\<exists>t'. btree_inserts M ps t1 = Some t' \<and> btree_rel t' (f ++ map_of (rev (p # ps)))"
    using Cons.IH [OF t1(2)] by (simp only:)
  then show ?case unfolding btree_inserts.simps t1(1) option.case prod.case .
qed

text \<open>
  C16: for every \<open>MaxKeys\<close> and every sequence of insertions the tree is the map of the last values: each
  insertion and each search terminates, the search returns what the map holds, and both use their
  latches hand over hand, releasing every one they take. However many keys are inserted, the tree has
  at most a root and two leaves, since only a root that is a leaf is ever split.
\<close>

theorem btree_is_map:
  fixes ps :: "('k::linorder \<times> 'v) list"
  shows "\<exists>t. btree_inserts M ps btree_init = Some t \<and> length (nodes t) \<le> 3 \<and>
     (\<exists>evs. btree_search key t = Some (map_of (rev ps) key, evs) \<and> disciplined {} evs) \<and>
     (\<exists>t' evs. btree_insert M key val t = Some (t', evs) \<and> disciplined {} evs)"
proof -
  have "btree_rel btree_init (Map.empty :: 'k \<rightharpoonup> 'v)"
    by (simp add: btree_rel_def one_leaf_def btree_init_def leaf_ok_def leaf_map_def mk_leaf_def)
  then obtain t where t: "btree_inserts M ps btree_init = Some t" "btree_rel t (map_of (rev ps))"
    using btree_inserts_rel [of btree_init Map.empty M ps] by auto
  have "\<exists>evs. btree_search key t = Some (map_of (rev ps) key, evs) \<and> disciplined {} evs"
    using t(2) search_one [of t _ key] search_two [of t _ key] unfolding btree_rel_def by blast
  moreover have "\<exists>t' evs. btree_insert M key val t = Some (t', evs) \<and> disciplined {} evs"
    using t(2) insert_one [of t _ M key val] insert_two [of t _ M key val] unfolding btree_rel_def by blast
  moreover have "length (nodes t) \<le> 3" using t(2) by (auto simp: btree_rel_def one_leaf_def two_leaves_def)
  ultimately show ?thesis using t(1) by blast
qed

end
