(* ===== verification/Fast_Logger.thy ===== *)
theory Fast_Logger
  imports Ring_Fifo
begin

text \<open>
  The logger of \<open>common/logger.hpp\<close>: number formatting, the raw writer that retries short writes, and
  the ring of fixed-size records between \<open>log\<close> and \<open>flush\<close>. Characters that a function stores through
  an advancing pointer are the list it appends. The results of \<open>::write\<close> and the clock are arguments;
  \<open>Capacity\<close> is an argument, as it is of the template. A record that does not fit into its payload
  array is \<open>None\<close>: the code writes past the array.
\<close>

subsection \<open>Number formatting\<close>

definition DIGITS :: string where
  "DIGITS = ''00010203040506070809101112131415161718192021222324252627282930313233343536373839404142434445464748495051525354555657585960616263646566676869707172737475767778798081828384858687888990919293949596979899''"

definition HEX_DIGITS :: string where
  "HEX_DIGITS = ''0123456789ABCDEF''"

definition digit_pair :: "u64 \<Rightarrow> string" where
  "digit_pair r = take 2 (drop (2 * unat r) DIGITS)"

function write_pairs :: "u64 \<Rightarrow> string \<Rightarrow> u64 \<times> string" where
  "write_pairs val p = (if val \<ge> 100 then write_pairs (val div 100) (digit_pair (val mod 100) @ p) else (val, p))"
  by pat_completeness auto

termination
  by (relation "measure (\<lambda>(v, p). unat v)") (auto simp: word_le_nat_alt unat_div)

definition write_uint64 :: "u64 \<Rightarrow> string" where
  "write_uint64 val =
     (if val = 0 then ''0''
      else case write_pairs val [] of (v, p) \<Rightarrow> if v < 10 then char_of (48 + unat v) # p else digit_pair v @ p)"

definition write_int64 :: "u64 \<Rightarrow> string" where
  "write_int64 val = (if sint val < 0 then CHR ''-'' # write_uint64 (- val) else write_uint64 val)"

text \<open>The loop of \<open>write_hex64\<close> with \<open>n\<close> nibbles left, the next shift being \<open>4 * (n - 1)\<close>.\<close>

fun hex_loop :: "nat \<Rightarrow> bool \<Rightarrow> u64 \<Rightarrow> string" where
  "hex_loop 0 leading_zero val = []"
| "hex_loop (Suc m) leading_zero val =
     (let nibble = unat ((drop_bit (4 * m) val) AND 15)
      in if nibble \<noteq> 0 \<or> \<not> leading_zero \<or> m = 0 then HEX_DIGITS ! nibble # hex_loop m False val
         else hex_loop m leading_zero val)"

definition write_hex64 :: "u64 \<Rightarrow> string" where
  "write_hex64 val = ''0x'' @ hex_loop 16 True val"

declare write_pairs.simps [simp del]

subsection \<open>The raw writer\<close>

text \<open>The characters that reach the descriptor and the results of \<open>::write\<close> not used.\<close>

fun write_raw :: "int list \<Rightarrow> string \<Rightarrow> string \<times> int list" where
  "write_raw [] str = ([], [])"
| "write_raw (r # rs) str =
     (if str = [] then ([], r # rs)
      else if r \<le> 0 then ([], rs)
      else case write_raw rs (drop (nat r) str) of (out, rs') \<Rightarrow> (take (nat r) str @ out, rs'))"

text \<open>Several pieces one after the other, as the crash report is written.\<close>

fun write_all :: "int list \<Rightarrow> string list \<Rightarrow> string \<times> int list" where
  "write_all rs [] = ([], rs)"
| "write_all rs (s # ss) = (case write_raw rs s of (out, rs') \<Rightarrow> case write_all rs' ss of (outs, rs'') \<Rightarrow> (out @ outs, rs''))"

definition crash_rule :: string where
  "crash_rule = CHR 0x0A # replicate 55 (CHR ''='') @ [CHR 0x0A]"

definition log_crash :: "int list \<Rightarrow> u64 \<Rightarrow> string option \<Rightarrow> u64 \<Rightarrow> string \<times> int list" where
  "log_crash rs sig signame fault_addr = write_all rs
     [crash_rule, '' [FATAL SIGNAL] Caught signal: '', write_uint64 sig, '' ('',
      case signame of Some n \<Rightarrow> n | None \<Rightarrow> ''UNKNOWN'', '')'' @ [CHR 0x0A] @ '' Faulting Memory Address: '', write_hex64 fault_addr, crash_rule]"

subsection \<open>Records and the ring\<close>

datatype Level = TRACE | DEBUG | INFO | WARN | ERROR | FATAL

fun level_code :: "Level \<Rightarrow> nat" where
  "level_code TRACE = 0"
| "level_code DEBUG = 1"
| "level_code INFO = 2"
| "level_code WARN = 3"
| "level_code ERROR = 4"
| "level_code FATAL = 5"


record LogMessage =
  timestamp_ns :: u64
  msg_level :: Level
  msg_length :: u16
  msg_payload :: string

definition MAX_PAYLOAD_SIZE :: nat where
  "MAX_PAYLOAD_SIZE = 256"

text \<open>The kinds of argument that \<open>format_arg\<close> tells apart; a floating-point one is given by its two truncated parts.\<close>

datatype LogArg = AStr string | ASigned u64 | AUnsigned u64 | APointer u64 | AFloat u64 u64

definition render_float :: "u64 \<Rightarrow> u64 \<Rightarrow> string" where
  "render_float integer_part frac_part =
     write_int64 integer_part @ ''.'' @ (if sint frac_part < 100 then ''0'' else '''') @ (if sint frac_part < 10 then ''0'' else '''') @
     write_int64 frac_part"

definition format_arg :: "string \<Rightarrow> LogArg \<Rightarrow> string" where
  "format_arg out a =
     (let end_ptr = MAX_PAYLOAD_SIZE - 2 in
      if length out \<ge> end_ptr then out
      else case a of
          AStr s \<Rightarrow> out @ take (end_ptr - length out) s
        | ASigned w \<Rightarrow> out @ write_int64 w
        | AUnsigned w \<Rightarrow> out @ write_uint64 w
        | APointer w \<Rightarrow> out @ write_hex64 w
        | AFloat i f \<Rightarrow> out @ render_float i f)"

definition format_args :: "LogArg list \<Rightarrow> string" where
  "format_args args = foldl format_arg [] args @ [CHR 0x0A]"

record FastLogger =
  log_head :: u64
  log_tail :: u64
  dropped_count :: u64
  min_level :: Level
  log_ring :: "LogMessage list"

definition empty_message :: LogMessage where
  "empty_message = \<lparr>timestamp_ns = 0, msg_level = INFO, msg_length = 0, msg_payload = replicate MAX_PAYLOAD_SIZE (CHR 0x00)\<rparr>"

definition logger_init :: "u64 \<Rightarrow> FastLogger" where
  "logger_init Capacity = \<lparr>log_head = 0, log_tail = 0, dropped_count = 0, min_level = INFO,
     log_ring = replicate (unat Capacity) empty_message\<rparr>"


text \<open>The record overwrites the beginning of the payload array of its slot.\<close>

definition store_record :: "u64 \<Rightarrow> Level \<Rightarrow> string \<Rightarrow> LogMessage \<Rightarrow> LogMessage" where
  "store_record now lvl text m =
     m\<lparr>timestamp_ns := now, msg_level := lvl, msg_length := of_nat (length text), msg_payload := text @ drop (length text) (msg_payload m)\<rparr>"

definition fast_log :: "u64 \<Rightarrow> u64 \<Rightarrow> Level \<Rightarrow> LogArg list \<Rightarrow> FastLogger \<Rightarrow> (bool \<times> FastLogger) option" where
  "fast_log Capacity now lvl args l =
     (if level_code lvl < level_code (min_level l) then Some (False, l)
      else let current_tail = log_tail l; current_head = log_head l
      in if current_tail - current_head \<ge> Capacity then Some (False, l\<lparr>dropped_count := dropped_count l + 1\<rparr>)
      else let i = unat (current_tail AND (Capacity - 1)); text = format_args args
      in if length text > MAX_PAYLOAD_SIZE then None
      else Some (True, l\<lparr>log_ring := (log_ring l)[i := store_record now lvl text (log_ring l ! i)], log_tail := current_tail + 1\<rparr>))"





subsection \<open>What the formatted numbers mean\<close>

definition digit_value :: "char \<Rightarrow> nat" where
  "digit_value c = of_char c - 48"

definition is_digit :: "char \<Rightarrow> bool" where
  "is_digit c \<longleftrightarrow> 48 \<le> (of_char c :: nat) \<and> (of_char c :: nat) \<le> 57"

definition dec_value :: "string \<Rightarrow> nat" where
  "dec_value s = foldl (\<lambda>n c. 10 * n + digit_value c) 0 s"

definition int_value :: "string \<Rightarrow> int" where
  "int_value s = (case s of [] \<Rightarrow> 0 | c # cs \<Rightarrow> if c = CHR ''-'' then - int (dec_value cs) else int (dec_value s))"

definition hex_digit_value :: "char \<Rightarrow> nat" where
  "hex_digit_value c = (if is_digit c then digit_value c else of_char c - 55)"

definition hex_value :: "string \<Rightarrow> nat" where
  "hex_value s = foldl (\<lambda>n c. 16 * n + hex_digit_value c) 0 s"

lemma foldl_base:
  fixes b :: nat
  shows "foldl (\<lambda>n c. b * n + f c) a s = a * b ^ length s + foldl (\<lambda>n c. b * n + f c) 0 s"
proof (induction s arbitrary: a)
  case Nil
  then show ?case by simp
next
  case (Cons c s)
  show ?case using Cons.IH [of "b * a + f c"] Cons.IH [of "f c"] by (simp add: algebra_simps)
qed

lemma dec_value_Nil [simp]: "dec_value [] = 0"
  by (simp add: dec_value_def)

lemma dec_value_append: "dec_value (a @ b) = dec_value a * 10 ^ length b + dec_value b"
  unfolding dec_value_def foldl_append by (rule foldl_base)

lemma dec_value_Cons: "dec_value (c # s) = digit_value c * 10 ^ length s + dec_value s"
  using dec_value_append [of "[c]" s] by (simp add: dec_value_def)

text \<open>The table holds the pairs of digits in order.\<close>

definition pair_of :: "nat \<Rightarrow> string" where
  "pair_of r = [char_of (48 + r div 10), char_of (48 + r mod 10)]"

lemma DIGITS_pairs: "DIGITS = concat (map pair_of [0..<100])"
  by code_simp

lemma digit_char:
  assumes "d < 10"
  shows "digit_value (char_of (48 + d)) = d" "is_digit (char_of (48 + d))"
  using assms by (simp_all add: digit_value_def is_digit_def)

lemma digit_pair_value:
  assumes "r < 100"
  shows "digit_pair r = [char_of (48 + unat r div 10), char_of (48 + unat r mod 10)]"
    "dec_value (digit_pair r) = unat r" "list_all is_digit (digit_pair r)" "length (digit_pair r) = 2"
proof -
  have r: "unat r < 100" using assms by (simp add: word_less_nat_alt)
  have "digit_pair r = pair_of (unat r)"
    using r concat_slice [of pair_of 2 "unat r" "[0..<100]" "[]"] unfolding digit_pair_def DIGITS_pairs by (simp add: pair_of_def)
  then show p: "digit_pair r = [char_of (48 + unat r div 10), char_of (48 + unat r mod 10)]"
    by (simp add: pair_of_def)
  have "unat r div 10 < 10" "unat r mod 10 < 10" using r by simp_all
  then show "dec_value (digit_pair r) = unat r" "list_all is_digit (digit_pair r)" "length (digit_pair r) = 2"
    unfolding p by (simp_all add: dec_value_Cons digit_char)
qed

lemma write_pairs_value:
  assumes "list_all is_digit p"
  shows "case write_pairs v p of (v', p') \<Rightarrow>
    unat v * 10 ^ length p + dec_value p = unat v' * 10 ^ length p' + dec_value p' \<and> v' < 100 \<and> (v \<noteq> 0 \<longrightarrow> v' \<noteq> 0) \<and> list_all is_digit p'"
  using assms
proof (induction v p rule: write_pairs.induct)
  case (1 v p)
  show ?case
  proof (cases "v \<ge> 100")
    case True
    have m: "v mod 100 < 100" by (simp add: word_less_nat_alt unat_mod)
    note dp = digit_pair_value(2-4) [OF m]
    have nz: "v div 100 \<noteq> 0"
    proof
      assume "v div 100 = 0"
      then have "unat v div 100 = 0" using unat_div [of v 100] by simp
      then show False using True by (simp add: word_le_nat_alt)
    qed
    have um: "unat v = 100 * unat (v div 100) + unat (v mod 100)" by (simp add: unat_div unat_mod)
    have "list_all is_digit (digit_pair (v mod 100) @ p)" using dp(2) 1(2) by simp
    note IH = 1(1) [OF True this]
    have "unat v * 10 ^ length p + dec_value p =
        unat (v div 100) * 10 ^ length (digit_pair (v mod 100) @ p) + dec_value (digit_pair (v mod 100) @ p)"
      unfolding um dec_value_append using dp by (simp add: algebra_simps)
    then show ?thesis using IH nz True unfolding write_pairs.simps [of v p] by (auto split: prod.splits)
  next
    case False
    then show ?thesis using 1(2) unfolding write_pairs.simps [of v p] by simp
  qed
qed

lemma write_uint64_value:
  "dec_value (write_uint64 v) = unat v \<and> list_all is_digit (write_uint64 v) \<and> write_uint64 v \<noteq> [] \<and>
   (v \<noteq> 0 \<longrightarrow> digit_value (hd (write_uint64 v)) \<noteq> 0)"
proof (cases "v = 0")
  case True
  then show ?thesis by (simp add: write_uint64_def dec_value_def digit_value_def is_digit_def)
next
  case False
  obtain w p where wp: "write_pairs v [] = (w, p)" by fastforce
  have w: "unat v = unat w * 10 ^ length p + dec_value p" "w < 100" "w \<noteq> 0" "list_all is_digit p"
    using write_pairs_value [of "[]" v] False by (simp_all add: wp)
  have w0: "0 < unat w" using w(3) by (simp add: unat_gt_0)
  show ?thesis
  proof (cases "w < 10")
    case True
    then have "unat w < 10" by (simp add: word_less_nat_alt)
    then show ?thesis using True False w w0 wp by (simp add: write_uint64_def dec_value_Cons digit_char)
  next
    case tens: False
    note dp = digit_pair_value [OF w(2)]
    have "10 \<le> unat w" using tens by (simp add: word_less_nat_alt not_less)
    then have "0 < unat w div 10" "unat w div 10 < 10" using w(2) by (simp_all add: word_less_nat_alt)
    then have "digit_value (hd (digit_pair w)) \<noteq> 0" unfolding dp(1) by (simp add: digit_char)
    moreover have "write_uint64 v = digit_pair w @ p" using tens False wp by (simp add: write_uint64_def)
    moreover have "digit_pair w \<noteq> []" using dp(4) by auto
    ultimately show ?thesis using w dp(2,3) by (simp add: dec_value_append)
  qed
qed

lemma write_uint64_length: "length (write_uint64 v) \<le> 20"
proof (rule ccontr)
  assume long: "\<not> length (write_uint64 v) \<le> 20"
  have v0: "v \<noteq> 0" using long by (auto simp: write_uint64_def)
  obtain c s where cs: "write_uint64 v = c # s" using write_uint64_value [of v] by (cases "write_uint64 v") auto
  have "10 ^ 20 \<le> (10 :: nat) ^ length s" using long cs by (intro power_increasing) simp_all
  also have "\<dots> \<le> digit_value c * 10 ^ length s" using write_uint64_value [of v] v0 cs by simp
  also have "\<dots> \<le> unat v" using write_uint64_value [of v] cs by (simp add: dec_value_Cons)
  finally show False using unat_u64_less [of v] by simp
qed

lemma sint_range: "- (2 ^ 63) \<le> sint (w :: u64)" "sint (w :: u64) < 2 ^ 63"
  using sint_ge [of w] sint_lt [of w] by simp_all

lemma unat_sint:
  "int (unat (w :: u64)) = (if sint w < 0 then sint w + 2 ^ 64 else sint w)"
proof -
  have "int (unat w) = sint w mod 2 ^ 64"
    using uint_sint [of w] by (simp add: take_bit_eq_mod)
  also have "\<dots> = (if sint w < 0 then sint w + 2 ^ 64 else sint w)"
  proof (cases "sint w < 0")
    case True
    then have "(sint w + 2 ^ 64) mod 2 ^ 64 = sint w + 2 ^ 64" using sint_range(1) [of w] by (intro mod_pos_pos_trivial) simp_all
    then show ?thesis using True by simp
  next
    case False
    then show ?thesis using sint_range(2) [of w] by simp
  qed
  finally show ?thesis .
qed

lemma write_int64_value: "int_value (write_int64 w) = sint w"
proof (cases "sint w < 0")
  case True
  have w0: "w \<noteq> 0" using True by auto
  have "- w = of_nat (18446744073709551616 - unat w)" using unat_u64_less [of w] by (simp add: of_nat_diff)
  moreover have "0 < unat w" using w0 by (simp add: unat_gt_0)
  ultimately have "unat (- w) = 18446744073709551616 - unat w" using unat_of_nat_u64 [of "18446744073709551616 - unat w"] by simp
  then have "int (unat (- w)) = 2 ^ 64 - int (unat w)" using unat_u64_less [of w] by simp
  then show ?thesis
    using True unat_sint [of w] write_uint64_value [of "- w"] by (simp add: write_int64_def int_value_def)
next
  case False
  obtain c s where cs: "write_uint64 w = c # s" using write_uint64_value [of w] by (cases "write_uint64 w") auto
  then have "is_digit c" using write_uint64_value [of w] by simp
  then have "c \<noteq> CHR ''-''" by (auto simp: is_digit_def)
  then show ?thesis
    using False unat_sint [of w] write_uint64_value [of w] cs by (simp add: write_int64_def int_value_def)
qed

text \<open>Hexadecimal digits.\<close>

lemma hex_value_Cons: "hex_value (c # s) = hex_digit_value c * 16 ^ length s + hex_value s"
  unfolding hex_value_def by (simp add: foldl_base [of 16 hex_digit_value "hex_digit_value c" s])

lemma HEX_DIGITS_value: "n < 16 \<Longrightarrow> hex_digit_value (HEX_DIGITS ! n) = n"
proof -
  have "list_all (\<lambda>n. hex_digit_value (HEX_DIGITS ! n) = n) [0..<16]" by code_simp
  then show "n < 16 \<Longrightarrow> hex_digit_value (HEX_DIGITS ! n) = n" by (simp add: list_all_iff)
qed

lemma length_hex_loop: "length (hex_loop n False v) = n" "length (hex_loop n b v) \<le> n"
  by (induction n arbitrary: b) (auto simp: Let_def intro: le_SucI)

lemma nibble_value: "unat (drop_bit (4 * m) (v :: u64) AND 15) = (unat v div 16 ^ m) mod 16"
proof -
  have "unat (drop_bit (4 * m) v AND 15) = unat (drop_bit (4 * m) v) mod 2 ^ 4"
    using unat_mask_pow2 [of "drop_bit (4 * m) v" 4] by (simp add: mask_eq_exp_minus_1)
  also have "unat (drop_bit (4 * m) v) = unat v div 2 ^ (4 * m)"
    using unat_u64_less [of v] by (simp only: unsigned_drop_bit_eq) (simp add: drop_bit_eq_div take_bit_nat_eq_self)
  finally show ?thesis by (simp add: power_mult)
qed

lemma hex_loop_value: "0 < n \<or> \<not> b \<Longrightarrow> hex_value (hex_loop n b v) = unat v mod 16 ^ n"
proof (induction n arbitrary: b)
  case 0
  then show ?case by (simp add: hex_value_def)
next
  case (Suc m)
  define d where "d = (unat v div 16 ^ m) mod 16"
  have d: "unat (drop_bit (4 * m) v AND 15) = d" "d < 16" by (simp_all add: nibble_value d_def)
  have split: "unat v mod 16 ^ Suc m = d * 16 ^ m + unat v mod 16 ^ m"
    using mod_mult2_eq [of "unat v" "16 ^ m" 16] by (simp add: d_def algebra_simps)
  show ?case
  proof (cases "d \<noteq> 0 \<or> \<not> b \<or> m = 0")
    case True
    then have "hex_loop (Suc m) b v = HEX_DIGITS ! d # hex_loop m False v" by (simp add: d(1) Let_def)
    then show ?thesis
      using Suc.IH [of False] by (simp only: hex_value_Cons length_hex_loop(1) HEX_DIGITS_value [OF d(2)] split) simp
  next
    case False
    then have l: "hex_loop (Suc m) b v = hex_loop m b v" by (simp add: d(1) Let_def)
    show ?thesis unfolding l using Suc.IH [of b] False split by simp
  qed
qed

text \<open>
  The hand-written number formatting is exact: the decimal digits of every 64-bit value, with no
  leading zero and at most twenty of them, so that the temporary buffer suffices; the signed value
  with its sign, the least one included; and the hexadecimal value after the prefix.
\<close>

theorem number_formatting_exact:
  "dec_value (write_uint64 v) = unat v \<and> list_all is_digit (write_uint64 v) \<and> length (write_uint64 v) \<le> 20 \<and>
   (v \<noteq> 0 \<longrightarrow> digit_value (hd (write_uint64 v)) \<noteq> 0) \<and>
   int_value (write_int64 v) = sint v \<and>
   take 2 (write_hex64 v) = ''0x'' \<and> hex_value (drop 2 (write_hex64 v)) = unat v \<and> length (write_hex64 v) \<le> 18"
proof -
  have "hex_value (hex_loop 16 True v) = unat v"
    using hex_loop_value [of 16 True v] unat_u64_less [of v] by simp
  moreover have "length (hex_loop 16 True v) \<le> 16" by (rule length_hex_loop(2))
  ultimately show ?thesis
    using write_uint64_value [of v] write_uint64_length [of v] write_int64_value [of v] by (simp add: write_hex64_def)
qed


theorem number_formatting_exact_witness:
  "digit_value (hd (write_uint64 18446744073709551615)) \<noteq> 0 \<and> dec_value (write_uint64 18446744073709551615) = 18446744073709551615 \<and>
   int_value (write_int64 18446744073709551615) = - 1 \<and> hex_value (drop 2 (write_hex64 18446744073709551615)) = 18446744073709551615"
  using number_formatting_exact [of 18446744073709551615] by simp

subsection \<open>The logger as a queue of lines\<close>

text \<open>The raw writer delivers everything when every \<open>::write\<close> makes progress.\<close>

lemma write_raw_all:
  assumes "list_all (\<lambda>r. 0 < r) rs" "length s \<le> length rs"
  shows "\<exists>n\<le>length s. write_raw rs s = (s, drop n rs)"
  using assms
proof (induction rs arbitrary: s)
  case Nil
  then show ?case by simp
next
  case (Cons r rs)
  show ?case
  proof (cases "s = []")
    case True
    then show ?thesis by simp
  next
    case False
    have r: "0 < r" "list_all (\<lambda>r. 0 < r) rs" using Cons.prems(1) by simp_all
    have l: "length (drop (nat r) s) < length s" using r(1) False by (simp add: diff_less)
    then obtain n where n: "n \<le> length (drop (nat r) s)" "write_raw rs (drop (nat r) s) = (drop (nat r) s, drop n rs)"
      using Cons.IH [OF r(2), of "drop (nat r) s"] Cons.prems(2) by auto
    have "write_raw (r # rs) s = (s, drop (Suc n) (r # rs))" using False r(1) n(2) by simp
    moreover have "Suc n \<le> length s" using n(1) l by linarith
    ultimately show ?thesis by blast
  qed
qed

lemma write_all_all:
  assumes "list_all (\<lambda>r. 0 < r) rs" "length (concat ss) \<le> length rs"
  shows "fst (write_all rs ss) = concat ss"
  using assms
proof (induction ss arbitrary: rs)
  case Nil
  then show ?case by simp
next
  case (Cons s ss)
  then obtain n where n: "n \<le> length s" "write_raw rs s = (s, drop n rs)"
    using write_raw_all [of rs s] by auto
  have "list_all (\<lambda>r. 0 < r) (drop n rs)" using Cons.prems(1) by (auto simp: list_all_iff dest: in_set_dropD)
  then have "fst (write_all (drop n rs) ss) = concat ss" using Cons.IH Cons.prems(2) n(1) by simp
  then show ?case by (auto simp: n(2) split: prod.splits)
qed

















subsection \<open>Records that overrun their payload\<close>

lemma dec_value_bound: "list_all is_digit s \<Longrightarrow> dec_value s < 10 ^ length s"
proof (induction s)
  case Nil
  then show ?case by simp
next
  case (Cons c s)
  have "digit_value c \<le> 9" using Cons.prems by (auto simp: is_digit_def digit_value_def)
  then have "digit_value c * 10 ^ length s \<le> 9 * 10 ^ length s" by (rule mult_right_mono) simp
  moreover have "dec_value s < 10 ^ length s" using Cons by simp
  moreover have "(10 :: nat) ^ length (c # s) = 10 * 10 ^ length s" by simp
  ultimately show ?case unfolding dec_value_Cons by linarith
qed

lemma write_uint64_long:
  assumes "100 \<le> v"
  shows "3 \<le> length (write_uint64 v)"
proof (rule ccontr)
  assume "\<not> 3 \<le> length (write_uint64 v)"
  then have "(10 :: nat) ^ length (write_uint64 v) \<le> 10 ^ 2" by (intro power_increasing) simp_all
  moreover have "unat v < 10 ^ length (write_uint64 v)"
    using dec_value_bound [of "write_uint64 v"] write_uint64_value [of v] by simp
  ultimately show False using assms by (simp add: word_le_nat_alt)
qed

text \<open>
  C38: the check against the end of the payload looks only at where a number starts. A text that leaves
  one free character followed by a number of three digits is accepted and written past the 256
  characters of the record.
\<close>

theorem logger_record_overrun:
  assumes "k < 64" "length s = 253" "100 \<le> v"
  shows "fast_log (2 ^ k) now FATAL [AStr s, AUnsigned v] (logger_init (2 ^ k)) = None"
proof -
  have "length (format_args [AStr s, AUnsigned v]) > 256"
    using assms(2) write_uint64_long [OF assms(3)] by (simp add: format_args_def format_arg_def MAX_PAYLOAD_SIZE_def Let_def)
  moreover have "\<not> (2 :: u64) ^ k \<le> 0" using capacity_word [OF assms(1)] by (simp add: word_le_nat_alt)
  ultimately show ?thesis by (simp add: fast_log_def logger_init_def MAX_PAYLOAD_SIZE_def Let_def)
qed

theorem logger_record_overrun_witness:
  "fast_log 4096 7 FATAL [AStr (replicate 253 (CHR ''x'')), AUnsigned 100] (logger_init 4096) = None"
  using logger_record_overrun [of 12 "replicate 253 (CHR ''x'')" 100 7] by simp



end
