(* ===== verification/Text_Format.thy ===== *)
theory Text_Format
  imports Sys_Prelude
begin

text \<open>
  What the reports use of output streams: numbers in base ten and sixteen with lower-case digits, padding to a width,
  and reading them back.
\<close>

subsection \<open>Numbers and padding\<close>

definition digit_char :: "nat \<Rightarrow> char" where
  "digit_char d = (if d < 10 then char_of (48 + d) else char_of (87 + d))"

fun base_str :: "nat \<Rightarrow> nat \<Rightarrow> string" where
  "base_str b n = (if b < 2 \<or> n < b then [digit_char n] else base_str b (n div b) @ [digit_char (n mod b)])"

declare base_str.simps [simp del]

definition dec_str :: "'a::len word \<Rightarrow> string" where
  "dec_str w = base_str 10 (unat w)"

definition hex_str :: "'a::len word \<Rightarrow> string" where
  "hex_str w = base_str 16 (unat w)"

definition pad_left :: "nat \<Rightarrow> char \<Rightarrow> string \<Rightarrow> string" where
  "pad_left n c s = replicate (n - length s) c @ s"

definition pad_right :: "nat \<Rightarrow> char \<Rightarrow> string \<Rightarrow> string" where
  "pad_right n c s = s @ replicate (n - length s) c"

definition nl :: string where
  "nl = [CHR 0x0A]"

subsection \<open>Reading numbers back\<close>

lemma base_str_digit [simp]: "n < b \<Longrightarrow> base_str b n = [digit_char n]"
  by (subst base_str.simps) simp

lemma base_str_step: "2 \<le> b \<Longrightarrow> b \<le> n \<Longrightarrow> base_str b n = base_str b (n div b) @ [digit_char (n mod b)]"
  by (subst base_str.simps) auto

definition digit_of :: "char \<Rightarrow> nat" where
  "digit_of c = (if of_char c < (58::nat) then of_char c - 48 else of_char c - 87)"

definition base_value :: "nat \<Rightarrow> string \<Rightarrow> nat" where
  "base_value b s = foldl (\<lambda>v c. v * b + digit_of c) 0 s"

lemma digit_of_char: "d < 16 \<Longrightarrow> digit_of (digit_char d) = d"
  by (auto simp: digit_of_def digit_char_def of_char_of)

lemma base_value_str: "2 \<le> b \<Longrightarrow> b \<le> 16 \<Longrightarrow> base_value b (base_str b n) = n"
proof (induction b n rule: base_str.induct)
  case (1 b n)
  show ?case
  proof (cases "n < b")
    case True
    then show ?thesis using 1 by (simp add: base_value_def digit_of_char)
  next
    case False
    have d: "n mod b < 16" using "1.prems" by (meson less_le_trans mod_less_divisor pos2 zero_less_numeral order_less_le_trans)
    show ?thesis using 1 False d by (simp add: base_str_step base_value_def digit_of_char)
  qed
qed

lemma base_value_zeros: "base_value b (replicate k CHR ''0'' @ s) = base_value b s"
  by (induction k) (simp_all add: base_value_def digit_of_def)

lemma length_base_str: "2 \<le> b \<Longrightarrow> n < b ^ k \<Longrightarrow> 0 < k \<Longrightarrow> length (base_str b n) \<le> k"
proof (induction b n arbitrary: k rule: base_str.induct)
  case (1 b n)
  show ?case
  proof (cases "n < b")
    case True
    then show ?thesis using 1 by simp
  next
    case False
    obtain j where k: "k = Suc j" using "1.prems"(3) by (cases k) auto
    have "0 < j" using False "1.prems"(2) by (cases j) (auto simp: k)
    moreover have "n div b < b ^ j" using "1.prems" by (simp add: k less_mult_imp_div_less mult.commute)
    ultimately have "length (base_str b (n div b)) \<le> j" using 1 False by simp
    then show ?thesis using False "1.prems"(1) by (simp add: base_str_step k)
  qed
qed

lemma hex_column:
  fixes w :: u64
  shows "length (pad_left 16 CHR ''0'' (hex_str w)) = 16"
    and "base_value 16 (pad_left 16 CHR ''0'' (hex_str w)) = unat w"
proof -
  have "unat w < 16 ^ 16" using unat_u64_less [of w] by simp
  then have "length (hex_str w) \<le> 16" unfolding hex_str_def by (intro length_base_str) simp_all
  then show "length (pad_left 16 CHR ''0'' (hex_str w)) = 16" by (simp add: pad_left_def)
  show "base_value 16 (pad_left 16 CHR ''0'' (hex_str w)) = unat w"
    by (simp add: pad_left_def base_value_zeros hex_str_def base_value_str)
qed

end
