(* ===== verification/Elf_Inspector.thy ===== *)
theory Elf_Inspector
  imports Byte_Codec Text_Format "HOL-Library.Monad_Syntax"
begin

text \<open>
  The 64-bit ELF inspector (\<^verbatim>\<open>lightweight_elf_inspector/elf_inspector.hpp\<close> and its \<^verbatim>\<open>main.cpp\<close>): parsing of
  the header, the program and the section headers from a byte buffer, and the report. A copy out of
  the buffer that leaves it, and a name that runs past its end, are undefined in the program; the
  model returns \<open>None\<close> there. The structures and constants are those of the ELF specification.
\<close>

subsection \<open>Structures of the file format\<close>

record Elf64_Ehdr =
  e_ident :: bytes
  e_type :: u16
  e_machine :: u16
  e_version :: u32
  e_entry :: u64
  e_phoff :: u64
  e_shoff :: u64
  e_flags :: u32
  e_ehsize :: u16
  e_phentsize :: u16
  e_phnum :: u16
  e_shentsize :: u16
  e_shnum :: u16
  e_shstrndx :: u16

record Elf64_Phdr =
  p_type :: u32
  p_flags :: u32
  p_offset :: u64
  p_vaddr :: u64
  p_paddr :: u64
  p_filesz :: u64
  p_memsz :: u64
  p_align :: u64

record Elf64_Shdr =
  sh_name :: u32
  sh_type :: u32
  sh_flags :: u64
  sh_addr :: u64
  sh_offset :: u64
  sh_size :: u64
  sh_link :: u32
  sh_info :: u32
  sh_addralign :: u64
  sh_entsize :: u64

definition field :: "nat \<Rightarrow> nat \<Rightarrow> bytes \<Rightarrow> 'a::len word" where
  "field a n bs = of_nat (le_nat (take n (drop a bs)))"

definition to_ehdr :: "bytes \<Rightarrow> Elf64_Ehdr" where
  "to_ehdr bs = \<lparr>e_ident = take 16 bs, e_type = field 16 2 bs, e_machine = field 18 2 bs,
     e_version = field 20 4 bs, e_entry = field 24 8 bs, e_phoff = field 32 8 bs, e_shoff = field 40 8 bs,
     e_flags = field 48 4 bs, e_ehsize = field 52 2 bs, e_phentsize = field 54 2 bs,
     e_phnum = field 56 2 bs, e_shentsize = field 58 2 bs, e_shnum = field 60 2 bs,
     e_shstrndx = field 62 2 bs\<rparr>"

definition to_phdr :: "bytes \<Rightarrow> Elf64_Phdr" where
  "to_phdr bs = \<lparr>p_type = field 0 4 bs, p_flags = field 4 4 bs, p_offset = field 8 8 bs,
     p_vaddr = field 16 8 bs, p_paddr = field 24 8 bs, p_filesz = field 32 8 bs, p_memsz = field 40 8 bs,
     p_align = field 48 8 bs\<rparr>"

definition to_shdr :: "bytes \<Rightarrow> Elf64_Shdr" where
  "to_shdr bs = \<lparr>sh_name = field 0 4 bs, sh_type = field 4 4 bs, sh_flags = field 8 8 bs,
     sh_addr = field 16 8 bs, sh_offset = field 24 8 bs, sh_size = field 32 8 bs, sh_link = field 40 4 bs,
     sh_info = field 44 4 bs, sh_addralign = field 48 8 bs, sh_entsize = field 56 8 bs\<rparr>"

definition zero_ehdr :: Elf64_Ehdr where
  "zero_ehdr = to_ehdr (replicate 64 0)"

subsection \<open>What the inspector keeps\<close>

record SegmentFlags =
  flag_read :: bool
  flag_write :: bool
  flag_execute :: bool

definition flags_to_string :: "SegmentFlags \<Rightarrow> string" where
  "flags_to_string f = (if flag_read f then ''R'' else ''-'') @ (if flag_write f then ''W'' else ''-'')
     @ (if flag_execute f then ''X'' else ''-'')"

record ProgramSegment =
  seg_type :: u32
  seg_type_name :: string
  seg_flags :: SegmentFlags
  seg_file_offset :: u64
  seg_vaddr :: u64
  seg_paddr :: u64
  seg_file_size :: u64
  seg_mem_size :: u64
  seg_align :: u64

record SectionInfo =
  sec_name :: string
  sec_type :: u32
  sec_type_name :: string
  sec_flags :: u64
  sec_flags_str :: string
  sec_vaddr :: u64
  sec_file_offset :: u64
  sec_size :: u64
  sec_align :: u64

record Elf64Inspector =
  elf_buffer :: bytes
  elf_header :: Elf64_Ehdr
  elf_segments :: "ProgramSegment list"
  elf_sections :: "SectionInfo list"
  elf_valid :: bool

subsection \<open>Names\<close>

definition get_elf_type_name :: "u16 \<Rightarrow> string" where
  "get_elf_type_name type = (
     if type = 0 then ''NONE (Unknown)''
     else if type = 1 then ''REL (Relocatable object)''
     else if type = 2 then ''EXEC (Executable)''
     else if type = 3 then ''DYN (Position-Independent Executable / Shared Object)''
     else if type = 4 then ''CORE (Core dump)''
     else ''OTHER'')"

definition get_machine_name :: "u16 \<Rightarrow> string" where
  "get_machine_name machine = (
     if machine = 62 then ''Advanced Micro Devices X86-64''
     else if machine = 3 then ''Intel 80386''
     else if machine = 183 then ''ARM AArch64''
     else ''Unknown Machine'')"

definition segment_types :: "(u32 \<times> string) list" where
  "segment_types = [(0, ''PT_NULL''), (1, ''PT_LOAD''), (2, ''PT_DYNAMIC''), (3, ''PT_INTERP''),
     (4, ''PT_NOTE''), (5, ''PT_SHLIB''), (6, ''PT_PHDR''), (7, ''PT_TLS''),
     (0x6474e550, ''PT_GNU_EH_FRAME''), (0x6474e551, ''PT_GNU_STACK''), (0x6474e552, ''PT_GNU_RELRO''),
     (0x6474e553, ''PT_GNU_PROPERTY'')]"

definition get_segment_type_name :: "u32 \<Rightarrow> string" where
  "get_segment_type_name type = (case map_of segment_types type of
     Some name \<Rightarrow> name
   | None \<Rightarrow> ''PT_OTHER (0x'' @ dec_str type @ '')'')"

definition section_types :: "(u32 \<times> string) list" where
  "section_types = [(0, ''SHT_NULL''), (1, ''SHT_PROGBITS''), (2, ''SHT_SYMTAB''), (3, ''SHT_STRTAB''),
     (4, ''SHT_RELA''), (5, ''SHT_HASH''), (6, ''SHT_DYNAMIC''), (7, ''SHT_NOTE''), (8, ''SHT_NOBITS''),
     (9, ''SHT_REL''), (11, ''SHT_DYNSYM''), (14, ''SHT_INIT_ARRAY''), (15, ''SHT_FINI_ARRAY''),
     (0x6ffffff6, ''SHT_GNU_HASH''), (0x6ffffffd, ''SHT_GNU_verdef''), (0x6ffffffe, ''SHT_GNU_verneed''),
     (0x6fffffff, ''SHT_GNU_versym'')]"

definition get_section_type_name :: "u32 \<Rightarrow> string" where
  "get_section_type_name type = (case map_of section_types type of
     Some name \<Rightarrow> name
   | None \<Rightarrow> ''SHT_OTHER'')"

definition flag_letter :: "u64 \<Rightarrow> u64 \<Rightarrow> string \<Rightarrow> string" where
  "flag_letter flags msk c = (if flags AND msk \<noteq> 0 then c else [])"

definition get_section_flags_str :: "u64 \<Rightarrow> string" where
  "get_section_flags_str flags = ''['' @ flag_letter flags 0x1 ''W'' @ flag_letter flags 0x2 ''A''
     @ flag_letter flags 0x4 ''X'' @ flag_letter flags 0x10 ''M'' @ flag_letter flags 0x20 ''S''
     @ flag_letter flags 0x40 ''I'' @ flag_letter flags 0x80 ''L'' @ flag_letter flags 0x100 ''O''
     @ flag_letter flags 0x200 ''G'' @ flag_letter flags 0x400 ''T'' @ '']''"

subsection \<open>Parsing\<close>

definition copy_out :: "bytes \<Rightarrow> nat \<Rightarrow> nat \<Rightarrow> bytes option" where
  "copy_out buf offset n = (if offset + n \<le> length buf then Some (take n (drop offset buf)) else None)"

definition c_string :: "bytes \<Rightarrow> nat \<Rightarrow> string option" where
  "c_string buf offset = (let s = takeWhile (\<lambda>b. b \<noteq> 0) (drop offset buf) in
     if offset + length s < length buf then Some (map (\<lambda>b. char_of (unat b)) s) else None)"

definition to_segment :: "Elf64_Phdr \<Rightarrow> ProgramSegment" where
  "to_segment phdr = \<lparr>seg_type = p_type phdr, seg_type_name = get_segment_type_name (p_type phdr),
     seg_flags = \<lparr>flag_read = p_flags phdr AND 4 \<noteq> 0, flag_write = p_flags phdr AND 2 \<noteq> 0,
       flag_execute = p_flags phdr AND 1 \<noteq> 0\<rparr>,
     seg_file_offset = p_offset phdr, seg_vaddr = p_vaddr phdr, seg_paddr = p_paddr phdr,
     seg_file_size = p_filesz phdr, seg_mem_size = p_memsz phdr, seg_align = p_align phdr\<rparr>"

definition read_segment :: "bytes \<Rightarrow> Elf64_Ehdr \<Rightarrow> nat \<Rightarrow> ProgramSegment option" where
  "read_segment buf h i = (
     let offset = e_phoff h + of_nat i * 56 in
     map_option (\<lambda>bs. to_segment (to_phdr bs)) (copy_out buf (unat offset) 56))"

definition parse_program_headers :: "bytes \<Rightarrow> Elf64_Ehdr \<Rightarrow> ProgramSegment list option" where
  "parse_program_headers buf h = (
     if e_phoff h = 0 \<or> e_phnum h = 0 then Some []
     else let ph_table_end = e_phoff h + ucast (e_phnum h) * 56 in
     if ph_table_end > of_nat (length buf) then Some []
     else those (map (read_segment buf h) [0..<unat (e_phnum h)]))"

definition find_strtab :: "bytes \<Rightarrow> Elf64_Ehdr \<Rightarrow> nat option option" where
  "find_strtab buf h = (
     if e_shstrndx h < e_shnum h then do {
       bs \<leftarrow> copy_out buf (unat (e_shoff h + ucast (e_shstrndx h) * 64)) 64;
       let strtab_hdr = to_shdr bs;
       if sh_offset strtab_hdr + sh_size strtab_hdr \<le> of_nat (length buf)
       then if unat (sh_offset strtab_hdr) \<le> length buf then Some (Some (unat (sh_offset strtab_hdr))) else None
       else Some None
     } else Some None)"

definition to_section :: "Elf64_Shdr \<Rightarrow> string \<Rightarrow> SectionInfo" where
  "to_section shdr name = \<lparr>sec_name = name, sec_type = sh_type shdr,
     sec_type_name = get_section_type_name (sh_type shdr), sec_flags = sh_flags shdr,
     sec_flags_str = get_section_flags_str (sh_flags shdr), sec_vaddr = sh_addr shdr,
     sec_file_offset = sh_offset shdr, sec_size = sh_size shdr, sec_align = sh_addralign shdr\<rparr>"

definition read_section :: "bytes \<Rightarrow> Elf64_Ehdr \<Rightarrow> nat option \<Rightarrow> nat \<Rightarrow> SectionInfo option" where
  "read_section buf h strtab i = do {
     bs \<leftarrow> copy_out buf (unat (e_shoff h + of_nat i * 64)) 64;
     let shdr = to_shdr bs;
     name \<leftarrow> (case strtab of
         Some s \<Rightarrow> if sh_name shdr \<noteq> 0 then c_string buf (s + unat (sh_name shdr)) else Some ''''
       | None \<Rightarrow> Some '''');
     Some (to_section shdr name)
   }"

definition parse_section_headers :: "bytes \<Rightarrow> Elf64_Ehdr \<Rightarrow> SectionInfo list option" where
  "parse_section_headers buf h = (
     if e_shoff h = 0 \<or> e_shnum h = 0 then Some []
     else let sh_table_end = e_shoff h + ucast (e_shnum h) * 64 in
     if sh_table_end > of_nat (length buf) then Some []
     else do {
       strtab \<leftarrow> find_strtab buf h;
       those (map (read_section buf h strtab) [0..<unat (e_shnum h)])
     })"

definition elf64_ident :: "Elf64_Ehdr \<Rightarrow> bool" where
  "elf64_ident h \<longleftrightarrow> e_ident h ! 0 = 0x7f \<and> e_ident h ! 1 = 0x45 \<and> e_ident h ! 2 = 0x4c
     \<and> e_ident h ! 3 = 0x46 \<and> e_ident h ! 4 = 2"

definition elf_parse :: "bytes \<Rightarrow> Elf64Inspector option" where
  "elf_parse buf = (
     if length buf < 64
     then Some \<lparr>elf_buffer = buf, elf_header = zero_ehdr, elf_segments = [], elf_sections = [], elf_valid = False\<rparr>
     else let h = to_ehdr (take 64 buf) in
     if \<not> elf64_ident h
     then Some \<lparr>elf_buffer = buf, elf_header = h, elf_segments = [], elf_sections = [], elf_valid = False\<rparr>
     else do {
       segs \<leftarrow> parse_program_headers buf h;
       secs \<leftarrow> parse_section_headers buf h;
       Some \<lparr>elf_buffer = buf, elf_header = h, elf_segments = segs, elf_sections = secs, elf_valid = True\<rparr>
     })"

subsection \<open>The report\<close>

definition double_rule :: string where
  "double_rule = replicate 72 CHR 0x3D @ nl"

definition single_rule :: string where
  "single_rule = replicate 72 CHR 0x2D @ nl"

definition report_header :: "Elf64_Ehdr \<Rightarrow> string" where
  "report_header h = double_rule @ '' ELF64 Binary Inspection Report'' @ nl @ double_rule
     @ '' Type:             '' @ get_elf_type_name (e_type h) @ '' (0x'' @ hex_str (e_type h) @ '')'' @ nl
     @ '' Machine:          '' @ get_machine_name (e_machine h) @ '' (0x'' @ hex_str (e_machine h) @ '')'' @ nl
     @ '' Entry Point:      0x'' @ pad_left 16 CHR ''0'' (hex_str (e_entry h)) @ nl
     @ '' Program Headers:  '' @ dec_str (e_phnum h) @ '' entries (Offset: 0x'' @ hex_str (e_phoff h) @ '')'' @ nl
     @ '' Section Headers:  '' @ hex_str (e_shnum h) @ '' entries (Offset: 0x'' @ hex_str (e_shoff h) @ '')'' @ nl
     @ nl"

definition segment_line :: "ProgramSegment \<Rightarrow> string" where
  "segment_line seg = pad_right 16 CHR '' '' (seg_type_name seg) @ '' '' @ flags_to_string (seg_flags seg) @ ''  ''
     @ ''0x'' @ pad_left 16 CHR ''0'' (hex_str (seg_file_offset seg)) @ '' ''
     @ ''0x'' @ pad_left 16 CHR ''0'' (hex_str (seg_vaddr seg)) @ '' ''
     @ pad_left 9 CHR '' '' (dec_str (seg_mem_size seg)) @ '' ''
     @ ''0x'' @ hex_str (seg_align seg) @ nl"

definition section_line :: "SectionInfo \<Rightarrow> string" where
  "section_line sec = pad_right 21 CHR '' '' (if sec_name sec = [] then ''[NULL]'' else sec_name sec) @ '' ''
     @ pad_right 16 CHR '' '' (sec_type_name sec) @ '' ''
     @ ''0x'' @ pad_left 16 CHR ''0'' (hex_str (sec_vaddr sec)) @ '' ''
     @ pad_left 10 CHR '' '' (dec_str (sec_size sec)) @ '' ''
     @ sec_flags_str sec @ nl"

definition print_summary :: "Elf64Inspector \<Rightarrow> string" where
  "print_summary e = (
     if \<not> elf_valid e then ''[ERROR] Invalid ELF64 binary image.'' @ nl
     else report_header (elf_header e)
       @ single_rule @ '' Program Headers (Runtime Memory Segments)'' @ nl @ single_rule
       @ '' Type           Perm  Offset             VirtAddr           MemSize    Align'' @ nl @ single_rule
       @ concat (map segment_line (elf_segments e))
       @ nl @ single_rule @ '' Section Headers (Linking & Symbol Anatomy)'' @ nl @ single_rule
       @ '' Name                 Type             VirtAddr           Size       Flags'' @ nl @ single_rule
       @ concat (map section_line (elf_sections e))
       @ double_rule @ nl)"

text \<open>
  The file is what opening it gives: \<open>None\<close> when it cannot be opened, otherwise its contents and
  whether reading them succeeds. The inner option of the result is \<open>None\<close> where the parser is undefined.
\<close>

datatype elf_error = Open_failed string | Read_failed string

definition from_file :: "string \<Rightarrow> (bytes \<times> bool) option \<Rightarrow> elf_error + Elf64Inspector option" where
  "from_file path source = (case source of
     None \<Rightarrow> Inl (Open_failed (''Failed to open ELF file: '' @ path))
   | Some (buf, read_ok) \<Rightarrow>
       if \<not> read_ok then Inl (Read_failed (''Failed to read ELF file data: '' @ path))
       else Inr (elf_parse buf))"

fun elf_what :: "elf_error \<Rightarrow> string" where
  "elf_what (Open_failed s) = s"
| "elf_what (Read_failed s) = s"

definition elf_main :: "string list \<Rightarrow> (string \<Rightarrow> (bytes \<times> bool) option) \<Rightarrow> (string \<times> string \<times> nat) option" where
  "elf_main argv files = (
     let target_path = (if length argv > 1 then argv ! 1 else ''/proc/self/exe'');
       banner = double_rule @ '' Lightweight ELF64 Binary Inspector (C++20)'' @ nl
         @ '' Target File: '' @ target_path @ nl @ double_rule @ nl
     in case from_file target_path (files target_path) of
       Inl err \<Rightarrow> Some (banner, ''Exception during ELF inspection: '' @ elf_what err @ nl, 1)
     | Inr None \<Rightarrow> None
     | Inr (Some inspector) \<Rightarrow>
         if \<not> elf_valid inspector
         then Some (banner, ''Error: '' @ target_path @ '' is not a valid 64-bit ELF binary.'' @ nl, 1)
         else Some (banner @ print_summary inspector, '''', 0))"

subsection \<open>Writers of the structures\<close>

definition word_le :: "nat \<Rightarrow> 'a::len word \<Rightarrow> bytes" where
  "word_le n w = le_bytes n (unat w)"

definition ehdr_bytes :: "Elf64_Ehdr \<Rightarrow> bytes" where
  "ehdr_bytes h = e_ident h @ word_le 2 (e_type h) @ word_le 2 (e_machine h) @ word_le 4 (e_version h)
     @ word_le 8 (e_entry h) @ word_le 8 (e_phoff h) @ word_le 8 (e_shoff h) @ word_le 4 (e_flags h)
     @ word_le 2 (e_ehsize h) @ word_le 2 (e_phentsize h) @ word_le 2 (e_phnum h)
     @ word_le 2 (e_shentsize h) @ word_le 2 (e_shnum h) @ word_le 2 (e_shstrndx h)"

definition phdr_bytes :: "Elf64_Phdr \<Rightarrow> bytes" where
  "phdr_bytes p = word_le 4 (p_type p) @ word_le 4 (p_flags p) @ word_le 8 (p_offset p)
     @ word_le 8 (p_vaddr p) @ word_le 8 (p_paddr p) @ word_le 8 (p_filesz p) @ word_le 8 (p_memsz p)
     @ word_le 8 (p_align p)"

definition shdr_bytes :: "Elf64_Shdr \<Rightarrow> bytes" where
  "shdr_bytes s = word_le 4 (sh_name s) @ word_le 4 (sh_type s) @ word_le 8 (sh_flags s)
     @ word_le 8 (sh_addr s) @ word_le 8 (sh_offset s) @ word_le 8 (sh_size s) @ word_le 4 (sh_link s)
     @ word_le 4 (sh_info s) @ word_le 8 (sh_addralign s) @ word_le 8 (sh_entsize s)"

lemma length_word_le [simp]: "length (word_le n w) = n"
  by (simp add: word_le_def)

lemma of_nat_word_le [simp]:
  fixes w :: "'a::len word"
  shows "LENGTH('a) \<le> 8 * n \<Longrightarrow> (of_nat (le_nat (word_le n w)) :: 'a word) = w"
  unfolding word_le_def by (rule le_nat_le_bytes_word)

lemma to_ehdr_bytes: "length (e_ident h) = 16 \<Longrightarrow> to_ehdr (ehdr_bytes h) = h"
  by (cases h) (simp add: to_ehdr_def ehdr_bytes_def field_def)

lemma length_ehdr_bytes: "length (e_ident h) = 16 \<Longrightarrow> length (ehdr_bytes h) = 64"
  by (simp add: ehdr_bytes_def)

interpretation phdr_codec: fixed_codec phdr_bytes to_phdr 56
proof unfold_locales
  show "length (phdr_bytes x) = 56" for x by (simp add: phdr_bytes_def)
  show "to_phdr (phdr_bytes x) = x" for x
    by (cases x) (simp add: to_phdr_def phdr_bytes_def field_def)
qed

interpretation shdr_codec: fixed_codec shdr_bytes to_shdr 64
proof unfold_locales
  show "length (shdr_bytes x) = 64" for x by (simp add: shdr_bytes_def)
  show "to_shdr (shdr_bytes x) = x" for x
    by (cases x) (simp add: to_shdr_def shdr_bytes_def field_def)
qed

subsection \<open>Reading tables\<close>

lemma those_snoc: "those (xs @ [x]) = (case those xs of None \<Rightarrow> None | Some ys \<Rightarrow> map_option (\<lambda>y. ys @ [y]) x)"
  by (induction xs) (auto simp: option.map_comp comp_def split: option.splits)

lemma those_map_Some: "(\<And>i. i < n \<Longrightarrow> f i = Some (g i)) \<Longrightarrow> those (map f [0..<n]) = Some (map g [0..<n])"
  by (induction n) (simp_all add: those_snoc)

lemma those_None: "None \<in> set xs \<Longrightarrow> those xs = None"
  by (induction xs) (auto split: option.splits)


lemma unat_table_offset:
  fixes off :: u64
  assumes "unat off + i * w < 2 ^ 64"
  shows "unat (off + of_nat i * of_nat w) = unat off + i * w"
proof -
  have "off + of_nat i * of_nat w = (of_nat (unat off + i * w) :: u64)" by simp
  then show ?thesis using unat_of_nat_u64 [of "unat off + i * w"] assms by simp
qed

text \<open>
  The end of a table as the code computes it, against the size of a buffer whose size fits
  \<^verbatim>\<open>std::vector\<close>.
\<close>

lemma table_end_le:
  fixes off :: u64 and n :: u16
  assumes "length buf < 2 ^ 63" "w < 2 ^ 32" "unat off + unat n * w < 2 ^ 64"
  shows "off + ucast n * of_nat w \<le> of_nat (length buf) \<longleftrightarrow> unat off + unat n * w \<le> length buf"
proof -
  have "unat (off + of_nat (unat n) * of_nat w) = unat off + unat n * w"
    using assms(3) by (rule unat_table_offset)
  moreover have "(of_nat (unat n) :: u64) = ucast n" by (simp add: unsigned_of_nat)
  moreover have "unat (of_nat (length buf) :: u64) = length buf"
    using assms(1) by (intro unat_of_nat_u64) simp
  ultimately show ?thesis by (simp add: word_le_nat_alt)
qed

lemma table_end_wrap:
  fixes off :: u64 and n :: u16
  assumes "length buf < 2 ^ 63" "w < 2 ^ 32" "2 ^ 64 \<le> unat off + unat n * w"
  shows "off + ucast n * of_nat w \<le> of_nat (length buf) \<longleftrightarrow> unat off + unat n * w - 2 ^ 64 \<le> length buf"
proof -
  define t where "t = unat off + unat n * w"
  have e: "off + ucast n * of_nat w = (of_nat t :: u64)" by (simp add: t_def unsigned_of_nat)
  have "unat n * w \<le> 65535 * 2 ^ 32" using unat_u16_less [of n] assms(2) by (intro mult_le_mono) auto
  then have "t < 2 ^ 64 + 2 ^ 64" using unat_u64_less [of off] by (simp add: t_def)
  then have "t mod 2 ^ 64 = t - 2 ^ 64" using assms(3) by (simp add: t_def mod_if)
  then have "unat (of_nat t :: u64) = t - 2 ^ 64" by (simp add: unat_of_nat)
  moreover have "unat (of_nat (length buf) :: u64) = length buf"
    using assms(1) by (intro unat_of_nat_u64) simp
  ultimately show ?thesis unfolding e by (simp add: word_le_nat_alt t_def)
qed

lemma read_segment_entry:
  assumes tab: "take (length phs * 56) (drop (unat (e_phoff h)) buf) = concat (map phdr_bytes phs)"
    and i: "i < length phs" and buf: "length buf < 2 ^ 63"
  shows "read_segment buf h i = Some (to_segment (phs ! i))"
proof -
  have le: "unat (e_phoff h) + i * 56 + 56 \<le> length buf"
    using phdr_codec.table_entry(2) [OF tab i] by simp
  then have "unat (e_phoff h + of_nat i * of_nat 56) = unat (e_phoff h) + i * 56"
    using buf by (intro unat_table_offset) simp
  then have "copy_out buf (unat (e_phoff h + of_nat i * 56)) 56 = Some (phdr_bytes (phs ! i))"
    using le phdr_codec.table_entry(1) [OF tab i] by (simp add: copy_out_def)
  then show ?thesis by (simp add: read_segment_def phdr_codec.dec_enc)
qed

lemma copy_section_entry:
  assumes tab: "take (length shs * 64) (drop (unat (e_shoff h)) buf) = concat (map shdr_bytes shs)"
    and i: "i < length shs" and buf: "length buf < 2 ^ 63"
  shows "copy_out buf (unat (e_shoff h + of_nat i * 64)) 64 = Some (shdr_bytes (shs ! i))"
proof -
  have le: "unat (e_shoff h) + i * 64 + 64 \<le> length buf"
    using shdr_codec.table_entry(2) [OF tab i] by simp
  then have "unat (e_shoff h + of_nat i * of_nat 64) = unat (e_shoff h) + i * 64"
    using buf by (intro unat_table_offset) simp
  then show ?thesis
    using le shdr_codec.table_entry(1) [OF tab i] by (simp add: copy_out_def)
qed

lemma table_inside:
  assumes "take n (drop off buf) = bs" "length bs = n" "0 < n"
  shows "off + n \<le> length buf"
proof -
  have "length (take n (drop off buf)) = n" using assms by simp
  then show ?thesis using assms(3) by auto
qed

lemma parse_program_headers_table:
  assumes tab: "take (length phs * 56) (drop (unat (e_phoff h)) buf) = concat (map phdr_bytes phs)"
    and n: "length phs = unat (e_phnum h)" and off: "phs \<noteq> [] \<Longrightarrow> e_phoff h \<noteq> 0"
    and buf: "length buf < 2 ^ 63"
  shows "parse_program_headers buf h = Some (map to_segment phs)"
proof (cases "phs = []")
  case True
  then have "e_phnum h = 0" using n by (simp add: unat_eq_0)
  then show ?thesis using True by (simp add: parse_program_headers_def)
next
  case False
  then have nz: "e_phoff h \<noteq> 0" "e_phnum h \<noteq> 0" using off n by auto
  have ins: "unat (e_phoff h) + length phs * 56 \<le> length buf"
    using False by (intro table_inside [OF tab]) (simp_all add: phdr_codec.length_array)
  then have "\<not> e_phoff h + ucast (e_phnum h) * 56 > of_nat (length buf)"
    using table_end_le [of buf 56 "e_phoff h" "e_phnum h"] buf n by (simp add: not_less)
  moreover have "those (map (read_segment buf h) [0..<unat (e_phnum h)])
      = Some (map (\<lambda>i. to_segment (phs ! i)) [0..<unat (e_phnum h)])"
    using read_segment_entry [OF tab _ buf] n by (intro those_map_Some) simp
  moreover have "map (\<lambda>i. to_segment (phs ! i)) [0..<unat (e_phnum h)] = map to_segment phs"
    by (rule nth_equalityI) (simp_all add: n)
  ultimately show ?thesis using nz by (simp add: parse_program_headers_def Let_def)
qed

subsection \<open>Section names\<close>

definition named_at :: "bytes \<Rightarrow> Elf64_Shdr \<Rightarrow> Elf64_Shdr \<Rightarrow> string \<Rightarrow> bool" where
  "named_at buf st s name \<longleftrightarrow> (if sh_name s = 0 then name = []
     else let a = unat (sh_offset st) + unat (sh_name s) in
       take (Suc (length name)) (drop a buf) = map (\<lambda>c. of_nat (of_char c)) name @ [0] \<and> CHR 0x00 \<notin> set name)"

lemma of_char_byte: "unat (of_nat (of_char c) :: u8) = of_char c"
  by (simp add: unat_of_nat)

lemma byte_of_char_eq_0: "(of_nat (of_char c) :: u8) = 0 \<longleftrightarrow> c = CHR 0x00"
proof -
  have "(of_nat (of_char c) :: u8) = 0 \<longleftrightarrow> of_char c = (0::nat)"
    by (metis of_char_byte unat_eq_0)
  also have "\<dots> \<longleftrightarrow> c = CHR 0x00" by (cases c) auto
  finally show ?thesis .
qed

lemma c_string_named:
  assumes at: "take (Suc (length name)) (drop a buf) = map (\<lambda>c. of_nat (of_char c)) name @ [0]"
    and nz: "CHR 0x00 \<notin> set name"
  shows "c_string buf a = Some name"
proof -
  define bs :: bytes where "bs = map (\<lambda>c. of_nat (of_char c)) name"
  have d: "drop a buf = (bs @ [0]) @ drop (Suc (length name)) (drop a buf)"
    using at unfolding bs_def by (metis append_take_drop_id)
  have nb: "b \<noteq> 0" if b: "b \<in> set bs" for b
  proof -
    obtain c where "c \<in> set name" "b = of_nat (of_char c)" using b by (auto simp: bs_def)
    then show ?thesis using nz by (metis byte_of_char_eq_0)
  qed
  have tw: "takeWhile (\<lambda>b. b \<noteq> 0) (drop a buf) = bs"
    by (subst d, simp only: append_assoc, subst takeWhile_append2) (auto dest: nb)
  have "length (drop a buf) > length bs" by (subst d) simp
  then have "a + length bs < length buf" by simp
  moreover have "map (\<lambda>b. char_of (unat b)) bs = name"
    by (simp add: bs_def comp_def of_char_byte)
  ultimately show ?thesis by (simp add: c_string_def tw Let_def)
qed

lemma find_strtab_table:
  assumes tab: "take (length shs * 64) (drop (unat (e_shoff h)) buf) = concat (map shdr_bytes shs)"
    and n: "length shs = unat (e_shnum h)" and buf: "length buf < 2 ^ 63"
    and ndx: "e_shstrndx h < e_shnum h" and st: "st = shs ! unat (e_shstrndx h)"
    and ins: "unat (sh_offset st) + unat (sh_size st) \<le> length buf"
  shows "find_strtab buf h = Some (Some (unat (sh_offset st)))"
proof -
  have k: "unat (e_shstrndx h) < length shs" using ndx n by (simp add: word_less_nat_alt)
  have "copy_out buf (unat (e_shoff h + ucast (e_shstrndx h) * 64)) 64 = Some (shdr_bytes st)"
    using copy_section_entry [OF tab k buf] by (simp add: st unsigned_of_nat)
  moreover have "unat (sh_offset st + sh_size st) = unat (sh_offset st) + unat (sh_size st)"
    using unat_of_nat_u64 [of "unat (sh_offset st) + unat (sh_size st)"] ins buf by simp
  then have "sh_offset st + sh_size st \<le> of_nat (length buf)"
    using unat_of_nat_u64 [of "length buf"] ins buf by (simp add: word_le_nat_alt)
  ultimately show ?thesis using ndx ins
    by (simp add: find_strtab_def shdr_codec.dec_enc Let_def)
qed

lemma parse_section_headers_table:
  assumes tab: "take (length shs * 64) (drop (unat (e_shoff h)) buf) = concat (map shdr_bytes shs)"
    and n: "length shs = unat (e_shnum h)" and off: "shs \<noteq> [] \<Longrightarrow> e_shoff h \<noteq> 0"
    and buf: "length buf < 2 ^ 63"
    and ndx: "shs \<noteq> [] \<Longrightarrow> e_shstrndx h < e_shnum h"
    and st: "st = shs ! unat (e_shstrndx h)"
    and ins: "shs \<noteq> [] \<Longrightarrow> unat (sh_offset st) + unat (sh_size st) \<le> length buf"
    and names: "list_all2 (named_at buf st) shs names"
  shows "parse_section_headers buf h = Some (map2 to_section shs names)"
proof (cases "shs = []")
  case True
  then have "e_shnum h = 0" using n by (simp add: unat_eq_0)
  then show ?thesis using True by (simp add: parse_section_headers_def)
next
  case False
  then have nz: "e_shoff h \<noteq> 0" "e_shnum h \<noteq> 0" using off n by auto
  have "unat (e_shoff h) + length shs * 64 \<le> length buf"
    using False by (intro table_inside [OF tab]) (simp_all add: shdr_codec.length_array)
  then have fits: "\<not> e_shoff h + ucast (e_shnum h) * 64 > of_nat (length buf)"
    using table_end_le [of buf 64 "e_shoff h" "e_shnum h"] buf n by (simp add: not_less)
  have strtab: "find_strtab buf h = Some (Some (unat (sh_offset st)))"
    using find_strtab_table [OF tab n buf _ st] ndx ins False by simp
  have "read_section buf h (Some (unat (sh_offset st))) i = Some (to_section (shs ! i) (names ! i))"
    if i: "i < length shs" for i
  proof -
    have "named_at buf st (shs ! i) (names ! i)" using names i by (rule list_all2_nthD)
    then have "(if sh_name (shs ! i) \<noteq> 0 then c_string buf (unat (sh_offset st) + unat (sh_name (shs ! i)))
        else Some '''') = Some (names ! i)"
      by (auto simp: named_at_def Let_def intro: c_string_named)
    then show ?thesis using copy_section_entry [OF tab i buf]
      by (simp add: read_section_def shdr_codec.dec_enc Let_def split: if_splits)
  qed
  then have "those (map (read_section buf h (Some (unat (sh_offset st)))) [0..<unat (e_shnum h)])
      = Some (map (\<lambda>i. to_section (shs ! i) (names ! i)) [0..<unat (e_shnum h)])"
    using n by (intro those_map_Some) simp
  moreover have "map (\<lambda>i. to_section (shs ! i) (names ! i)) [0..<unat (e_shnum h)] = map2 to_section shs names"
    using list_all2_lengthD [OF names] by (intro nth_equalityI) (simp_all add: n)
  ultimately show ?thesis using nz fits by (simp add: parse_section_headers_def strtab Let_def)
qed

subsection \<open>Properties\<close>

text \<open>
  A well-formed image: the header, the two tables at the offsets it names, and a string table, inside
  the file, in which every name is terminated.
\<close>

definition elf_image :: "bytes \<Rightarrow> Elf64_Ehdr \<Rightarrow> Elf64_Phdr list \<Rightarrow> Elf64_Shdr list \<Rightarrow> string list \<Rightarrow> bool" where
  "elf_image buf h phs shs names \<longleftrightarrow>
     length buf < 2 ^ 63 \<and> length (e_ident h) = 16 \<and> elf64_ident h \<and> take 64 buf = ehdr_bytes h
     \<and> length phs = unat (e_phnum h) \<and> (phs = [] \<or> e_phoff h \<noteq> 0)
     \<and> take (length phs * 56) (drop (unat (e_phoff h)) buf) = concat (map phdr_bytes phs)
     \<and> length shs = unat (e_shnum h)
     \<and> take (length shs * 64) (drop (unat (e_shoff h)) buf) = concat (map shdr_bytes shs)
     \<and> (let st = shs ! unat (e_shstrndx h) in
         (shs = [] \<or> e_shoff h \<noteq> 0 \<and> e_shstrndx h < e_shnum h
           \<and> unat (sh_offset st) + unat (sh_size st) \<le> length buf)
         \<and> list_all2 (named_at buf st) shs names)"

text \<open>
  C17: On every well-formed image, of any size a vector can have, the inspector reads inside its
  buffer only and recovers the header, every program header and every section header with its name,
  in the order of the tables.
\<close>

theorem elf_parse_decodes_image:
  assumes "elf_image buf h phs shs names"
  shows "elf_parse buf = Some \<lparr>elf_buffer = buf, elf_header = h, elf_segments = map to_segment phs,
    elf_sections = map2 to_section shs names, elf_valid = True\<rparr>"
proof -
  note img = assms [unfolded elf_image_def Let_def]
  have id16: "length (e_ident h) = 16" using img by blast
  have tk: "take 64 buf = ehdr_bytes h" using img by blast
  have "length (take 64 buf) = 64" by (simp only: tk length_ehdr_bytes [OF id16])
  then have len: "\<not> length buf < 64" by simp
  have "parse_program_headers buf h = Some (map to_segment phs)"
    by (rule parse_program_headers_table) (use img in blast)+
  moreover have "parse_section_headers buf h = Some (map2 to_section shs names)"
    by (rule parse_section_headers_table [OF _ _ _ _ _ refl]) (use img in blast)+
  ultimately show ?thesis using img len
    by (simp add: elf_parse_def tk to_ehdr_bytes [OF id16] Let_def)
qed

definition sample_ehdr :: Elf64_Ehdr where
  "sample_ehdr = \<lparr>e_ident = [0x7f, 0x45, 0x4c, 0x46, 2, 1, 1, 0, 0, 0, 0, 0, 0, 0, 0, 0], e_type = 3,
     e_machine = 62, e_version = 1, e_entry = 0x1040, e_phoff = 64, e_shoff = 120, e_flags = 0,
     e_ehsize = 64, e_phentsize = 56, e_phnum = 1, e_shentsize = 64, e_shnum = 2, e_shstrndx = 1\<rparr>"

definition sample_phdr :: Elf64_Phdr where
  "sample_phdr = \<lparr>p_type = 1, p_flags = 5, p_offset = 0, p_vaddr = 0x1000, p_paddr = 0x1000,
     p_filesz = 258, p_memsz = 258, p_align = 0x1000\<rparr>"

definition sample_shdrs :: "Elf64_Shdr list" where
  "sample_shdrs = [
     \<lparr>sh_name = 0, sh_type = 0, sh_flags = 0, sh_addr = 0, sh_offset = 0, sh_size = 0, sh_link = 0,
       sh_info = 0, sh_addralign = 0, sh_entsize = 0\<rparr>,
     \<lparr>sh_name = 1, sh_type = 3, sh_flags = 0, sh_addr = 0, sh_offset = 248, sh_size = 6, sh_link = 0,
       sh_info = 0, sh_addralign = 1, sh_entsize = 0\<rparr>]"

definition sample_image :: bytes where
  "sample_image = ehdr_bytes sample_ehdr @ phdr_bytes sample_phdr @ concat (map shdr_bytes sample_shdrs)
     @ [0, 0x2e, 0x73, 0x74, 0x72, 0]"

lemma sample_elf_image: "elf_image sample_image sample_ehdr [sample_phdr] sample_shdrs ['''', ''.str'']"
proof -
  have id16: "length (e_ident sample_ehdr) = 16" by (simp add: sample_ehdr_def)
  have len: "length sample_shdrs = 2" by (simp add: sample_shdrs_def)
  note lens = length_ehdr_bytes [OF id16] phdr_codec.length_enc shdr_codec.length_enc shdr_codec.length_array len
  have offs: "unat (e_phoff sample_ehdr) = 64" "unat (e_shoff sample_ehdr) = 120"
    "unat (e_phnum sample_ehdr) = 1" "unat (e_shnum sample_ehdr) = 2" "unat (e_shstrndx sample_ehdr) = 1"
    by (simp_all add: sample_ehdr_def)
  have st: "unat (sh_offset (sample_shdrs ! 1)) = 248" "unat (sh_size (sample_shdrs ! 1)) = 6"
    by (simp_all add: sample_shdrs_def)
  have names: "list_all2 (named_at sample_image (sample_shdrs ! 1)) sample_shdrs ['''', ''.str'']"
  proof -
    have "drop 249 sample_image = [0x2e, 0x73, 0x74, 0x72, 0]"
      by (simp add: sample_image_def lens)
    then show ?thesis by (simp add: sample_shdrs_def named_at_def)
  qed
  have nz: "e_phoff sample_ehdr \<noteq> 0" "e_shoff sample_ehdr \<noteq> 0" "e_shstrndx sample_ehdr < e_shnum sample_ehdr"
    "elf64_ident sample_ehdr"
    by (simp_all add: sample_ehdr_def elf64_ident_def)
  show ?thesis
    unfolding elf_image_def Let_def offs st
    using names nz by (simp add: sample_image_def lens id16)
qed

theorem elf_parse_decodes_image_witness:
  "elf_image sample_image sample_ehdr [sample_phdr] sample_shdrs ['''', ''.str'']
   \<and> elf_parse sample_image = Some \<lparr>elf_buffer = sample_image, elf_header = sample_ehdr,
      elf_segments = map to_segment [sample_phdr],
      elf_sections = map2 to_section sample_shdrs ['''', ''.str''], elf_valid = True\<rparr>"
  using sample_elf_image elf_parse_decodes_image [OF sample_elf_image] by (rule conjI)

lemma parse_program_headers_inside:
  assumes buf: "length buf < 2 ^ 63" and ins: "unat (e_phoff h) + 56 * unat (e_phnum h) \<le> length buf"
  shows "those (map (read_segment buf h) [0..<unat (e_phnum h)]) \<noteq> None"
proof -
  have "read_segment buf h i = Some (to_segment (to_phdr (take 56 (drop (unat (e_phoff h) + i * 56) buf))))"
    if i: "i < unat (e_phnum h)" for i
  proof -
    have le: "unat (e_phoff h) + i * 56 + 56 \<le> length buf" using i ins by linarith
    then have "unat (e_phoff h + of_nat i * of_nat 56) = unat (e_phoff h) + i * 56"
      using buf by (intro unat_table_offset) simp
    then show ?thesis using le by (simp add: read_segment_def copy_out_def)
  qed
  then have "those (map (read_segment buf h) [0..<unat (e_phnum h)]) = Some (map (\<lambda>i. to_segment (to_phdr
      (take 56 (drop (unat (e_phoff h) + i * 56) buf)))) [0..<unat (e_phnum h)])"
    by (rule those_map_Some)
  then show ?thesis by simp
qed

lemma parse_program_headers_far:
  assumes buf: "length buf < 2 ^ 63" and n: "e_phnum h \<noteq> 0" and far: "2 ^ 64 \<le> unat (e_phoff h) + 56 * unat (e_phnum h)"
  shows "those (map (read_segment buf h) [0..<unat (e_phnum h)]) = None"
proof (rule those_None)
  have "56 * unat (e_phnum h) \<le> 56 * 65535" using unat_u16_less [of "e_phnum h"] by simp
  then have "length buf < unat (e_phoff h)" using buf far by simp
  then have "read_segment buf h 0 = None" by (simp add: read_segment_def copy_out_def)
  moreover have "0 < unat (e_phnum h)" using n by (simp add: unat_gt_0)
  then have "0 \<in> set [0..<unat (e_phnum h)]" by simp
  ultimately show "None \<in> set (map (read_segment buf h) [0..<unat (e_phnum h)])"
    by (metis image_eqI list.set_map)
qed

text \<open>
  C36: Exactly when the check of the program header table can be passed by a wrapped sum. For a
  header of any contents the copies leave the buffer if and only if the offset and the size of the
  table together exceed 64 bits and what remains of their sum is at most the size of the buffer;
  otherwise all of them are inside.
\<close>

theorem elf_program_table_out_of_bounds:
  assumes "length buf < 2 ^ 63"
  shows "parse_program_headers buf h = None \<longleftrightarrow>
    e_phnum h \<noteq> 0 \<and> 2 ^ 64 \<le> unat (e_phoff h) + 56 * unat (e_phnum h)
    \<and> unat (e_phoff h) + 56 * unat (e_phnum h) - 2 ^ 64 \<le> length buf"
proof (cases "e_phoff h = 0 \<or> e_phnum h = 0")
  case True
  then show ?thesis using unat_u16_less [of "e_phnum h"] by (auto simp: parse_program_headers_def)
next
  case nz: False
  then have eq: "parse_program_headers buf h = (if e_phoff h + ucast (e_phnum h) * 56 \<le> of_nat (length buf)
      then those (map (read_segment buf h) [0..<unat (e_phnum h)]) else Some [])"
    by (simp add: parse_program_headers_def Let_def not_le [symmetric])
  show ?thesis
  proof (cases "2 ^ 64 \<le> unat (e_phoff h) + 56 * unat (e_phnum h)")
    case True
    then show ?thesis
      using table_end_wrap [OF assms, of 56 "e_phoff h" "e_phnum h"] parse_program_headers_far [OF assms _ True] nz
      by (simp add: eq mult.commute)
  next
    case False
    then show ?thesis
      using table_end_le [OF assms, of 56 "e_phoff h" "e_phnum h"] parse_program_headers_inside [OF assms, of h] nz
      by (auto simp: eq mult.commute)
  qed
qed

definition wrapping_ehdr :: Elf64_Ehdr where
  "wrapping_ehdr = sample_ehdr\<lparr>e_phoff := 0xffffffffffffffc8, e_shnum := 0\<rparr>"

theorem elf_program_table_out_of_bounds_witness:
  "elf_parse (ehdr_bytes wrapping_ehdr) = None"
proof -
  have id16: "length (e_ident wrapping_ehdr) = 16" by (simp add: wrapping_ehdr_def sample_ehdr_def)
  have len: "length (ehdr_bytes wrapping_ehdr) = 64" by (rule length_ehdr_bytes [OF id16])
  have "parse_program_headers (ehdr_bytes wrapping_ehdr) wrapping_ehdr = None"
    by (subst elf_program_table_out_of_bounds) (simp_all add: len, simp_all add: wrapping_ehdr_def sample_ehdr_def)
  moreover have "elf64_ident wrapping_ehdr" by (simp add: wrapping_ehdr_def sample_ehdr_def elf64_ident_def)
  ultimately show ?thesis by (simp add: elf_parse_def len to_ehdr_bytes [OF id16] Let_def)
qed











subsection \<open>The report and the program\<close>

lemma known_segment_name_fits:
  "map_of segment_types t \<noteq> None \<Longrightarrow> length (get_segment_type_name t) \<le> 16"
  by (auto simp: segment_types_def get_segment_type_name_def split: if_splits)

text \<open>
  In the report the two address columns of a segment of a known type stand at fixed places and read
  back to the values of the program header.
\<close>

lemma segment_line_reads_back:
  assumes "map_of segment_types (p_type p) \<noteq> None"
  shows "base_value 16 (take 16 (drop 24 (segment_line (to_segment p)))) = unat (p_offset p)
    \<and> base_value 16 (take 16 (drop 43 (segment_line (to_segment p)))) = unat (p_vaddr p)"
proof -
  define name where "name = pad_right 16 CHR '' '' (get_segment_type_name (p_type p))"
  define perm where "perm = flags_to_string (seg_flags (to_segment p))"
  define o1 where "o1 = pad_left 16 CHR ''0'' (hex_str (p_offset p))"
  define o2 where "o2 = pad_left 16 CHR ''0'' (hex_str (p_vaddr p))"
  have lens: "length name = 16" "length perm = 3" "length o1 = 16" "length o2 = 16"
    using known_segment_name_fits [OF assms]
    by (simp_all add: name_def perm_def o1_def o2_def pad_right_def flags_to_string_def hex_column(1))
  obtain tl where line: "segment_line (to_segment p) = name @ '' '' @ perm @ ''  0x'' @ o1 @ '' 0x'' @ o2 @ tl"
    by (simp add: segment_line_def name_def perm_def o1_def o2_def to_segment_def)
  have "take 16 (drop 24 (segment_line (to_segment p))) = o1"
    "take 16 (drop 43 (segment_line (to_segment p))) = o2"
    by (simp_all add: line lens)
  then show ?thesis by (simp add: o1_def o2_def hex_column(2))
qed

text \<open>
  The stream is still hexadecimal when the number of section headers is written: with sixteen
  entries in each table the report says 16 program headers and 10 section headers.
\<close>

lemma section_count_printed_in_hex:
  assumes "e_phnum h = 16" "e_shnum h = 16"
  shows "\<exists>a b c. report_header h = a @ '' Program Headers:  16 entries'' @ b
    @ '' Section Headers:  10 entries'' @ c"
proof -
  have digits: "digit_char (Suc 0) = CHR ''1''" "digit_char 6 = CHR ''6''" "digit_char 0 = CHR ''0''"
    by code_simp+
  have "dec_str (16::u16) = ''16''" by (simp add: dec_str_def base_str_step digits)
  moreover have "hex_str (16::u16) = ''10''" by (simp add: hex_str_def base_str_step digits)
  ultimately have "report_header h = (double_rule @ '' ELF64 Binary Inspection Report'' @ nl @ double_rule
     @ '' Type:             '' @ get_elf_type_name (e_type h) @ '' (0x'' @ hex_str (e_type h) @ '')'' @ nl
     @ '' Machine:          '' @ get_machine_name (e_machine h) @ '' (0x'' @ hex_str (e_machine h) @ '')'' @ nl
     @ '' Entry Point:      0x'' @ pad_left 16 CHR ''0'' (hex_str (e_entry h)) @ nl)
     @ '' Program Headers:  16 entries'' @ ('' (Offset: 0x'' @ hex_str (e_phoff h) @ '')'' @ nl)
     @ '' Section Headers:  10 entries'' @ ('' (Offset: 0x'' @ hex_str (e_shoff h) @ '')'' @ nl @ nl)"
    using assms by (simp add: report_header_def)
  then show ?thesis by blast
qed

text \<open>
  The program reports success exactly for a file that could be opened and read and whose bytes
  are a valid image; every other outcome has status 1 and a message on the error stream, and the report is
  printed only with status 0.
\<close>

theorem elf_main_status:
  assumes "elf_main argv files = Some (out, err, status)"
    and "path = (if length argv > 1 then argv ! 1 else ''/proc/self/exe'')"
  shows "(status = 0 \<longleftrightarrow> (\<exists>buf e. files path = Some (buf, True) \<and> elf_parse buf = Some e \<and> elf_valid e))
    \<and> (status = 0 \<and> err = [] \<or> status = 1 \<and> err \<noteq> [])"
  using assms
  by (auto simp: elf_main_def from_file_def Let_def split: option.splits sum.splits if_splits prod.splits)

theorem elf_main_status_witness:
  "\<exists>out err. elf_main [''elf''] (\<lambda>_. Some ([0x7f, 0x45], True)) = Some (out, err, 1) \<and> err \<noteq> []"
proof -
  obtain out err status where m: "elf_main [''elf''] (\<lambda>_. Some ([0x7f, 0x45], True)) = Some (out, err, status)"
    by (simp add: elf_main_def from_file_def elf_parse_def Let_def)
  then have "status = 1 \<and> err \<noteq> []"
    using elf_main_status [OF m refl] by (auto simp: elf_parse_def)
  then show ?thesis using m by blast
qed

end
