(* ===== verification/Fiber_Scheduler.thy ===== *)
theory Fiber_Scheduler
  imports Sys_Prelude "HOL-Library.While_Combinator" "HOL-Library.Multiset"
begin

text \<open>
  The cooperative fiber scheduler with its mutex and channel (\<^verbatim>\<open>fiber_scheduler.hpp\<close>). What a fiber still has to
  do, its saved context in the program, is a tree of the calls it makes; a received value selects the branch. The
  pointers to fibers are positions in the list of all fibers. One scheduler is alive, stacks can be mapped
  while it runs, and fibers are resumed by the mutex and the channel only.
\<close>

subsection \<open>Fibers\<close>

datatype FiberState = READY | RUNNING | SUSPENDED | DEAD

datatype 'v fiber_code =
  Return
| Yield "'v fiber_code"
| Lock nat "'v fiber_code"
| Unlock nat "'v fiber_code"
| Send nat 'v "'v fiber_code"
| Receive nat "'v \<Rightarrow> 'v fiber_code"
| Spawn "'v fiber_code" "'v fiber_code"

record 'v Fiber =
  fiber_id :: u64
  fiber_state :: FiberState
  fiber_ctx :: "'v fiber_code"

record FiberMutex =
  locked :: bool
  waiters :: "nat list"

record 'v FiberChannel =
  capacity :: nat
  chan_queue :: "'v list"
  send_waiters :: "nat list"
  recv_waiters :: "nat list"

record 'v Scheduler =
  next_id :: u64
  ready_queue :: "nat list"
  current_fiber :: "nat option"
  fibers :: "'v Fiber list"
  mutexes :: "nat \<Rightarrow> FiberMutex"
  channels :: "nat \<Rightarrow> 'v FiberChannel"

datatype 'v fiber_event =
  Locked nat
| Unlocked nat
| Sent nat 'v
| Received nat 'v

definition set_state :: "nat \<Rightarrow> FiberState \<Rightarrow> 'v Scheduler \<Rightarrow> 'v Scheduler" where
  "set_state f st s = s\<lparr>fibers := (fibers s)[f := (fibers s ! f)\<lparr>fiber_state := st\<rparr>]\<rparr>"

definition set_ctx :: "nat \<Rightarrow> 'v fiber_code \<Rightarrow> 'v Scheduler \<Rightarrow> 'v Scheduler" where
  "set_ctx f k s = s\<lparr>fibers := (fibers s)[f := (fibers s ! f)\<lparr>fiber_ctx := k\<rparr>]\<rparr>"

subsection \<open>The scheduler\<close>

text \<open>The stack of a new fiber is mapped when \<open>mapped\<close>; otherwise the constructor throws.\<close>

definition spawn :: "bool \<Rightarrow> 'v fiber_code \<Rightarrow> 'v Scheduler \<Rightarrow> u64 option \<times> 'v Scheduler" where
  "spawn mapped fn s = (
     let id = next_id s + 1; s = s\<lparr>next_id := id\<rparr> in
     if \<not> mapped then (None, s)
     else (Some id, s\<lparr>fibers := fibers s @ [\<lparr>fiber_id = id, fiber_state = READY, fiber_ctx = fn\<rparr>],
       ready_queue := ready_queue s @ [length (fibers s)]\<rparr>))"

definition sched_yield :: "'v Scheduler \<Rightarrow> 'v Scheduler" where
  "sched_yield s = (case current_fiber s of
     None \<Rightarrow> s
   | Some f \<Rightarrow>
       (if fiber_state (fibers s ! f) = RUNNING
        then (set_state f READY s)\<lparr>ready_queue := ready_queue s @ [f], current_fiber := None\<rparr>
        else s\<lparr>current_fiber := None\<rparr>))"

definition resume :: "nat \<Rightarrow> 'v Scheduler \<Rightarrow> 'v Scheduler" where
  "resume f s = (if fiber_state (fibers s ! f) \<noteq> DEAD
     then (set_state f READY s)\<lparr>ready_queue := ready_queue s @ [f]\<rparr> else s)"

definition dispatch :: "'v Scheduler \<Rightarrow> 'v Scheduler" where
  "dispatch s = (case ready_queue s of
     [] \<Rightarrow> s
   | f # fs \<Rightarrow>
       if fiber_state (fibers s ! f) = DEAD then s\<lparr>ready_queue := fs\<rparr>
       else (set_state f RUNNING s)\<lparr>ready_queue := fs, current_fiber := Some f\<rparr>)"

subsection \<open>Mutex and channel\<close>

text \<open>
  One iteration of a waiting loop: the operation goes through, or the fiber is suspended and control
  is with the scheduler, or, outside a fiber, the loop spins forever.
\<close>

datatype 's attempt = Done_with 's | Suspended_in 's | Refused | Spins

definition upd_mutex :: "nat \<Rightarrow> (FiberMutex \<Rightarrow> FiberMutex) \<Rightarrow> 'v Scheduler \<Rightarrow> 'v Scheduler" where
  "upd_mutex m g s = s\<lparr>mutexes := (mutexes s)(m := g (mutexes s m))\<rparr>"

definition upd_channel :: "nat \<Rightarrow> ('v FiberChannel \<Rightarrow> 'v FiberChannel) \<Rightarrow> 'v Scheduler \<Rightarrow> 'v Scheduler" where
  "upd_channel c g s = s\<lparr>channels := (channels s)(c := g (channels s c))\<rparr>"

definition mutex_lock :: "nat \<Rightarrow> 'v Scheduler \<Rightarrow> 'v Scheduler attempt" where
  "mutex_lock m s = (
     if locked (mutexes s m)
     then (case current_fiber s of
         Some f \<Rightarrow> Suspended_in (sched_yield
           (upd_mutex m (\<lambda>x. x\<lparr>waiters := waiters x @ [f]\<rparr>) (set_state f SUSPENDED s)))
       | None \<Rightarrow> Spins)
     else Done_with (upd_mutex m (\<lambda>x. x\<lparr>locked := True\<rparr>) s))"

definition mutex_unlock :: "nat \<Rightarrow> 'v Scheduler \<Rightarrow> 'v Scheduler" where
  "mutex_unlock m s = (
     let s = upd_mutex m (\<lambda>x. x\<lparr>locked := False\<rparr>) s in
     case waiters (mutexes s m) of
       [] \<Rightarrow> s
     | f # fs \<Rightarrow> resume f (upd_mutex m (\<lambda>x. x\<lparr>waiters := fs\<rparr>) s))"

definition chan_send :: "nat \<Rightarrow> 'v \<Rightarrow> 'v Scheduler \<Rightarrow> 'v Scheduler attempt" where
  "chan_send c v s = (
     if length (chan_queue (channels s c)) \<ge> capacity (channels s c)
     then (case current_fiber s of
         Some f \<Rightarrow> Suspended_in (sched_yield
           (upd_channel c (\<lambda>x. x\<lparr>send_waiters := send_waiters x @ [f]\<rparr>) (set_state f SUSPENDED s)))
       | None \<Rightarrow> Spins)
     else Done_with (
       let s = upd_channel c (\<lambda>x. x\<lparr>chan_queue := chan_queue x @ [v]\<rparr>) s in
       case recv_waiters (channels s c) of
         [] \<Rightarrow> s
       | f # fs \<Rightarrow> resume f (upd_channel c (\<lambda>x. x\<lparr>recv_waiters := fs\<rparr>) s)))"

definition chan_receive :: "nat \<Rightarrow> 'v Scheduler \<Rightarrow> ('v option \<times> 'v Scheduler) attempt" where
  "chan_receive c s = (case chan_queue (channels s c) of
     [] \<Rightarrow> (case current_fiber s of
         Some f \<Rightarrow> Suspended_in (None, sched_yield
           (upd_channel c (\<lambda>x. x\<lparr>recv_waiters := recv_waiters x @ [f]\<rparr>) (set_state f SUSPENDED s)))
       | None \<Rightarrow> Refused)
   | v # vs \<Rightarrow> Done_with (Some v,
       let s = upd_channel c (\<lambda>x. x\<lparr>chan_queue := vs\<rparr>) s in
       case send_waiters (channels s c) of
         [] \<Rightarrow> s
       | f # fs \<Rightarrow> resume f (upd_channel c (\<lambda>x. x\<lparr>send_waiters := fs\<rparr>) s)))"

subsection \<open>Running\<close>

text \<open>
  One call of the running fiber, with the event it makes. A suspended call keeps the context, because
  the loop around the suspension tests its condition again.
\<close>

fun fiber_call :: "nat \<Rightarrow> 'v fiber_code \<Rightarrow> 'v Scheduler \<Rightarrow> 'v Scheduler \<times> 'v fiber_event list" where
  "fiber_call f Return s = (sched_yield (set_state f DEAD s), [])"
| "fiber_call f (Yield k) s = (sched_yield (set_ctx f k s), [])"
| "fiber_call f (Lock m k) s = (case mutex_lock m s of
     Done_with s' \<Rightarrow> (set_ctx f k s', [Locked m])
   | Suspended_in s' \<Rightarrow> (s', [])
   | _ \<Rightarrow> (s, []))"
| "fiber_call f (Unlock m k) s = (mutex_unlock m (set_ctx f k s), [Unlocked m])"
| "fiber_call f (Send c v k) s = (case chan_send c v s of
     Done_with s' \<Rightarrow> (set_ctx f k s', [Sent c v])
   | Suspended_in s' \<Rightarrow> (s', [])
   | _ \<Rightarrow> (s, []))"
| "fiber_call f (Receive c k) s = (case chan_receive c s of
     Done_with (Some v, s') \<Rightarrow> (set_ctx f (k v) s', [Received c v])
   | Suspended_in (_, s') \<Rightarrow> (s', [])
   | _ \<Rightarrow> (s, []))"
| "fiber_call f (Spawn p k) s = (snd (spawn True p (set_ctx f k s)), [])"

definition fiber_step :: "'v Scheduler \<Rightarrow> 'v Scheduler \<times> 'v fiber_event list" where
  "fiber_step s = (case current_fiber s of
     None \<Rightarrow> (dispatch s, [])
   | Some f \<Rightarrow> fiber_call f (fiber_ctx (fibers s ! f)) s)"

definition fiber_busy :: "'v Scheduler \<times> 'v fiber_event list \<Rightarrow> bool" where
  "fiber_busy = (\<lambda>(s, l). current_fiber s \<noteq> None \<or> ready_queue s \<noteq> [])"

definition fiber_next :: "'v Scheduler \<times> 'v fiber_event list \<Rightarrow> 'v Scheduler \<times> 'v fiber_event list" where
  "fiber_next = (\<lambda>(s, l). (fst (fiber_step s), l @ snd (fiber_step s)))"

definition sched_run :: "'v Scheduler \<Rightarrow> ('v Scheduler \<times> 'v fiber_event list) option" where
  "sched_run s = while_option fiber_busy fiber_next (s, [])"

definition sched_init :: "(nat \<Rightarrow> nat) \<Rightarrow> 'v Scheduler" where
  "sched_init caps = \<lparr>next_id = 0, ready_queue = [], current_fiber = None, fibers = [],
     mutexes = (\<lambda>_. \<lparr>locked = False, waiters = []\<rparr>),
     channels = (\<lambda>c. \<lparr>capacity = caps c, chan_queue = [], send_waiters = [], recv_waiters = []\<rparr>)\<rparr>"

fun spawn_all :: "'v fiber_code list \<Rightarrow> 'v Scheduler \<Rightarrow> 'v Scheduler" where
  "spawn_all [] s = s"
| "spawn_all (p # ps) s = spawn_all ps (snd (spawn True p s))"

subsection \<open>What fibers wait for\<close>

text \<open>
  A mutex has one thing to wait for, a channel two: room and a value. In these terms the
  waiting lists of mutexes and channels obey the same laws.
\<close>

datatype resource = Mx nat | Room nat | Value nat

fun wants :: "'v fiber_code \<Rightarrow> resource option" where
  "wants (Lock m k) = Some (Mx m)"
| "wants (Send c v k) = Some (Room c)"
| "wants (Receive c k) = Some (Value c)"
| "wants _ = None"

fun queue_of :: "'v Scheduler \<Rightarrow> resource \<Rightarrow> nat list" where
  "queue_of s (Mx m) = waiters (mutexes s m)"
| "queue_of s (Room c) = send_waiters (channels s c)"
| "queue_of s (Value c) = recv_waiters (channels s c)"

fun set_queue :: "resource \<Rightarrow> nat list \<Rightarrow> 'v Scheduler \<Rightarrow> 'v Scheduler" where
  "set_queue (Mx m) q s = upd_mutex m (\<lambda>x. x\<lparr>waiters := q\<rparr>) s"
| "set_queue (Room c) q s = upd_channel c (\<lambda>x. x\<lparr>send_waiters := q\<rparr>) s"
| "set_queue (Value c) q s = upd_channel c (\<lambda>x. x\<lparr>recv_waiters := q\<rparr>) s"

fun available :: "'v Scheduler \<Rightarrow> resource \<Rightarrow> nat" where
  "available s (Mx m) = (if locked (mutexes s m) then 0 else 1)"
| "available s (Room c) = capacity (channels s c) - length (chan_queue (channels s c))"
| "available s (Value c) = length (chan_queue (channels s c))"

definition wake :: "resource \<Rightarrow> 'v Scheduler \<Rightarrow> 'v Scheduler" where
  "wake r s = (case queue_of s r of [] \<Rightarrow> s | f # fs \<Rightarrow> resume f (set_queue r fs s))"

definition suspend :: "resource \<Rightarrow> nat \<Rightarrow> 'v Scheduler \<Rightarrow> 'v Scheduler" where
  "suspend r f s = sched_yield (set_queue r (queue_of s r @ [f]) (set_state f SUSPENDED s))"

abbreviation state_of :: "'v Scheduler \<Rightarrow> nat \<Rightarrow> FiberState" where
  "state_of s f \<equiv> fiber_state (fibers s ! f)"

abbreviation ctx_of :: "'v Scheduler \<Rightarrow> nat \<Rightarrow> 'v fiber_code" where
  "ctx_of s f \<equiv> fiber_ctx (fibers s ! f)"

definition active :: "'v Scheduler \<Rightarrow> nat list" where
  "active s = (case current_fiber s of None \<Rightarrow> [] | Some f \<Rightarrow> [f]) @ ready_queue s"

definition claims :: "'v Scheduler \<Rightarrow> resource \<Rightarrow> nat" where
  "claims s r = length (filter (\<lambda>f. wants (ctx_of s f) = Some r) (active s))"

text \<open>
  Every fiber is where its state says, once; and no wake-up is lost: while fibers wait for something,
  whatever is available of it has a fiber on its way to take it, up to the debt \<open>d\<close> of an operation
  that has not yet woken its waiter.
\<close>

definition sched_inv :: "(resource \<Rightarrow> nat) \<Rightarrow> 'v Scheduler \<Rightarrow> bool" where
  "sched_inv d s \<longleftrightarrow>
     distinct (active s) \<and> (\<forall>f\<in>set (active s). f < length (fibers s))
     \<and> (\<forall>f<length (fibers s). (state_of s f = READY \<longleftrightarrow> f \<in> set (ready_queue s))
         \<and> (state_of s f = RUNNING \<longleftrightarrow> current_fiber s = Some f)
         \<and> (state_of s f = SUSPENDED \<longrightarrow> (\<exists>r. wants (ctx_of s f) = Some r \<and> f \<in> set (queue_of s r))))
     \<and> (\<forall>r. distinct (queue_of s r)
         \<and> (\<forall>f\<in>set (queue_of s r). f < length (fibers s) \<and> state_of s f = SUSPENDED \<and> wants (ctx_of s f) = Some r)
         \<and> (queue_of s r \<noteq> [] \<longrightarrow> available s r \<le> claims s r + d r))"

abbreviation no_debt :: "resource \<Rightarrow> nat" where
  "no_debt \<equiv> \<lambda>_. 0"

definition debt :: "resource \<Rightarrow> resource \<Rightarrow> nat" where
  "debt r = (\<lambda>r'. if r' = r then 1 else 0)"

lemma queue_of_set_state [simp]: "queue_of (set_state f st s) r = queue_of s r"
  by (cases r) (simp_all add: set_state_def)

lemma queue_of_set_ctx [simp]: "queue_of (set_ctx f k s) r = queue_of s r"
  by (cases r) (simp_all add: set_ctx_def)

lemma queue_of_ready [simp]: "queue_of (s\<lparr>ready_queue := q\<rparr>) r = queue_of s r"
  by (cases r) simp_all

lemma queue_of_current [simp]: "queue_of (s\<lparr>current_fiber := q\<rparr>) r = queue_of s r"
  by (cases r) simp_all

lemma queue_of_fibers [simp]: "queue_of (s\<lparr>fibers := q\<rparr>) r = queue_of s r"
  by (cases r) simp_all

lemma queue_of_set_queue [simp]: "queue_of (set_queue r q s) r' = (if r' = r then q else queue_of s r')"
  by (cases r; cases r') (simp_all add: upd_mutex_def upd_channel_def)

lemma available_set_state [simp]: "available (set_state f st s) r = available s r"
  by (cases r) (simp_all add: set_state_def)

lemma available_set_ctx [simp]: "available (set_ctx f k s) r = available s r"
  by (cases r) (simp_all add: set_ctx_def)

lemma available_ready [simp]: "available (s\<lparr>ready_queue := q\<rparr>) r = available s r"
  by (cases r) simp_all

lemma available_current [simp]: "available (s\<lparr>current_fiber := q\<rparr>) r = available s r"
  by (cases r) simp_all

lemma available_fibers [simp]: "available (s\<lparr>fibers := q\<rparr>) r = available s r"
  by (cases r) simp_all

lemma available_set_queue [simp]: "available (set_queue r q s) r' = available s r'"
  by (cases r; cases r') (simp_all add: upd_mutex_def upd_channel_def)

lemma set_queue_fields [simp]:
  "fibers (set_queue r q s) = fibers s" "ready_queue (set_queue r q s) = ready_queue s"
  "current_fiber (set_queue r q s) = current_fiber s"
  by (cases r; simp add: upd_mutex_def upd_channel_def)+

lemma set_state_fields [simp]:
  "ready_queue (set_state f st s) = ready_queue s" "current_fiber (set_state f st s) = current_fiber s"
  "length (fibers (set_state f st s)) = length (fibers s)"
  "f < length (fibers s) \<Longrightarrow> state_of (set_state f st s) g = (if g = f then st else state_of s g)"
  "f < length (fibers s) \<Longrightarrow> ctx_of (set_state f st s) g = ctx_of s g"
  by (simp_all add: set_state_def nth_list_update)

lemma set_ctx_fields [simp]:
  "ready_queue (set_ctx f k s) = ready_queue s" "current_fiber (set_ctx f k s) = current_fiber s"
  "length (fibers (set_ctx f k s)) = length (fibers s)"
  "f < length (fibers s) \<Longrightarrow> ctx_of (set_ctx f k s) g = (if g = f then k else ctx_of s g)"
  "f < length (fibers s) \<Longrightarrow> state_of (set_ctx f k s) g = state_of s g"
  by (simp_all add: set_ctx_def nth_list_update)

lemma sched_invI:
  assumes "distinct (active s)" "\<And>f. f \<in> set (active s) \<Longrightarrow> f < length (fibers s)"
    "\<And>f. f < length (fibers s) \<Longrightarrow> state_of s f = READY \<longleftrightarrow> f \<in> set (ready_queue s)"
    "\<And>f. f < length (fibers s) \<Longrightarrow> state_of s f = RUNNING \<longleftrightarrow> current_fiber s = Some f"
    "\<And>f. f < length (fibers s) \<Longrightarrow> state_of s f = SUSPENDED \<Longrightarrow> \<exists>r. wants (ctx_of s f) = Some r \<and> f \<in> set (queue_of s r)"
    "\<And>r. distinct (queue_of s r)"
    "\<And>r f. f \<in> set (queue_of s r) \<Longrightarrow> f < length (fibers s) \<and> state_of s f = SUSPENDED \<and> wants (ctx_of s f) = Some r"
    "\<And>r. queue_of s r \<noteq> [] \<Longrightarrow> available s r \<le> claims s r + d r"
  shows "sched_inv d s"
  unfolding sched_inv_def using assms by blast

lemma sched_invD:
  assumes "sched_inv d s"
  shows "distinct (active s)" "\<And>f. f \<in> set (active s) \<Longrightarrow> f < length (fibers s)"
    "\<And>f. f < length (fibers s) \<Longrightarrow> state_of s f = READY \<longleftrightarrow> f \<in> set (ready_queue s)"
    "\<And>f. f < length (fibers s) \<Longrightarrow> state_of s f = RUNNING \<longleftrightarrow> current_fiber s = Some f"
    "\<And>f. f < length (fibers s) \<Longrightarrow> state_of s f = SUSPENDED \<Longrightarrow> \<exists>r. wants (ctx_of s f) = Some r \<and> f \<in> set (queue_of s r)"
    "\<And>r. distinct (queue_of s r)"
    "\<And>r f. f \<in> set (queue_of s r) \<Longrightarrow> f < length (fibers s) \<and> state_of s f = SUSPENDED \<and> wants (ctx_of s f) = Some r"
    "\<And>r. queue_of s r \<noteq> [] \<Longrightarrow> available s r \<le> claims s r + d r"
  using assms unfolding sched_inv_def by blast+

lemma sched_inv_current:
  assumes "sched_inv d s" "current_fiber s = Some f"
  shows "f < length (fibers s)" "state_of s f = RUNNING" "f \<notin> set (ready_queue s)" "f \<notin> set (queue_of s r)"
proof -
  show l: "f < length (fibers s)" using sched_invD(2) [OF assms(1), of f] assms(2) by (simp add: active_def)
  show r: "state_of s f = RUNNING" using sched_invD(4) [OF assms(1) l] assms(2) by simp
  show "f \<notin> set (ready_queue s)" using sched_invD(3) [OF assms(1) l] r by simp
  show "f \<notin> set (queue_of s r)" using sched_invD(7) [OF assms(1), of f r] r by auto
qed

lemma dispatch_inv:
  assumes inv: "sched_inv no_debt s" and cur: "current_fiber s = None"
  shows "sched_inv no_debt (dispatch s)"
proof (cases "ready_queue s")
  case Nil
  then show ?thesis using inv by (simp add: dispatch_def)
next
  case (Cons f fs)
  note D = sched_invD [OF inv]
  have l: "f < length (fibers s)" using D(2) [of f] Cons by (simp add: active_def)
  have rd: "state_of s f = READY" using D(3) [OF l] Cons by simp
  define s' where "s' = (set_state f RUNNING s)\<lparr>ready_queue := fs, current_fiber := Some f\<rparr>"
  have eq: "dispatch s = s'" using rd Cons by (simp add: dispatch_def s'_def)
  have rq: "ready_queue s' = fs" "current_fiber s' = Some f" by (simp_all add: s'_def)
  have act: "active s' = active s" using cur Cons by (simp add: active_def rq)
  have ds: "f \<notin> set fs" using D(1) Cons by (simp add: active_def)
  have st: "state_of s' g = (if g = f then RUNNING else state_of s g)" "ctx_of s' g = ctx_of s g"
      "length (fibers s') = length (fibers s)" "queue_of s' r = queue_of s r" "available s' r = available s r"
    for g r using l by (simp_all add: s'_def)
  have cl: "claims s' r = claims s r" for r by (simp add: claims_def act st)
  have nq: "f \<notin> set (queue_of s r)" for r using D(7) [of f r] rd by auto
  show ?thesis unfolding eq
  proof (rule sched_invI)
    show "state_of s' g = READY \<longleftrightarrow> g \<in> set (ready_queue s')" if "g < length (fibers s')" for g
      using D(3) [of g] that Cons ds by (auto simp: st rq)
    show "state_of s' g = RUNNING \<longleftrightarrow> current_fiber s' = Some g" if "g < length (fibers s')" for g
      using D(4) [of g] that cur by (auto simp: st rq)
    show "g < length (fibers s') \<and> state_of s' g = SUSPENDED \<and> wants (ctx_of s' g) = Some r"
      if "g \<in> set (queue_of s' r)" for r g
      using D(7) [of g r] that nq by (auto simp: st)
  qed (use D in \<open>auto simp: act st cl split: if_splits\<close>)
qed

text \<open>
  The calling fiber advances to its next call, possibly taking what it wanted and making something
  available, which is then a debt.
\<close>

lemma advance_inv:
  assumes inv: "sched_inv no_debt s" and cur: "current_fiber s = Some f"
    and fib: "fibers s' = fibers (set_ctx f k s)" and rq: "ready_queue s' = ready_queue s"
    and cf: "current_fiber s' = Some f" and q: "\<And>r. queue_of s' r = queue_of s r"
    and av: "\<And>r. available s' r \<le> available s r - (if wants (ctx_of s f) = Some r then 1 else 0) + d r"
  shows "sched_inv d s'"
proof -
  note D = sched_invD [OF inv]
  note C = sched_inv_current [OF inv cur]
  have st: "state_of s' g = state_of s g" "ctx_of s' g = (if g = f then k else ctx_of s g)"
      "length (fibers s') = length (fibers s)" for g
    using C(1) by (simp_all add: fib)
  have act: "active s' = active s" using cur cf rq by (simp add: active_def)
  have "filter (\<lambda>g. wants (ctx_of s' g) = Some r) (ready_queue s)
      = filter (\<lambda>g. wants (ctx_of s g) = Some r) (ready_queue s)" for r
    using C(3) by (intro filter_cong) (auto simp: st)
  then have cl: "claims s r \<le> claims s' r + (if wants (ctx_of s f) = Some r then 1 else 0)" for r
    using cur cf rq by (simp add: claims_def active_def st)
  show ?thesis
  proof (rule sched_invI)
    show "\<exists>r. wants (ctx_of s' g) = Some r \<and> g \<in> set (queue_of s' r)"
      if "g < length (fibers s')" "state_of s' g = SUSPENDED" for g
    proof -
      have "g \<noteq> f" using that C(2) by (auto simp: st)
      then show ?thesis using D(5) [of g] that by (simp add: st q)
    qed
    show "g < length (fibers s') \<and> state_of s' g = SUSPENDED \<and> wants (ctx_of s' g) = Some r"
      if "g \<in> set (queue_of s' r)" for r g
      using D(7) [of g r] that C(4) by (auto simp: st q)
    show "available s' r \<le> claims s' r + d r" if "queue_of s' r \<noteq> []" for r
      using D(8) [of r] that av [of r] cl [of r] by (simp add: q split: if_splits)
  qed (use D cur cf in \<open>simp_all add: act st q rq\<close>)
qed

text \<open>The current fiber gives control back, ready, dead or suspended.\<close>

lemma yield_inv:
  assumes inv: "sched_inv no_debt s" and cur: "current_fiber s = Some f"
  shows "sched_inv no_debt (sched_yield s)"
proof -
  note D = sched_invD [OF inv]
  note C = sched_inv_current [OF inv cur]
  define s' where "s' = (set_state f READY s)\<lparr>ready_queue := ready_queue s @ [f], current_fiber := None\<rparr>"
  have eq: "sched_yield s = s'" using cur C(2) by (simp add: sched_yield_def s'_def)
  have rq: "ready_queue s' = ready_queue s @ [f]" "current_fiber s' = None" by (simp_all add: s'_def)
  have st: "state_of s' g = (if g = f then READY else state_of s g)" "ctx_of s' g = ctx_of s g"
      "length (fibers s') = length (fibers s)" "queue_of s' r = queue_of s r" "available s' r = available s r"
    for g r using C(1) by (simp_all add: s'_def)
  have cl: "claims s' r = claims s r" for r using cur by (simp add: claims_def active_def rq st)
  show ?thesis unfolding eq
  proof (rule sched_invI)
    show "distinct (active s')" using D(1) cur by (simp add: active_def rq)
    show "g < length (fibers s')" if "g \<in> set (active s')" for g
      using D(2) [of g] that cur by (auto simp: active_def rq st)
    show "state_of s' g = READY \<longleftrightarrow> g \<in> set (ready_queue s')" if "g < length (fibers s')" for g
      using D(3) [of g] that by (auto simp: st rq)
    show "state_of s' g = RUNNING \<longleftrightarrow> current_fiber s' = Some g" if "g < length (fibers s')" for g
      using D(4) [of g] that cur by (auto simp: st rq)
    show "g < length (fibers s') \<and> state_of s' g = SUSPENDED \<and> wants (ctx_of s' g) = Some r"
      if "g \<in> set (queue_of s' r)" for r g
      using D(7) [of g r] that C(4) by (auto simp: st)
  qed (use D in \<open>auto simp: st cl split: if_splits\<close>)
qed

lemma die_inv:
  assumes inv: "sched_inv no_debt s" and cur: "current_fiber s = Some f" and w: "wants (ctx_of s f) = None"
  shows "sched_inv no_debt (sched_yield (set_state f DEAD s))"
proof -
  note D = sched_invD [OF inv]
  note C = sched_inv_current [OF inv cur]
  define s' where "s' = (set_state f DEAD s)\<lparr>current_fiber := None\<rparr>"
  have eq: "sched_yield (set_state f DEAD s) = s'" using cur C(1) by (simp add: sched_yield_def s'_def)
  have rq: "ready_queue s' = ready_queue s" "current_fiber s' = None" by (simp_all add: s'_def)
  have st: "state_of s' g = (if g = f then DEAD else state_of s g)" "ctx_of s' g = ctx_of s g"
      "length (fibers s') = length (fibers s)" "queue_of s' r = queue_of s r" "available s' r = available s r"
    for g r using C(1) by (simp_all add: s'_def)
  have cl: "claims s' r = claims s r" for r using cur w by (simp add: claims_def active_def rq st)
  show ?thesis unfolding eq
  proof (rule sched_invI)
    show "distinct (active s')" using D(1) cur by (simp add: active_def rq)
    show "g < length (fibers s')" if "g \<in> set (active s')" for g
      using D(2) [of g] that cur by (auto simp: active_def rq st)
    show "state_of s' g = READY \<longleftrightarrow> g \<in> set (ready_queue s')" if "g < length (fibers s')" for g
      using D(3) [of g] that C(3) by (auto simp: st rq)
    show "state_of s' g = RUNNING \<longleftrightarrow> current_fiber s' = Some g" if "g < length (fibers s')" for g
      using D(4) [of g] that cur by (auto simp: st rq)
    show "g < length (fibers s') \<and> state_of s' g = SUSPENDED \<and> wants (ctx_of s' g) = Some r"
      if "g \<in> set (queue_of s' r)" for r g
      using D(7) [of g r] that C(4) by (auto simp: st)
  qed (use D in \<open>auto simp: st cl split: if_splits\<close>)
qed

lemma suspend_inv:
  assumes inv: "sched_inv no_debt s" and cur: "current_fiber s = Some f"
    and w: "wants (ctx_of s f) = Some r" and none: "available s r = 0"
  shows "sched_inv no_debt (suspend r f s)"
proof -
  note D = sched_invD [OF inv]
  note C = sched_inv_current [OF inv cur]
  define s' where "s' = (set_queue r (queue_of s r @ [f]) (set_state f SUSPENDED s))\<lparr>current_fiber := None\<rparr>"
  have eq: "suspend r f s = s'" using cur C(1) by (simp add: suspend_def sched_yield_def s'_def)
  have rq: "ready_queue s' = ready_queue s" "current_fiber s' = None" by (simp_all add: s'_def)
  have st: "state_of s' g = (if g = f then SUSPENDED else state_of s g)" "ctx_of s' g = ctx_of s g"
      "length (fibers s') = length (fibers s)" "queue_of s' r' = (if r' = r then queue_of s r @ [f] else queue_of s r')"
      "available s' r' = available s r'"
    for g r' using C(1) by (simp_all add: s'_def)
  have cl: "r' \<noteq> r \<Longrightarrow> claims s' r' = claims s r'" for r'
    using cur w by (simp add: claims_def active_def rq st)
  show ?thesis unfolding eq
  proof (rule sched_invI)
    show "distinct (active s')" using D(1) cur by (simp add: active_def rq)
    show "g < length (fibers s')" if "g \<in> set (active s')" for g
      using D(2) [of g] that cur by (auto simp: active_def rq st)
    show "state_of s' g = READY \<longleftrightarrow> g \<in> set (ready_queue s')" if "g < length (fibers s')" for g
      using D(3) [of g] that C(3) by (auto simp: st rq)
    show "state_of s' g = RUNNING \<longleftrightarrow> current_fiber s' = Some g" if "g < length (fibers s')" for g
      using D(4) [of g] that cur by (auto simp: st rq)
    show "\<exists>r'. wants (ctx_of s' g) = Some r' \<and> g \<in> set (queue_of s' r')"
      if g: "g < length (fibers s')" "state_of s' g = SUSPENDED" for g
    proof (cases "g = f")
      case True
      then show ?thesis using w by (auto simp: st)
    next
      case False
      then obtain r' where "wants (ctx_of s g) = Some r'" "g \<in> set (queue_of s r')"
        using D(5) [of g] g by (auto simp: st)
      then show ?thesis by (auto simp: st)
    qed
    show "distinct (queue_of s' r')" for r' using D(6) C(4) by (simp add: st)
    show "g < length (fibers s') \<and> state_of s' g = SUSPENDED \<and> wants (ctx_of s' g) = Some r'"
      if "g \<in> set (queue_of s' r')" for r' g
      using D(7) [of g r'] that C(1) w by (auto simp: st split: if_splits)
    show "available s' r' \<le> claims s' r' + no_debt r'" if "queue_of s' r' \<noteq> []" for r'
      using D(8) [of r'] that none cl [of r'] by (auto simp: st split: if_splits)
  qed
qed

lemma sched_inv_less:
  assumes "sched_inv d s" "\<And>r. queue_of s r \<noteq> [] \<Longrightarrow> d r \<le> d' r"
  shows "sched_inv d' s"
proof (rule sched_invI)
  show "available s r \<le> claims s r + d' r" if "queue_of s r \<noteq> []" for r
    using sched_invD(8) [OF assms(1) that] assms(2) [OF that] by linarith
qed (use sched_invD [OF assms(1)] in blast)+

lemma wake_inv:
  assumes inv: "sched_inv (debt r) s"
  shows "sched_inv no_debt (wake r s)"
proof (cases "queue_of s r")
  case Nil
  then have "sched_inv no_debt s" by (intro sched_inv_less [OF inv]) (auto simp: debt_def)
  then show ?thesis using Nil by (simp add: wake_def)
next
  case (Cons f fs)
  note D = sched_invD [OF inv]
  have f: "f < length (fibers s)" "state_of s f = SUSPENDED" "wants (ctx_of s f) = Some r" "f \<notin> set fs"
    using D(7) [of f r] D(6) [of r] Cons by auto
  have na: "f \<notin> set (active s)"
    using D(3) [OF f(1)] D(4) [OF f(1)] f(2) by (auto simp: active_def split: option.splits)
  define s' where "s' = (set_state f READY (set_queue r fs s))\<lparr>ready_queue := ready_queue s @ [f]\<rparr>"
  have eq: "wake r s = s'" using Cons f(2) by (simp add: wake_def resume_def s'_def)
  have rq: "ready_queue s' = ready_queue s @ [f]" "current_fiber s' = current_fiber s" by (simp_all add: s'_def)
  then have act: "active s' = active s @ [f]" by (simp add: active_def)
  have st: "state_of s' g = (if g = f then READY else state_of s g)" "ctx_of s' g = ctx_of s g"
      "length (fibers s') = length (fibers s)" "queue_of s' r' = (if r' = r then fs else queue_of s r')"
      "available s' r' = available s r'"
    for g r' using f(1) by (simp_all add: s'_def)
  have cl: "claims s' r' = claims s r' + debt r r'" for r'
    using f(3) by (simp add: claims_def act st debt_def)
  show ?thesis unfolding eq
  proof (rule sched_invI)
    show "distinct (active s')" using D(1) na by (simp add: act)
    show "g < length (fibers s')" if "g \<in> set (active s')" for g
      using D(2) [of g] that f(1) by (auto simp: act st)
    show "state_of s' g = READY \<longleftrightarrow> g \<in> set (ready_queue s')" if "g < length (fibers s')" for g
      using D(3) [of g] that by (auto simp: st rq)
    show "state_of s' g = RUNNING \<longleftrightarrow> current_fiber s' = Some g" if "g < length (fibers s')" for g
      using D(4) [of g] that f(2) by (auto simp: st rq)
    show "\<exists>r'. wants (ctx_of s' g) = Some r' \<and> g \<in> set (queue_of s' r')"
      if g: "g < length (fibers s')" "state_of s' g = SUSPENDED" for g
    proof -
      have "g \<noteq> f" using g by (auto simp: st)
      moreover obtain r' where "wants (ctx_of s g) = Some r'" "g \<in> set (queue_of s r')"
        using D(5) [of g] g by (auto simp: st split: if_splits)
      ultimately show ?thesis using Cons by (auto simp: st)
    qed
    show "distinct (queue_of s' r')" for r' using D(6) [of r] D(6) [of r'] Cons by (simp add: st)
    show "g < length (fibers s') \<and> state_of s' g = SUSPENDED \<and> wants (ctx_of s' g) = Some r'"
      if g: "g \<in> set (queue_of s' r')" for r' g
    proof -
      have "g \<in> set (queue_of s r')" using g Cons by (auto simp: st split: if_splits)
      moreover from this have "g \<noteq> f" using g f(3,4) D(7) [of g r'] by (auto simp: st split: if_splits)
      ultimately show ?thesis using D(7) [of g r'] by (simp add: st)
    qed
    show "available s' r' \<le> claims s' r' + no_debt r'" if "queue_of s' r' \<noteq> []" for r'
      using D(8) [of r'] that Cons by (auto simp: st cl split: if_splits)
  qed
qed

lemma spawn_inv:
  assumes inv: "sched_inv no_debt s"
  shows "sched_inv no_debt (snd (spawn True p s))"
proof -
  note D = sched_invD [OF inv]
  let ?n = "length (fibers s)"
  define s' where "s' = snd (spawn True p s)"
  have fib: "fibers s' = fibers s @ [\<lparr>fiber_id = next_id s + 1, fiber_state = READY, fiber_ctx = p\<rparr>]"
    and rq: "ready_queue s' = ready_queue s @ [?n]" "current_fiber s' = current_fiber s"
    and mc: "mutexes s' = mutexes s" "channels s' = channels s"
    by (simp_all add: s'_def spawn_def Let_def)
  have q: "queue_of s' r = queue_of s r" "available s' r = available s r" for r
    by (cases r; simp add: mc)+
  have act: "active s' = active s @ [?n]" by (simp add: active_def rq)
  have st: "g < ?n \<Longrightarrow> fibers s' ! g = fibers s ! g" "state_of s' ?n = READY" "length (fibers s') = Suc ?n" for g
    by (simp_all add: fib nth_append)
  have "filter (\<lambda>f. wants (ctx_of s' f) = Some r) (active s) = filter (\<lambda>f. wants (ctx_of s f) = Some r) (active s)" for r
    using D(2) by (intro filter_cong) (auto simp: st)
  then have cl: "claims s r \<le> claims s' r" for r by (simp add: claims_def act)
  have nq: "?n \<notin> set (queue_of s r)" for r using D(7) [of ?n r] by auto
  show ?thesis unfolding s'_def [symmetric]
  proof (rule sched_invI)
    show "distinct (active s')" using D(1) D(2) [of ?n] by (auto simp: act)
    show "g < length (fibers s')" if "g \<in> set (active s')" for g
      using D(2) [of g] that by (auto simp: act st)
    show "state_of s' g = READY \<longleftrightarrow> g \<in> set (ready_queue s')" if "g < length (fibers s')" for g
      using D(3) [of g] that by (auto simp: st rq less_Suc_eq)
    show "state_of s' g = RUNNING \<longleftrightarrow> current_fiber s' = Some g" if "g < length (fibers s')" for g
      using D(4) [of g] D(2) [of ?n] that by (auto simp: st rq less_Suc_eq active_def)
    show "\<exists>r. wants (ctx_of s' g) = Some r \<and> g \<in> set (queue_of s' r)"
      if "g < length (fibers s')" "state_of s' g = SUSPENDED" for g
      using D(5) [of g] that by (auto simp: st q less_Suc_eq)
    show "g < length (fibers s') \<and> state_of s' g = SUSPENDED \<and> wants (ctx_of s' g) = Some r"
      if "g \<in> set (queue_of s' r)" for r g
      using D(7) [of g r] that by (auto simp: st q)
    show "available s' r \<le> claims s' r + no_debt r" if "queue_of s' r \<noteq> []" for r
      using D(8) [of r] that cl [of r] by (simp add: q)
  qed (use D in \<open>simp add: q\<close>)
qed

subsection \<open>Every call keeps the invariant\<close>

lemma set_ctx_resume:
  assumes "f < length (fibers s)" "g < length (fibers s)"
  shows "set_ctx f k (resume g s) = resume g (set_ctx f k s)"
proof -
  have swap: "x\<lparr>fiber_state := READY, fiber_ctx := k\<rparr> = x\<lparr>fiber_ctx := k, fiber_state := READY\<rparr>" for x
    by (cases x) simp
  have "(fibers s)[g := (fibers s ! g)\<lparr>fiber_state := READY\<rparr>,
        f := ((fibers s)[g := (fibers s ! g)\<lparr>fiber_state := READY\<rparr>] ! f)\<lparr>fiber_ctx := k\<rparr>]
      = (fibers s)[f := (fibers s ! f)\<lparr>fiber_ctx := k\<rparr>,
        g := ((fibers s)[f := (fibers s ! f)\<lparr>fiber_ctx := k\<rparr>] ! g)\<lparr>fiber_state := READY\<rparr>]"
  proof (cases "f = g")
    case True
    show ?thesis unfolding True using assms(2) by (simp only: nth_list_update_eq list_update_overwrite swap)
  next
    case False
    then show ?thesis by (simp add: list_update_swap)
  qed
  moreover have "fiber_state ((fibers s)[f := (fibers s ! f)\<lparr>fiber_ctx := k\<rparr>] ! g) = state_of s g"
    using assms by (simp add: nth_list_update)
  ultimately show ?thesis by (simp add: set_ctx_def resume_def set_state_def)
qed

lemma set_ctx_upd_channel: "set_ctx f k (upd_channel c g s) = upd_channel c g (set_ctx f k s)"
  by (simp add: set_ctx_def upd_channel_def)

lemma set_ctx_mutexes [simp]:
  "mutexes (set_ctx f k s) = mutexes s" "channels (set_ctx f k s) = channels s"
  "mutexes (set_state f st s) = mutexes s" "channels (set_state f st s) = channels s"
  by (simp_all add: set_ctx_def set_state_def)

lemma upd_mutex_fields [simp]:
  "fibers (upd_mutex m g s) = fibers s" "ready_queue (upd_mutex m g s) = ready_queue s"
  "current_fiber (upd_mutex m g s) = current_fiber s" "channels (upd_mutex m g s) = channels s"
  "mutexes (upd_mutex m g s) = (mutexes s)(m := g (mutexes s m))"
  by (simp_all add: upd_mutex_def)

lemma upd_channel_fields [simp]:
  "fibers (upd_channel c h s) = fibers s" "ready_queue (upd_channel c h s) = ready_queue s"
  "current_fiber (upd_channel c h s) = current_fiber s" "mutexes (upd_channel c h s) = mutexes s"
  "channels (upd_channel c h s) = (channels s)(c := h (channels s c))"
  by (simp_all add: upd_channel_def)

lemma mutex_lock_eq:
  assumes "current_fiber s = Some f"
  shows "mutex_lock m s = (if locked (mutexes s m) then Suspended_in (suspend (Mx m) f s)
    else Done_with (upd_mutex m (\<lambda>x. x\<lparr>locked := True\<rparr>) s))"
  using assms by (simp add: mutex_lock_def suspend_def upd_mutex_def)

lemma mutex_unlock_eq: "mutex_unlock m s = wake (Mx m) (upd_mutex m (\<lambda>x. x\<lparr>locked := False\<rparr>) s)"
  by (simp add: mutex_unlock_def wake_def Let_def split: list.splits)

lemma chan_send_eq:
  assumes "current_fiber s = Some f"
  shows "chan_send c v s = (if length (chan_queue (channels s c)) \<ge> capacity (channels s c)
    then Suspended_in (suspend (Room c) f s)
    else Done_with (wake (Value c) (upd_channel c (\<lambda>x. x\<lparr>chan_queue := chan_queue x @ [v]\<rparr>) s)))"
  using assms by (simp add: chan_send_def suspend_def upd_channel_def wake_def Let_def split: list.splits)

lemma chan_receive_eq:
  assumes "current_fiber s = Some f"
  shows "chan_receive c s = (case chan_queue (channels s c) of
      [] \<Rightarrow> Suspended_in (None, suspend (Value c) f s)
    | v # vs \<Rightarrow> Done_with (Some v, wake (Room c) (upd_channel c (\<lambda>x. x\<lparr>chan_queue := vs\<rparr>) s)))"
  using assms by (simp add: chan_receive_def suspend_def upd_channel_def wake_def Let_def split: list.splits)

lemma set_ctx_set_queue: "set_ctx f k (set_queue r q s) = set_queue r q (set_ctx f k s)"
  by (cases r) (simp_all add: set_ctx_def upd_channel_def upd_mutex_def)

lemma set_ctx_wake:
  assumes "f < length (fibers s)" "\<And>g. g \<in> set (queue_of s r) \<Longrightarrow> g < length (fibers s)"
  shows "set_ctx f k (wake r s) = wake r (set_ctx f k s)"
  using assms by (simp add: wake_def set_ctx_resume set_ctx_set_queue split: list.splits)

lemma lock_inv:
  assumes inv: "sched_inv no_debt s" and cur: "current_fiber s = Some f" and ctx: "ctx_of s f = Lock m k"
  shows "sched_inv no_debt (fst (fiber_call f (Lock m k) s))"
proof (cases "locked (mutexes s m)")
  case True
  then show ?thesis using suspend_inv [OF inv cur, of "Mx m"] by (simp add: ctx mutex_lock_eq [OF cur])
next
  case False
  define s' where "s' = set_ctx f k (upd_mutex m (\<lambda>x. x\<lparr>locked := True\<rparr>) s)"
  have "sched_inv no_debt s'"
  proof (rule advance_inv [OF inv cur])
    show "queue_of s' r = queue_of s r" for r by (cases r) (simp_all add: s'_def)
    show "available s' r \<le> available s r - (if wants (ctx_of s f) = Some r then 1 else 0) + no_debt r" for r
      by (cases r) (simp_all add: s'_def ctx)
  qed (simp_all add: s'_def cur set_ctx_def)
  then show ?thesis using False by (simp add: mutex_lock_eq [OF cur] s'_def)
qed

lemma unlock_inv:
  assumes inv: "sched_inv no_debt s" and cur: "current_fiber s = Some f" and ctx: "ctx_of s f = Unlock m k"
  shows "sched_inv no_debt (fst (fiber_call f (Unlock m k) s))"
proof -
  define s' where "s' = upd_mutex m (\<lambda>x. x\<lparr>locked := False\<rparr>) (set_ctx f k s)"
  have "sched_inv (debt (Mx m)) s'"
  proof (rule advance_inv [OF inv cur])
    show "queue_of s' r = queue_of s r" for r by (cases r) (simp_all add: s'_def)
    show "available s' r \<le> available s r - (if wants (ctx_of s f) = Some r then 1 else 0) + debt (Mx m) r" for r
      by (cases r) (simp_all add: s'_def ctx debt_def)
  qed (simp_all add: s'_def cur)
  then show ?thesis using wake_inv by (simp add: mutex_unlock_eq s'_def)
qed

lemma send_inv:
  assumes inv: "sched_inv no_debt s" and cur: "current_fiber s = Some f" and ctx: "ctx_of s f = Send c v k"
  shows "sched_inv no_debt (fst (fiber_call f (Send c v k) s))"
proof (cases "length (chan_queue (channels s c)) \<ge> capacity (channels s c)")
  case True
  then show ?thesis using suspend_inv [OF inv cur, of "Room c"] by (simp add: ctx chan_send_eq [OF cur])
next
  case False
  define s' where "s' = upd_channel c (\<lambda>x. x\<lparr>chan_queue := chan_queue x @ [v]\<rparr>) (set_ctx f k s)"
  have "sched_inv (debt (Value c)) s'"
  proof (rule advance_inv [OF inv cur])
    show "queue_of s' r = queue_of s r" for r by (cases r) (simp_all add: s'_def)
    show "available s' r \<le> available s r - (if wants (ctx_of s f) = Some r then 1 else 0) + debt (Value c) r" for r
      by (cases r) (simp_all add: s'_def ctx debt_def)
  qed (simp_all add: s'_def cur)
  moreover have "set_ctx f k (wake (Value c) (upd_channel c (\<lambda>x. x\<lparr>chan_queue := chan_queue x @ [v]\<rparr>) s))
      = wake (Value c) s'"
    unfolding s'_def using sched_inv_current(1) [OF inv cur] sched_invD(7) [OF inv, of _ "Value c"]
    by (subst set_ctx_wake) (simp_all add: set_ctx_upd_channel)
  ultimately show ?thesis using False wake_inv by (simp add: chan_send_eq [OF cur])
qed

lemma receive_inv:
  assumes inv: "sched_inv no_debt s" and cur: "current_fiber s = Some f" and ctx: "ctx_of s f = Receive c k"
  shows "sched_inv no_debt (fst (fiber_call f (Receive c k) s))"
proof (cases "chan_queue (channels s c)")
  case Nil
  then show ?thesis using suspend_inv [OF inv cur, of "Value c"] by (simp add: ctx chan_receive_eq [OF cur])
next
  case (Cons v vs)
  define s' where "s' = upd_channel c (\<lambda>x. x\<lparr>chan_queue := vs\<rparr>) (set_ctx f (k v) s)"
  have "sched_inv (debt (Room c)) s'"
  proof (rule advance_inv [OF inv cur])
    show "queue_of s' r = queue_of s r" for r by (cases r) (simp_all add: s'_def)
    show "available s' r \<le> available s r - (if wants (ctx_of s f) = Some r then 1 else 0) + debt (Room c) r" for r
      by (cases r) (auto simp: s'_def ctx debt_def Cons)
  qed (simp_all add: s'_def cur)
  moreover have "set_ctx f (k v) (wake (Room c) (upd_channel c (\<lambda>x. x\<lparr>chan_queue := vs\<rparr>) s))
      = wake (Room c) s'"
    unfolding s'_def using sched_inv_current(1) [OF inv cur] sched_invD(7) [OF inv, of _ "Room c"]
    by (subst set_ctx_wake) (simp_all add: set_ctx_upd_channel)
  ultimately show ?thesis using Cons wake_inv by (simp add: chan_receive_eq [OF cur])
qed

lemma step_inv:
  assumes inv: "sched_inv no_debt s"
  shows "sched_inv no_debt (fst (fiber_step s))"
proof (cases "current_fiber s")
  case None
  then show ?thesis using dispatch_inv [OF inv] by (simp add: fiber_step_def)
next
  case (Some f)
  have adv: "sched_inv no_debt (set_ctx f k s)" if "wants (ctx_of s f) = None" for k
    by (rule advance_inv [OF inv Some]) (use that Some in simp_all)
  show ?thesis
  proof (cases "ctx_of s f")
    case Return
    then show ?thesis using die_inv [OF inv Some] by (simp add: fiber_step_def Some)
  next
    case (Yield k)
    then show ?thesis using yield_inv [OF adv] by (simp add: fiber_step_def Some)
  next
    case (Spawn p k)
    then show ?thesis using spawn_inv [OF adv] by (simp add: fiber_step_def Some)
  qed (use lock_inv [OF inv Some] unlock_inv [OF inv Some] send_inv [OF inv Some] receive_inv [OF inv Some]
      in \<open>simp_all add: fiber_step_def Some\<close>)
qed

lemma spawn_all_inv: "sched_inv no_debt s \<Longrightarrow> sched_inv no_debt (spawn_all ps s)"
  by (induction ps arbitrary: s) (simp_all add: spawn_inv)

lemma sched_init_inv: "sched_inv d (sched_init caps)"
proof -
  have q: "queue_of (sched_init caps) r = []" for r by (cases r) (simp_all add: sched_init_def)
  have e: "fibers (sched_init caps) = []" "active (sched_init caps) = []"
    by (simp_all add: sched_init_def active_def)
  show ?thesis by (rule sched_invI) (simp_all add: q e)
qed

subsection \<open>Termination\<close>

text \<open>Contexts get smaller, in the order of subtrees, with every call that goes through.\<close>

fun code_children :: "'v fiber_code \<Rightarrow> 'v fiber_code set" where
  "code_children Return = {}"
| "code_children (Yield k) = {k}"
| "code_children (Lock m k) = {k}"
| "code_children (Unlock m k) = {k}"
| "code_children (Send c v k) = {k}"
| "code_children (Receive c k) = range k"
| "code_children (Spawn p k) = {p, k}"

definition code_rel :: "('v fiber_code \<times> 'v fiber_code) set" where
  "code_rel = {(q, p). q \<in> code_children p}"

lemma wf_code_rel: "wf code_rel"
proof (rule wfUNIVI)
  fix P :: "'v fiber_code \<Rightarrow> bool" and p
  assume step: "\<forall>p. (\<forall>q. (q, p) \<in> code_rel \<longrightarrow> P q) \<longrightarrow> P p"
  have st: "P p" if "\<And>q. q \<in> code_children p \<Longrightarrow> P q" for p using step that by (auto simp: code_rel_def)
  show "P p" by (induction p) (rule st; auto)+
qed

definition contexts :: "'v Scheduler \<Rightarrow> 'v fiber_code multiset" where
  "contexts s = mset (map fiber_ctx (fibers s))"

definition sched_rel :: "('v Scheduler \<times> 'v Scheduler) set" where
  "sched_rel = inv_image (mult1 code_rel <*lex*> less_than)
     (\<lambda>s. (contexts s, 2 * length (ready_queue s) + (if current_fiber s = None then 0 else 1)))"

lemma wf_sched_rel: "wf sched_rel"
  unfolding sched_rel_def by (intro wf_inv_image wf_lex_prod wf_mult1 wf_code_rel) simp

lemma contexts_set_state [simp]: "contexts (set_state f st s) = contexts s"
proof -
  have "map fiber_ctx ((fibers s)[f := (fibers s ! f)\<lparr>fiber_state := st\<rparr>]) = map fiber_ctx (fibers s)"
    by (cases "f < length (fibers s)") (auto intro!: nth_equalityI simp: nth_list_update)
  then show ?thesis by (simp add: contexts_def set_state_def)
qed

lemma contexts_other [simp]:
  "contexts (s\<lparr>ready_queue := q\<rparr>) = contexts s" "contexts (s\<lparr>current_fiber := x\<rparr>) = contexts s"
  "contexts (upd_mutex m g s) = contexts s" "contexts (upd_channel c h s) = contexts s"
  "contexts (set_queue r q s) = contexts s"
  by (simp_all add: contexts_def)

lemma contexts_yield [simp]: "contexts (sched_yield s) = contexts s"
  by (simp add: sched_yield_def split: option.splits)

lemma contexts_suspend [simp]: "contexts (suspend r f s) = contexts s"
  by (simp add: suspend_def)

lemma contexts_wake [simp]: "contexts (wake r s) = contexts s"
  by (simp add: wake_def resume_def split: list.splits)

lemma contexts_set_ctx:
  assumes "f < length (fibers s)"
  shows "contexts (set_ctx f k s) = add_mset k (contexts s - {#ctx_of s f#})"
  using assms by (simp add: contexts_def set_ctx_def map_update mset_update)

lemma contexts_smaller:
  assumes "f < length (fibers s)" "\<And>q. q \<in># K \<Longrightarrow> q \<in> code_children (ctx_of s f)"
  shows "(contexts s - {#ctx_of s f#} + K, contexts s) \<in> mult1 code_rel"
proof -
  have "ctx_of s f \<in># contexts s" using assms(1) by (auto simp: contexts_def)
  then have "contexts s = add_mset (ctx_of s f) (contexts s - {#ctx_of s f#})" by simp
  then show ?thesis using assms(2) unfolding mult1_def code_rel_def by blast
qed

lemma set_ctx_smaller:
  assumes "f < length (fibers s)" "k \<in> code_children (ctx_of s f)" "contexts s' = contexts (set_ctx f k s)"
  shows "(s', s) \<in> sched_rel"
  using contexts_smaller [OF assms(1), of "{#k#}"] assms(2,3)
  by (simp add: sched_rel_def contexts_set_ctx [OF assms(1)])

lemma stays_smaller:
  assumes "contexts s' = contexts s" "ready_queue s' = ready_queue s" "current_fiber s' = None" "current_fiber s \<noteq> None"
  shows "(s', s) \<in> sched_rel"
  using assms by (auto simp: sched_rel_def)

lemma suspend_smaller:
  assumes "current_fiber s = Some f" "f < length (fibers s)"
  shows "(suspend r f s, s) \<in> sched_rel"
  by (rule stays_smaller) (use assms in \<open>simp_all add: suspend_def sched_yield_def\<close>)

lemma dispatch_smaller:
  assumes "current_fiber s = None" "ready_queue s \<noteq> []"
  shows "(dispatch s, s) \<in> sched_rel"
  using assms by (cases "ready_queue s") (simp_all add: dispatch_def sched_rel_def)

lemma spawn_smaller:
  assumes f: "f < length (fibers s)" and ctx: "ctx_of s f = Spawn p k"
  shows "(snd (spawn True p (set_ctx f k s)), s) \<in> sched_rel"
proof -
  have "contexts (snd (spawn True p (set_ctx f k s))) = contexts s - {#ctx_of s f#} + {#p, k#}"
    using contexts_set_ctx [OF f, of k] by (simp add: spawn_def Let_def contexts_def)
  moreover have "(contexts s - {#ctx_of s f#} + {#p, k#}, contexts s) \<in> mult1 code_rel"
    using f by (rule contexts_smaller) (auto simp: ctx)
  ultimately show ?thesis by (simp add: sched_rel_def)
qed

lemma step_smaller:
  assumes inv: "sched_inv no_debt s" and busy: "fiber_busy (s, l)"
  shows "(fst (fiber_step s), s) \<in> sched_rel"
proof (cases "current_fiber s")
  case None
  then show ?thesis using busy dispatch_smaller by (simp add: fiber_step_def fiber_busy_def)
next
  case (Some f)
  note l = sched_inv_current(1) [OF inv Some]
  note sus = suspend_smaller [OF Some l]
  note adv = set_ctx_smaller [OF l]
  show ?thesis
  proof (cases "ctx_of s f")
    case Return
    have "(sched_yield (set_state f DEAD s), s) \<in> sched_rel"
      by (rule stays_smaller) (use Some l in \<open>simp_all add: sched_yield_def\<close>)
    then show ?thesis using Return by (simp add: fiber_step_def Some)
  next
    case (Lock m k)
    then show ?thesis using sus adv [of k "set_ctx f k (upd_mutex m (\<lambda>x. x\<lparr>locked := True\<rparr>) s)"]
      by (simp add: fiber_step_def Some mutex_lock_eq [OF Some] contexts_def set_ctx_def)
  next
    case (Send c v k)
    let ?s = "upd_channel c (\<lambda>x. x\<lparr>chan_queue := chan_queue x @ [v]\<rparr>) s"
    have "contexts (set_ctx f k (wake (Value c) ?s)) = contexts (set_ctx f k s)"
      using l sched_invD(7) [OF inv, of _ "Value c"]
      by (subst set_ctx_wake) (simp_all add: set_ctx_upd_channel)
    then show ?thesis using sus adv [of k] Send by (simp add: fiber_step_def Some chan_send_eq [OF Some])
  next
    case (Receive c k)
    show ?thesis
    proof (cases "chan_queue (channels s c)")
      case Nil
      then show ?thesis using sus Receive by (simp add: fiber_step_def Some chan_receive_eq [OF Some])
    next
      case (Cons v vs)
      have "contexts (set_ctx f (k v) (wake (Room c) (upd_channel c (\<lambda>x. x\<lparr>chan_queue := vs\<rparr>) s)))
          = contexts (set_ctx f (k v) s)"
        using l sched_invD(7) [OF inv, of _ "Room c"]
        by (subst set_ctx_wake) (simp_all add: set_ctx_upd_channel)
      then show ?thesis using adv [of "k v"] Receive Cons
        by (simp add: fiber_step_def Some chan_receive_eq [OF Some])
    qed
  qed (use adv spawn_smaller [OF l] in \<open>simp_all add: fiber_step_def Some mutex_unlock_eq\<close>)
qed

lemma run_returns:
  assumes "sched_inv no_debt s"
  shows "\<exists>t. sched_run s = Some t"
  unfolding sched_run_def
proof (rule wf_while_option_Some [where P = "\<lambda>(s, l). sched_inv no_debt s"])
  show "wf {(t, x). ((case x of (s, l) \<Rightarrow> sched_inv no_debt s) \<and> fiber_busy x) \<and> t = fiber_next x}"
    by (rule wf_subset [OF wf_inv_image [OF wf_sched_rel, of fst]])
      (auto simp: fiber_next_def intro: step_smaller)
qed (use assms in \<open>auto simp: fiber_next_def step_inv\<close>)

subsection \<open>The log\<close>

fun sent_on :: "nat \<Rightarrow> 'v fiber_event list \<Rightarrow> 'v list" where
  "sent_on c [] = []"
| "sent_on c (Sent d v # l) = (if d = c then v # sent_on c l else sent_on c l)"
| "sent_on c (_ # l) = sent_on c l"

fun received_on :: "nat \<Rightarrow> 'v fiber_event list \<Rightarrow> 'v list" where
  "received_on c [] = []"
| "received_on c (Received d v # l) = (if d = c then v # received_on c l else received_on c l)"
| "received_on c (_ # l) = received_on c l"

text \<open>Whether the mutex is held after the events; \<open>None\<close> when it was acquired while held.\<close>

fun held_after :: "nat \<Rightarrow> bool \<Rightarrow> 'v fiber_event list \<Rightarrow> bool option" where
  "held_after m b [] = Some b"
| "held_after m b (Locked n # l) = (if n = m then if b then None else held_after m True l else held_after m b l)"
| "held_after m b (Unlocked n # l) = (if n = m then held_after m False l else held_after m b l)"
| "held_after m b (_ # l) = held_after m b l"

lemma sent_on_append: "sent_on c (l @ l') = sent_on c l @ sent_on c l'"
  by (induction c l rule: sent_on.induct) simp_all

lemma received_on_append: "received_on c (l @ l') = received_on c l @ received_on c l'"
  by (induction c l rule: received_on.induct) simp_all

lemma held_after_append:
  "held_after m b (l @ l') = (case held_after m b l of None \<Rightarrow> None | Some b' \<Rightarrow> held_after m b' l')"
  by (induction m b l rule: held_after.induct) simp_all

definition log_inv :: "(nat \<Rightarrow> nat) \<Rightarrow> 'v Scheduler \<Rightarrow> 'v fiber_event list \<Rightarrow> bool" where
  "log_inv caps s l \<longleftrightarrow>
     (\<forall>c. capacity (channels s c) = caps c \<and> length (chan_queue (channels s c)) \<le> caps c
        \<and> sent_on c l = received_on c l @ chan_queue (channels s c))
     \<and> (\<forall>m. held_after m False l = Some (locked (mutexes s m)))"

text \<open>What the log depends on: the locks and the values in the channels.\<close>

definition core :: "'v Scheduler \<Rightarrow> (nat \<Rightarrow> bool) \<times> (nat \<Rightarrow> nat \<times> 'v list)" where
  "core s = (\<lambda>m. locked (mutexes s m), \<lambda>c. (capacity (channels s c), chan_queue (channels s c)))"

lemma core_locked: "core s = core s' \<Longrightarrow> locked (mutexes s m) = locked (mutexes s' m)"
  by (auto simp: core_def dest: fun_cong)

lemma core_channel:
  "core s = core s' \<Longrightarrow> capacity (channels s c) = capacity (channels s' c) \<and> chan_queue (channels s c) = chan_queue (channels s' c)"
  by (auto simp: core_def dest: fun_cong)

lemma log_inv_core: "core s' = core s \<Longrightarrow> log_inv caps s' l \<longleftrightarrow> log_inv caps s l"
  unfolding log_inv_def using core_locked [of s' s] core_channel [of s' s] by simp

lemma core_simps [simp]:
  "core (set_state f st s) = core s" "core (set_ctx f k s) = core s" "core (s\<lparr>ready_queue := q\<rparr>) = core s"
  "core (s\<lparr>current_fiber := x\<rparr>) = core s" "core (set_queue r q s) = core s"
  by (cases r; auto simp: core_def)+

lemma core_yield [simp]: "core (sched_yield s) = core s"
  by (simp add: sched_yield_def split: option.splits)

lemma core_suspend [simp]: "core (suspend r f s) = core s"
  by (simp add: suspend_def)

lemma core_wake [simp]: "core (wake r s) = core s"
  by (simp add: wake_def resume_def split: list.splits)

lemma core_dispatch [simp]: "core (dispatch s) = core s"
  by (simp add: dispatch_def split: list.splits)

lemma core_spawn [simp]: "core (snd (spawn True p s)) = core s"
  by (simp add: spawn_def Let_def core_def)

lemma log_inv_lock:
  assumes "log_inv caps s l" "\<not> locked (mutexes s m)"
  shows "log_inv caps (upd_mutex m (\<lambda>x. x\<lparr>locked := True\<rparr>) s) (l @ [Locked m])"
  using assms by (auto simp: log_inv_def sent_on_append received_on_append held_after_append)

lemma log_inv_unlock:
  assumes "log_inv caps s l"
  shows "log_inv caps (upd_mutex m (\<lambda>x. x\<lparr>locked := False\<rparr>) s) (l @ [Unlocked m])"
  using assms by (auto simp: log_inv_def sent_on_append received_on_append held_after_append)

lemma log_inv_send:
  assumes "log_inv caps s l" "length (chan_queue (channels s c)) < capacity (channels s c)"
  shows "log_inv caps (upd_channel c (\<lambda>x. x\<lparr>chan_queue := chan_queue x @ [v]\<rparr>) s) (l @ [Sent c v])"
  using assms by (auto simp: log_inv_def sent_on_append received_on_append held_after_append)

lemma log_inv_receive:
  assumes "log_inv caps s l" "chan_queue (channels s c) = v # vs"
  shows "log_inv caps (upd_channel c (\<lambda>x. x\<lparr>chan_queue := vs\<rparr>) s) (l @ [Received c v])"
proof -
  have "length vs \<le> caps c" using assms unfolding log_inv_def by (metis Suc_leD length_Cons)
  then show ?thesis using assms
    by (auto simp: log_inv_def sent_on_append received_on_append held_after_append)
qed

lemma log_inv_step:
  assumes inv: "log_inv caps s l"
  shows "log_inv caps (fst (fiber_step s)) (l @ snd (fiber_step s))"
proof (cases "current_fiber s")
  case None
  then show ?thesis using inv by (simp add: fiber_step_def log_inv_core [OF core_dispatch])
next
  case (Some f)
  have keep: "log_inv caps s' l" if "core s' = core s" for s' using inv log_inv_core [OF that] by simp
  have move: "log_inv caps s'' l'" if "core s'' = core s'" "log_inv caps s' l'" for s'' s' l'
    using that log_inv_core by metis
  show ?thesis
  proof (cases "ctx_of s f")
    case (Lock m k)
    then show ?thesis using move [OF _ log_inv_lock [OF inv]]
      by (simp add: fiber_step_def Some mutex_lock_eq [OF Some] keep)
  next
    case (Unlock m k)
    have "core (mutex_unlock m (set_ctx f k s)) = core (upd_mutex m (\<lambda>x. x\<lparr>locked := False\<rparr>) s)"
      by (simp add: mutex_unlock_eq) (simp add: core_def)
    then show ?thesis using move [OF _ log_inv_unlock [OF inv]] Unlock by (simp add: fiber_step_def Some)
  next
    case (Send c v k)
    then show ?thesis using move [OF _ log_inv_send [OF inv]]
      by (simp add: fiber_step_def Some chan_send_eq [OF Some] keep)
  next
    case (Receive c k)
    then show ?thesis using move [OF _ log_inv_receive [OF inv]]
      by (cases "chan_queue (channels s c)") (simp_all add: fiber_step_def Some chan_receive_eq [OF Some] keep)
  qed (simp_all add: fiber_step_def Some keep)
qed

subsection \<open>Finished fibers\<close>

definition dead_inv :: "'v Scheduler \<Rightarrow> bool" where
  "dead_inv s \<longleftrightarrow> (\<forall>x\<in>set (fibers s). fiber_state x = DEAD \<longrightarrow> fiber_ctx x = Return)"

lemma dead_inv_set_state: "dead_inv s \<Longrightarrow> st \<noteq> DEAD \<Longrightarrow> dead_inv (set_state f st s)"
  unfolding dead_inv_def set_state_def by (auto dest!: set_update_subset_insert [THEN subsetD])

lemma dead_inv_set_ctx: "dead_inv s \<Longrightarrow> state_of s f \<noteq> DEAD \<Longrightarrow> dead_inv (set_ctx f k s)"
  unfolding dead_inv_def set_ctx_def by (auto dest!: set_update_subset_insert [THEN subsetD])

lemma dead_inv_other [simp]:
  "dead_inv (s\<lparr>ready_queue := q\<rparr>) = dead_inv s" "dead_inv (s\<lparr>current_fiber := x\<rparr>) = dead_inv s"
  "dead_inv (upd_mutex m g s) = dead_inv s" "dead_inv (upd_channel c h s) = dead_inv s"
  "dead_inv (set_queue r q s) = dead_inv s"
  by (simp_all add: dead_inv_def)

lemma dead_inv_wake: "dead_inv s \<Longrightarrow> dead_inv (wake r s)"
  by (auto simp: wake_def resume_def dead_inv_set_state split: list.splits)

lemma dead_inv_yield: "dead_inv s \<Longrightarrow> dead_inv (sched_yield s)"
  by (auto simp: sched_yield_def dead_inv_set_state split: option.splits)

lemma dead_inv_suspend: "dead_inv s \<Longrightarrow> dead_inv (suspend r f s)"
  by (simp add: suspend_def dead_inv_yield dead_inv_set_state)

lemma dead_inv_spawn: "dead_inv s \<Longrightarrow> dead_inv (snd (spawn True p s))"
  by (auto simp: spawn_def Let_def dead_inv_def)

lemma dead_inv_dispatch: "dead_inv s \<Longrightarrow> dead_inv (dispatch s)"
  by (auto simp: dispatch_def dead_inv_set_state split: list.splits)

lemma dead_inv_step:
  assumes inv: "sched_inv no_debt s" and dead: "dead_inv s"
  shows "dead_inv (fst (fiber_step s))"
proof (cases "current_fiber s")
  case None
  then show ?thesis using dead by (simp add: fiber_step_def dead_inv_dispatch)
next
  case (Some f)
  note C = sched_inv_current [OF inv Some]
  have adv: "dead_inv (set_ctx f k s)" for k using dead C(2) by (simp add: dead_inv_set_ctx)
  have comm: "set_ctx f k (wake r (upd_channel c g s)) = wake r (upd_channel c g (set_ctx f k s))"
    if "queue_of (upd_channel c g s) r = queue_of s r" for k r c g
    using that C(1) sched_invD(7) [OF inv, of _ r] by (subst set_ctx_wake) (simp_all add: set_ctx_upd_channel)
  show ?thesis
  proof (cases "ctx_of s f")
    case Return
    have "dead_inv (set_state f DEAD s)"
      using dead Return unfolding dead_inv_def set_state_def by (auto dest!: set_update_subset_insert [THEN subsetD])
    then show ?thesis using Return by (simp add: fiber_step_def Some dead_inv_yield)
  next
    case (Lock m k)
    have "set_ctx f k (upd_mutex m g s) = upd_mutex m g (set_ctx f k s)" for g
      by (simp add: set_ctx_def upd_mutex_def)
    then show ?thesis using Lock dead adv
      by (simp add: fiber_step_def Some mutex_lock_eq [OF Some] dead_inv_suspend)
  next
    case (Receive c k)
    then show ?thesis using dead adv
      by (cases "chan_queue (channels s c)")
        (simp_all add: fiber_step_def Some chan_receive_eq [OF Some] dead_inv_suspend dead_inv_wake comm)
  next
    case (Send c v k)
    have "dead_inv (set_ctx f k (wake (Value c) (upd_channel c (\<lambda>x. x\<lparr>chan_queue := chan_queue x @ [v]\<rparr>) s)))"
      by (subst comm) (simp_all add: dead_inv_wake adv)
    then show ?thesis using Send dead by (simp add: fiber_step_def Some chan_send_eq [OF Some] dead_inv_suspend)
  qed (use adv in \<open>simp_all add: fiber_step_def Some mutex_unlock_eq dead_inv_wake dead_inv_yield dead_inv_spawn\<close>)
qed

subsection \<open>Properties\<close>

text \<open>A call that is waiting with reason.\<close>

fun rightly_blocked :: "'v Scheduler \<Rightarrow> 'v fiber_code \<Rightarrow> bool" where
  "rightly_blocked s (Lock m k) = locked (mutexes s m)"
| "rightly_blocked s (Send c v k) = (length (chan_queue (channels s c)) \<ge> capacity (channels s c))"
| "rightly_blocked s (Receive c k) = (chan_queue (channels s c) = [])"
| "rightly_blocked s _ = False"

definition fiber_settled :: "'v Scheduler \<Rightarrow> 'v Fiber \<Rightarrow> bool" where
  "fiber_settled s x \<longleftrightarrow> fiber_state x = DEAD \<and> fiber_ctx x = Return
     \<or> fiber_state x = SUSPENDED \<and> rightly_blocked s (fiber_ctx x)"

lemma idle_settled:
  assumes inv: "sched_inv no_debt s" and dead: "dead_inv s" and idle: "ready_queue s = []" "current_fiber s = None"
    and f: "f < length (fibers s)"
  shows "fiber_settled s (fibers s ! f)"
proof (cases "state_of s f")
  case SUSPENDED
  then obtain r where r: "wants (ctx_of s f) = Some r" "f \<in> set (queue_of s r)"
    using sched_invD(5) [OF inv f] by blast
  then have "queue_of s r \<noteq> []" by auto
  then have "available s r \<le> claims s r" using sched_invD(8) [OF inv, of r] by simp
  then have "available s r = 0" using idle by (simp add: claims_def active_def)
  then have "rightly_blocked s (ctx_of s f)"
    using r(1) by (cases "ctx_of s f") (auto split: if_splits)
  then show ?thesis using SUSPENDED by (simp add: fiber_settled_def)
next
  case DEAD
  then show ?thesis using dead f by (simp add: fiber_settled_def dead_inv_def)
qed (use sched_invD(3,4) [OF inv f] idle in simp_all)

lemma spawn_all_dead: "dead_inv s \<Longrightarrow> dead_inv (spawn_all ps s)"
  by (induction ps arbitrary: s) (simp_all add: dead_inv_spawn)

lemma spawn_all_core: "core (spawn_all ps s) = core s"
  by (induction ps arbitrary: s) simp_all

text \<open>
  C18: Whatever fibers are spawned and whatever the capacities are, running the scheduler returns, and
  when it returns every fiber, including those spawned on the way, has made all its calls or waits
  with reason: for a mutex that is held, for room in a full channel, or for a value from an empty one. No
  fiber is forgotten in a queue and no wake-up is lost.
\<close>

theorem fiber_run_settles:
  "\<exists>s l. sched_run (spawn_all ps (sched_init caps)) = Some (s, l) \<and> list_all (fiber_settled s) (fibers s)"
proof -
  let ?i = "spawn_all ps (sched_init caps)"
  have inv: "sched_inv no_debt ?i" by (rule spawn_all_inv [OF sched_init_inv])
  have dead: "dead_inv ?i" by (rule spawn_all_dead) (simp add: dead_inv_def sched_init_def)
  obtain s l where run: "sched_run ?i = Some (s, l)" using run_returns [OF inv] by auto
  have "(\<lambda>x. sched_inv no_debt (fst x) \<and> dead_inv (fst x)) (s, l)"
  proof (rule while_option_rule [OF _ run [unfolded sched_run_def]])
    show "sched_inv no_debt (fst (fiber_next x)) \<and> dead_inv (fst (fiber_next x))"
      if "sched_inv no_debt (fst x) \<and> dead_inv (fst x)" for x
      using that by (cases x) (simp add: fiber_next_def step_inv dead_inv_step)
  qed (simp add: inv dead)
  moreover have "\<not> fiber_busy (s, l)" using run unfolding sched_run_def by (rule while_option_stop)
  ultimately have "fiber_settled s (fibers s ! f)" if "f < length (fibers s)" for f
    using that by (intro idle_settled) (auto simp: fiber_busy_def)
  then have "list_all (fiber_settled s) (fibers s)" by (simp add: list_all_length)
  then show ?thesis using run by blast
qed

lemma steps_log:
  "case (fiber_next ^^ n) (spawn_all ps (sched_init caps), []) of (s, l) \<Rightarrow> log_inv caps s l"
proof (induction n)
  case 0
  have "log_inv caps (sched_init caps) []" by (simp add: log_inv_def sched_init_def)
  then show ?case by (simp add: log_inv_core [OF spawn_all_core])
next
  case (Suc n)
  obtain s l where e: "(fiber_next ^^ n) (spawn_all ps (sched_init caps), []) = (s, l)" by fastforce
  then have "log_inv caps s l" using Suc by simp
  then have "log_inv caps (fst (fiber_step s)) (l @ snd (fiber_step s))" by (rule log_inv_step)
  then have "case fiber_next (s, l) of (s, l) \<Rightarrow> log_inv caps s l" by (simp add: fiber_next_def)
  then show ?case by (simp add: e)
qed

text \<open>
  C29: After any number of steps of any fibers, what was sent on a channel is what was received from
  it followed by what it holds, in order, and it never holds more than its capacity.
\<close>

theorem fiber_channel_fifo:
  "case (fiber_next ^^ n) (spawn_all ps (sched_init caps), []) of (s, l) \<Rightarrow>
     sent_on c l = received_on c l @ chan_queue (channels s c) \<and> length (chan_queue (channels s c)) \<le> caps c"
  using steps_log [where n = n and ps = ps and caps = caps] by (auto simp: log_inv_def split: prod.splits)

text \<open>
  After any number of steps of any fibers, no mutex was ever acquired while it was held.
\<close>

theorem fiber_mutex_exclusive:
  "case (fiber_next ^^ n) (spawn_all ps (sched_init caps), []) of (s, l) \<Rightarrow>
     held_after m False l = Some (locked (mutexes s m))"
  using steps_log [where n = n and ps = ps and caps = caps] by (auto simp: log_inv_def split: prod.splits)

end
