(* ===== verification/Memory_Utils.thy ===== *)
theory Memory_Utils
  imports Text_Format
begin

text \<open>
  Alignment, the hex dump and the layout report of \<^verbatim>\<open>common/memory_utils.hpp\<close>. An output stream is
  new, so it pads with blanks; a pointer is its address, and the bytes it points to are a list. The
  percentage of the layout report is a floating-point number, whose text is an argument.
\<close>

subsection \<open>Alignment\<close>

definition is_aligned :: "u64 \<Rightarrow> u64 \<Rightarrow> bool" where
  "is_aligned ptr alignment \<longleftrightarrow> ptr AND (alignment - 1) = 0"

definition align_up :: "u64 \<Rightarrow> u64 \<Rightarrow> u64" where
  "align_up addr alignment = (addr + (alignment - 1)) AND NOT (alignment - 1)"

subsection \<open>Hex dump\<close>

definition is_print :: "u8 \<Rightarrow> bool" where
  "is_print b \<longleftrightarrow> 32 \<le> b \<and> b < 127"

definition hex_slot :: "bytes \<Rightarrow> nat \<Rightarrow> nat \<Rightarrow> string" where
  "hex_slot bs offset i = (if i = 8 then ''| '' else [])
     @ (if offset + i < length bs then pad_left 2 CHR ''0'' (hex_str (bs ! (offset + i))) @ '' '' else ''   '')"

definition ascii_slot :: "bytes \<Rightarrow> nat \<Rightarrow> nat \<Rightarrow> string" where
  "ascii_slot bs offset i = (if i = 8 then '' '' else [])
     @ (if offset + i < length bs
        then let b = bs ! (offset + i) in if is_print b then [char_of (unat b)] else ''.''
        else '' '')"

definition hex_line :: "u64 \<Rightarrow> bytes \<Rightarrow> nat \<Rightarrow> string" where
  "hex_line addr bs offset =
     ''0x'' @ pad_left 8 CHR ''0'' (hex_str (addr + of_nat offset)) @ ''  ''
     @ concat (map (hex_slot bs offset) [0..<16]) @ '' | ''
     @ concat (map (ascii_slot bs offset) [0..<16])"

function dump_loop :: "u64 \<Rightarrow> bytes \<Rightarrow> nat \<Rightarrow> string" where
  "dump_loop addr bs offset = (if offset < length bs
     then hex_line addr bs offset @ nl @ dump_loop addr bs (offset + 16) else [])"
  by auto
termination by (relation "measure (\<lambda>(addr, bs, offset). length bs - offset)") auto

declare dump_loop.simps [simp del]

definition hex_dump :: "u64 \<Rightarrow> bytes \<Rightarrow> string" where
  "hex_dump data bs = (if data = 0 \<or> bs = [] then ''[Empty or null buffer]'' @ nl else dump_loop data bs 0)"

definition hex_dump_str :: "u64 \<Rightarrow> bytes \<Rightarrow> string" where
  "hex_dump_str data bs = hex_dump data bs"

subsection \<open>Layout of a structure\<close>

record FieldLayout =
  field_name :: string
  field_offset :: nat
  field_size :: nat
  field_alignment :: nat

definition num :: "nat \<Rightarrow> string" where
  "num n = base_str 10 n"

definition layout_row :: "FieldLayout \<Rightarrow> nat \<Rightarrow> string" where
  "layout_row f padding = pad_left 6 CHR '' '' (num (field_offset f)) @ ''  ''
     @ pad_left 5 CHR '' '' (num (field_size f)) @ ''  ''
     @ pad_left 5 CHR '' '' (num (field_alignment f)) @ ''  ''
     @ pad_right 24 CHR '' '' (field_name f)
     @ (if padding > 0 then '' (+'' @ num padding @ '' padding)'' else []) @ nl"

fun layout_rows :: "FieldLayout list \<Rightarrow> nat \<Rightarrow> nat \<Rightarrow> string \<times> nat \<times> nat" where
  "layout_rows [] expected pad = ([], expected, pad)"
| "layout_rows (f # fs) expected pad = (
     let padding = (if field_offset f > expected then field_offset f - expected else 0);
       (txt, e, t) = layout_rows fs (field_offset f + field_size f) (pad + padding)
     in (layout_row f padding @ txt, e, t))"

definition tail_row :: "nat \<Rightarrow> nat \<Rightarrow> string" where
  "tail_row expected tail = pad_left 6 CHR '' '' (num expected) @ ''  '' @ pad_left 5 CHR '' '' (num tail)
     @ ''     -  '' @ pad_right 24 CHR '' '' ''[Tail Padding]'' @ '' (+'' @ num tail @ '' padding)'' @ nl"

definition total_padding :: "nat \<Rightarrow> FieldLayout list \<Rightarrow> nat" where
  "total_padding total_size flds = (case layout_rows flds 0 0 of (txt, expected, pad) \<Rightarrow>
     if total_size > expected then pad + (total_size - expected) else pad)"

definition print_layout :: "(nat \<Rightarrow> nat \<Rightarrow> string) \<Rightarrow> string \<Rightarrow> nat \<Rightarrow> nat \<Rightarrow> FieldLayout list \<Rightarrow> string" where
  "print_layout percent struct_name total_size struct_align flds = (
     let (rows, expected, pad) = layout_rows flds 0 0 in
     nl @ replicate 55 CHR ''='' @ nl
     @ '' Struct Memory Layout: '' @ struct_name @ nl
     @ '' Total Size: '' @ num total_size @ '' bytes | Alignment: '' @ num struct_align @ '' bytes'' @ nl
     @ replicate 55 CHR ''-'' @ nl
     @ '' Offset   Size  Align  Field Name                Padding'' @ nl
     @ replicate 55 CHR ''-'' @ nl
     @ rows
     @ (if total_size > expected then tail_row expected (total_size - expected) else [])
     @ replicate 55 CHR ''-'' @ nl
     @ '' Total Padding Waste: '' @ num (total_padding total_size flds) @ '' bytes (''
     @ percent (total_padding total_size flds) total_size @ ''%)'' @ nl
     @ replicate 55 CHR ''='' @ nl @ nl)"

subsection \<open>Alignment, proved\<close>

text \<open>
  For a power-of-two alignment rounding up gives the least aligned address that is not below the
  given one, as long as the sum fits 64 bits, and an address is aligned exactly when it is a multiple; for an address in
  the last, incomplete block rounding up wraps to 0.
\<close>

theorem align_up_least:
  assumes "k < 64"
  shows "(is_aligned a (2 ^ k) \<longleftrightarrow> 2 ^ k dvd unat a)
    \<and> (if unat a + 2 ^ k \<le> 2 ^ 64
       then 2 ^ k dvd unat (align_up a (2 ^ k)) \<and> unat a \<le> unat (align_up a (2 ^ k))
         \<and> unat (align_up a (2 ^ k)) < unat a + 2 ^ k
       else align_up a (2 ^ k) = 0)"
proof -
  have "unat (a AND (2 ^ k - 1)) = unat a mod 2 ^ k"
    using unat_mask_pow2 [of a k] by (simp only: mask_eq_minus_1)
  then have al: "is_aligned a (2 ^ k) \<longleftrightarrow> 2 ^ k dvd unat a"
    unfolding is_aligned_def by (metis dvd_eq_mod_eq_0 unat_0 unat_eq_0)
  have up: "2 ^ k dvd unat (align_up a (2 ^ k)) \<and> unat a \<le> unat (align_up a (2 ^ k))
      \<and> unat (align_up a (2 ^ k)) < unat a + 2 ^ k" if fits: "unat a + 2 ^ k \<le> 2 ^ 64"
  proof -
    define q where "q = (unat a + 2 ^ k - 1) div 2 ^ k"
    define r where "r = (unat a + 2 ^ k - 1) mod 2 ^ k"
    have eq: "unat (align_up a (2 ^ k)) = 2 ^ k * q"
      unfolding align_up_def q_def using assms fits by (intro unat_align_up) simp_all
    have "2 ^ k * q + r = unat a + 2 ^ k - 1" unfolding q_def r_def by (rule mult_div_mod_eq)
    moreover have "r < 2 ^ k" "(0::nat) < 2 ^ k" by (simp_all add: r_def)
    ultimately have "unat a \<le> 2 ^ k * q" "2 ^ k * q < unat a + 2 ^ k" by linarith+
    then show ?thesis by (simp add: eq)
  qed
  have wrap: "align_up a (2 ^ k) = 0" if big: "\<not> unat a + 2 ^ k \<le> 2 ^ 64"
  proof -
    have pk: "(2::nat) ^ k < 2 ^ 64" using assms by (rule power_strict_increasing) simp
    have m: "unat (2 ^ k - 1 :: u64) = 2 ^ k - 1"
      using unat_of_nat_u64 [of "2 ^ k - 1"] pk by (simp add: of_nat_diff)
    have "unat (a + (2 ^ k - 1)) = (unat a + (2 ^ k - 1)) mod 2 ^ 64"
      by (simp add: unat_word_ariths m)
    also have "\<dots> = unat a + (2 ^ k - 1) - 2 ^ 64"
      using big pk unat_u64_less [of a] by (simp add: mod_if)
    also have "\<dots> < 2 ^ k" using unat_u64_less [of a] big by simp
    finally have lt: "unat (a + (2 ^ k - 1)) < 2 ^ k" .
    have "unat (align_up a (2 ^ k)) = 2 ^ k * (unat (a + (2 ^ k - 1)) div 2 ^ k)"
      unfolding align_up_def using assms by (intro unat_align_down) simp
    then show ?thesis using lt by (simp add: unat_eq_0)
  qed
  show ?thesis using al up wrap by simp
qed

theorem align_up_least_witness:
  "(12::nat) < 64 \<and> unat (align_up 4097 (2 ^ 12)) < 4097 + 4096 \<and> align_up 0xffffffffffffffff (2 ^ 12) = 0"
  using align_up_least [where k = 12 and a = 4097] align_up_least [where k = 12 and a = "0xffffffffffffffff"]
  by simp

subsection \<open>Reading a dump back\<close>

fun split_lines :: "string \<Rightarrow> string list" where
  "split_lines [] = []"
| "split_lines (c # s) = (if c = CHR 0x0A then [] # split_lines s
     else case split_lines s of [] \<Rightarrow> [[c]] | l # ls \<Rightarrow> (c # l) # ls)"

definition read_slot :: "string \<Rightarrow> nat \<Rightarrow> bytes" where
  "read_slot body i = (let t = take 2 (drop (3 * i + (if i < 8 then 0 else 2)) body) in
     if t = ''  '' then [] else [of_nat (base_value 16 t)])"

definition read_line :: "string \<Rightarrow> bytes" where
  "read_line l = concat (map (read_slot (drop 2 (dropWhile (\<lambda>c. c \<noteq> CHR '' '') l))) [0..<16])"

definition read_dump :: "string \<Rightarrow> bytes" where
  "read_dump s = concat (map read_line (split_lines s))"

lemma split_lines_line: "CHR 0x0A \<notin> set l \<Longrightarrow> split_lines (l @ nl @ s) = l # split_lines s"
  by (induction l) (auto simp: nl_def)

lemma digit_char_plain: "d < 16 \<Longrightarrow> digit_char d \<noteq> CHR '' '' \<and> digit_char d \<noteq> CHR 0x0A"
proof -
  assume "d < 16"
  then have "of_char (digit_char d) \<ge> (48::nat)" by (auto simp: digit_char_def of_char_of)
  then show ?thesis by auto
qed

lemma base_str_plain: "2 \<le> b \<Longrightarrow> b \<le> 16 \<Longrightarrow> c \<in> set (base_str b n) \<Longrightarrow> c \<noteq> CHR '' '' \<and> c \<noteq> CHR 0x0A"
proof (induction b n rule: base_str.induct)
  case (1 b n)
  show ?case
  proof (cases "n < b")
    case True
    then show ?thesis using 1 digit_char_plain [of n] by simp
  next
    case False
    have "n mod b < b" using "1.prems" by simp
    then have "n mod b < 16" using "1.prems" by linarith
    then show ?thesis using 1 False digit_char_plain [of "n mod b"] by (auto simp: base_str_step)
  qed
qed

lemma padded_plain:
  "c \<in> set (pad_left n CHR ''0'' (hex_str w)) \<Longrightarrow> c \<noteq> CHR '' '' \<and> c \<noteq> CHR 0x0A"
  using base_str_plain [of 16 c] by (auto simp: pad_left_def hex_str_def)

lemma length_hex_byte: "length (pad_left 2 CHR ''0'' (hex_str (b :: u8))) = 2"
proof -
  have "unat b < 16 ^ 2" using unsigned_less [of b] by simp
  then have "length (hex_str b) \<le> 2" unfolding hex_str_def by (intro length_base_str) simp_all
  then show ?thesis by (simp add: pad_left_def)
qed

lemma value_hex_byte: "of_nat (base_value 16 (pad_left 2 CHR ''0'' (hex_str (b :: u8)))) = b"
  by (simp add: pad_left_def base_value_zeros hex_str_def base_value_str)

definition slot_text :: "bytes \<Rightarrow> nat \<Rightarrow> nat \<Rightarrow> string" where
  "slot_text bs offset i = (if offset + i < length bs
     then pad_left 2 CHR ''0'' (hex_str (bs ! (offset + i))) else ''  '')"

lemma length_slot_text [simp]: "length (slot_text bs offset i) = 2"
  by (simp add: slot_text_def length_hex_byte)

lemma hex_slot_text: "hex_slot bs offset i = (if i = 8 then ''| '' else []) @ slot_text bs offset i @ '' ''"
  by (simp add: hex_slot_def slot_text_def)

lemma slot_text_at:
  assumes "i < 16"
  shows "take 2 (drop (3 * i + (if i < 8 then 0 else 2)) (concat (map (hex_slot bs offset) [0..<16]) @ t))
    = slot_text bs offset i"
proof -
  define g where "g = (\<lambda>i. slot_text bs offset i @ '' '')"
  have len: "length (g j) = 3" for j by (simp add: g_def)
  have two: "take 2 xs = slot_text bs offset j" if "take 3 xs = g j" for xs j
  proof -
    have "take 2 xs = take 2 (take 3 xs)" by (simp add: min_def)
    then show ?thesis by (simp add: that) (simp add: g_def)
  qed
  have low: "map (hex_slot bs offset) [0..<8] = map g [0..<8]"
    by (intro map_cong) (simp_all add: hex_slot_text g_def)
  have "[0..<16] = [0..<8] @ 8 # [9..<16::nat]" by (simp add: upt_rec)
  then have "concat (map (hex_slot bs offset) [0..<16])
      = concat (map g [0..<8]) @ ''| '' @ concat (map g (8 # [9..<16]))"
    by (simp add: low) (simp add: hex_slot_text g_def)
  moreover have "8 # [9..<16] = [8..<16::nat]" by (simp add: upt_rec)
  ultimately have all: "concat (map (hex_slot bs offset) [0..<16]) @ t
      = concat (map g [0..<8]) @ ''| '' @ concat (map g [8..<16]) @ t" by simp
  show ?thesis
  proof (cases "i < 8")
    case True
    then have "take 2 (drop (3 * i) (concat (map g [0..<8]) @ ''| '' @ concat (map g [8..<16]) @ t)) = slot_text bs offset i"
      by (intro two) (subst concat_slice [where f = g, OF len]; simp)
    then show ?thesis unfolding all using True by (simp only: if_True add_0_right)
  next
    case False
    define j where "j = i - 8"
    have j: "i = 8 + j" "j < 8" using False assms by (simp_all add: j_def)
    have "drop (3 * i + 2) (concat (map g [0..<8]) @ ''| '' @ concat (map g [8..<16]) @ t)
        = drop (3 * j) (concat (map g [8..<16]) @ t)"
      by (simp add: j length_concat_uniform [where f = g, OF len])
    moreover have "take 3 (drop (3 * j) (concat (map g [8..<16]) @ t)) = g ([8..<16] ! j)"
      using j(2) by (intro concat_slice [OF len]) simp
    then have "take 3 (drop (3 * j) (concat (map g [8..<16]) @ t)) = g i"
      using j nth_upt [of 8 j 16] by (simp only:)
    then have "take 2 (drop (3 * j) (concat (map g [8..<16]) @ t)) = slot_text bs offset i" by (rule two)
    ultimately show ?thesis unfolding all using False by (simp only: if_False)
  qed
qed

lemma slot_text_value:
  "(if slot_text bs offset i = ''  '' then [] else [of_nat (base_value 16 (slot_text bs offset i))])
     = (if offset + i < length bs then [bs ! (offset + i)] else [])"
proof (cases "offset + i < length bs")
  case True
  define t where "t = pad_left 2 CHR ''0'' (hex_str (bs ! (offset + i)))"
  have "t \<noteq> ''  ''" using padded_plain [of "CHR '' ''" 2 "bs ! (offset + i)"] by (auto simp: t_def)
  moreover have "of_nat (base_value 16 t) = bs ! (offset + i)" unfolding t_def by (rule value_hex_byte)
  ultimately show ?thesis using True by (simp add: slot_text_def t_def [symmetric])
qed (simp add: slot_text_def)

lemma concat_slots:
  "concat (map (\<lambda>i. if offset + i < length bs then [bs ! (offset + i)] else []) [0..<n]) = take n (drop offset bs)"
proof (induction n)
  case 0
  then show ?case by simp
next
  case (Suc n)
  then show ?case by (simp add: take_Suc_conv_app_nth)
qed

lemma read_line_hex_line: "read_line (hex_line addr bs offset) = take 16 (drop offset bs)"
proof -
  let ?a = "pad_left 8 CHR ''0'' (hex_str (addr + of_nat offset))"
  let ?body = "concat (map (hex_slot bs offset) [0..<16])"
  define t where "t = '' | '' @ concat (map (ascii_slot bs offset) [0..<16])"
  have "hex_line addr bs offset = (''0x'' @ ?a) @ CHR '' '' # CHR '' '' # ?body @ t"
    by (simp add: hex_line_def t_def)
  moreover have "c \<noteq> CHR '' ''" if "c \<in> set (''0x'' @ ?a)" for c using that padded_plain by auto
  ultimately have "dropWhile (\<lambda>c. c \<noteq> CHR '' '') (hex_line addr bs offset) = CHR '' '' # CHR '' '' # ?body @ t"
    by (simp only: dropWhile_append2) simp
  then have body: "drop 2 (dropWhile (\<lambda>c. c \<noteq> CHR '' '') (hex_line addr bs offset)) = ?body @ t" by simp
  have "read_slot (?body @ t) i = (if offset + i < length bs then [bs ! (offset + i)] else [])" if "i < 16" for i
    unfolding read_slot_def Let_def slot_text_at [OF that] by (rule slot_text_value)
  then have "map (read_slot (?body @ t)) [0..<16]
      = map (\<lambda>i. if offset + i < length bs then [bs ! (offset + i)] else []) [0..<16]"
    by (intro map_cong) simp_all
  then show ?thesis unfolding read_line_def body by (simp only: concat_slots)
qed

lemma hex_line_no_newline: "CHR 0x0A \<notin> set (hex_line addr bs offset)"
proof -
  have "CHR 0x0A \<notin> set (hex_slot bs offset i)" for i
    using padded_plain by (auto simp: hex_slot_def)
  moreover have "CHR 0x0A \<notin> set (ascii_slot bs offset i)" for i
  proof -
    have np: "CHR 0x0A \<noteq> char_of (unat b)" if "is_print b" for b :: u8
    proof
      assume "CHR 0x0A = (char_of (unat b) :: char)"
      then have "of_char (char_of (unat b) :: char) = (10::nat)" by (simp flip: \<open>CHR 0x0A = (char_of (unat b) :: char)\<close>)
      moreover have "unat b < 127" "32 \<le> unat b" using that by (auto simp: is_print_def word_le_nat_alt word_less_nat_alt)
      ultimately show False by (simp add: of_char_of)
    qed
    show ?thesis using np [of "bs ! (offset + i)"] by (simp add: ascii_slot_def Let_def)
  qed
  moreover have "CHR 0x0A \<notin> set (pad_left 8 CHR ''0'' (hex_str (addr + of_nat offset)))"
    using padded_plain by auto
  ultimately show ?thesis by (auto simp: hex_line_def)
qed

lemma read_dump_loop: "read_dump (dump_loop addr bs offset) = drop offset bs"
proof (induction addr bs offset rule: dump_loop.induct)
  case (1 addr bs offset)
  show ?case
  proof (cases "offset < length bs")
    case True
    then have "read_dump (dump_loop addr bs offset) = take 16 (drop offset bs) @ read_dump (dump_loop addr bs (offset + 16))"
      by (subst dump_loop.simps)
        (simp add: read_dump_def split_lines_line [OF hex_line_no_newline] read_line_hex_line)
    then show ?thesis using 1 True by (metis append_take_drop_id drop_drop add.commute)
  next
    case False
    then show ?thesis by (subst dump_loop.simps) (simp add: read_dump_def)
  qed
qed

text \<open>
  C31: The dump of any bytes at any address that is not null reads back to exactly these bytes; the
  columns of the last, incomplete line stay aligned and the printable column never breaks a line.
\<close>

theorem hex_dump_reads_back:
  assumes "data \<noteq> 0" "bs \<noteq> []"
  shows "read_dump (hex_dump data bs) = bs"
  using assms read_dump_loop [of data bs 0] by (simp add: hex_dump_def)

theorem hex_dump_reads_back_witness: "read_dump (hex_dump 4096 [0, 10, 255]) = [0, 10, 255]"
  using hex_dump_reads_back [of 4096 "[0, 10, 255]"] by simp

subsection \<open>Padding\<close>

text \<open>Fields in the order of their offsets, none overlapping the one before, inside the structure.\<close>

fun laid_out :: "nat \<Rightarrow> FieldLayout list \<Rightarrow> nat \<Rightarrow> bool" where
  "laid_out lo [] total_size \<longleftrightarrow> lo \<le> total_size"
| "laid_out lo (f # fs) total_size \<longleftrightarrow> lo \<le> field_offset f \<and> laid_out (field_offset f + field_size f) fs total_size"

definition field_bytes :: "FieldLayout \<Rightarrow> nat set" where
  "field_bytes f = {field_offset f..<field_offset f + field_size f}"

lemma layout_rows_pad:
  "laid_out lo fs n \<Longrightarrow> layout_rows fs lo pad = (tx, e, t) \<Longrightarrow>
     e \<le> n \<and> t + (n - e) = pad + card ({lo..<n} - (\<Union>f\<in>set fs. field_bytes f)) \<and> lo \<le> e"
proof (induction fs arbitrary: lo pad tx e t)
  case Nil
  then show ?case by simp
next
  case (Cons f fs)
  let ?o = "field_offset f" and ?m = "field_offset f + field_size f"
  let ?R = "\<Union>g\<in>set fs. field_bytes g"
  obtain tx' where rec: "layout_rows fs ?m (pad + (?o - lo)) = (tx', e, t)"
    using Cons.prems(2) by (auto simp: Let_def split: prod.splits if_splits)
  have lay: "laid_out ?m fs n" "lo \<le> ?o" using Cons.prems(1) by simp_all
  note IH = Cons.IH [OF lay(1) rec]
  have above: "laid_out a fs n \<Longrightarrow> (\<Union>g\<in>set fs. field_bytes g) \<subseteq> {a..}" for a
  proof (induction fs arbitrary: a)
    case (Cons g gs)
    then show ?case by (fastforce simp: field_bytes_def)
  qed simp
  have mn: "?m \<le> n" using IH by linarith
  have "{lo..<n} - (\<Union>g\<in>set (f # fs). field_bytes g) = {lo..<?o} \<union> ({?m..<n} - ?R)"
    using above [OF lay(1)] lay(2) mn by (auto simp: field_bytes_def)
  moreover have "card ({lo..<?o} \<union> ({?m..<n} - ?R)) = (?o - lo) + card ({?m..<n} - ?R)"
    by (subst card_Un_disjoint) auto
  ultimately show ?case using IH lay(2) by simp
qed

text \<open>
  For fields in order the reported padding is exactly the number of bytes of the structure that
  belong to no field, the tail included.
\<close>

theorem total_padding_exact:
  assumes "laid_out 0 flds total_size"
  shows "total_padding total_size flds = card ({0..<total_size} - (\<Union>f\<in>set flds. field_bytes f))"
proof -
  obtain tx e t where r: "layout_rows flds 0 0 = (tx, e, t)" by (cases "layout_rows flds 0 0") auto
  show ?thesis using layout_rows_pad [OF assms r] by (auto simp: total_padding_def r)
qed

theorem total_padding_exact_witness:
  "total_padding 16 [\<lparr>field_name = ''flag'', field_offset = 0, field_size = 1, field_alignment = 1\<rparr>,
     \<lparr>field_name = ''seq'', field_offset = 8, field_size = 4, field_alignment = 4\<rparr>]
   = card ({0..<16::nat} - ({0..<1} \<union> {8..<12}))"
  using total_padding_exact [of "[\<lparr>field_name = ''flag'', field_offset = 0, field_size = 1, field_alignment = 1\<rparr>,
     \<lparr>field_name = ''seq'', field_offset = 8, field_size = 4, field_alignment = 4\<rparr>]" 16]
  by (simp add: field_bytes_def)

end
