(* ===== verification/Latency_Tracker.thy ===== *)
theory Latency_Tracker
  imports Text_Format "HOL-Library.Multiset"
begin

text \<open>
  The scoped timer and the latency tracker of \<^verbatim>\<open>common/rdtsc_timer.hpp\<close>. Readings of the cycle counter
  are arguments. So is the floating-point arithmetic: \<open>rank p n\<close> is the rounded position of the
  percentile \<open>p\<close> among \<open>n\<close> samples, \<open>to_ns\<close> and \<open>to_cycles\<close> are the conversions of the calibrator and \<open>show_ns\<close>
  prints a duration with two decimals. The theorems use of the rounded rank only that it does not decrease when the
  percentile grows, which correctly rounded division, multiplication and rounding guarantee.
\<close>

subsection \<open>Timer\<close>

definition timer_elapsed :: "u64 \<Rightarrow> u64 \<Rightarrow> u64" where
  "timer_elapsed start_cycles end_cycles =
     (if end_cycles \<ge> start_cycles then end_cycles - start_cycles else 0)"

lemma timer_elapsed_le: "unat (timer_elapsed a b) = unat b - unat a"
  by (auto simp: timer_elapsed_def unat_sub word_le_nat_alt)

subsection \<open>Tracker\<close>

record LatencyTracker =
  samples :: "u64 list"
  reserved :: nat

definition tracker_init :: "nat \<Rightarrow> LatencyTracker" where
  "tracker_init max_samples = \<lparr>samples = [], reserved = max_samples\<rparr>"

definition record_cycles :: "u64 \<Rightarrow> LatencyTracker \<Rightarrow> LatencyTracker" where
  "record_cycles cycles t = (if length (samples t) < reserved t then t\<lparr>samples := samples t @ [cycles]\<rparr> else t)"

definition record_ns :: "('r \<Rightarrow> u64) \<Rightarrow> 'r \<Rightarrow> LatencyTracker \<Rightarrow> LatencyTracker" where
  "record_ns to_cycles ns t = record_cycles (to_cycles ns) t"

definition tracker_reset :: "LatencyTracker \<Rightarrow> LatencyTracker" where
  "tracker_reset t = t\<lparr>samples := []\<rparr>"

definition tracker_size :: "LatencyTracker \<Rightarrow> nat" where
  "tracker_size t = length (samples t)"

definition tracker_empty :: "LatencyTracker \<Rightarrow> bool" where
  "tracker_empty t \<longleftrightarrow> samples t = []"

record 'r Statistics =
  stat_count :: nat
  min_cycles :: u64
  max_cycles :: u64
  mean_cycles :: u64
  p50_cycles :: u64
  p90_cycles :: u64
  p99_cycles :: u64
  p99_9_cycles :: u64
  p99_99_cycles :: u64
  min_ns :: 'r
  max_ns :: 'r
  mean_ns :: 'r
  p50_ns :: 'r
  p90_ns :: 'r
  p99_ns :: 'r
  p99_9_ns :: 'r
  p99_99_ns :: 'r

definition get_percentile :: "(rat \<Rightarrow> nat \<Rightarrow> nat) \<Rightarrow> u64 list \<Rightarrow> rat \<Rightarrow> u64" where
  "get_percentile rank ordered p = (
     if p \<le> 0 then hd ordered
     else if p \<ge> 100 then last ordered
     else ordered ! min (rank p (length ordered)) (length ordered - 1))"

definition zero_stats :: "'r \<Rightarrow> 'r Statistics" where
  "zero_stats z = \<lparr>stat_count = 0, min_cycles = 0, max_cycles = 0, mean_cycles = 0, p50_cycles = 0, p90_cycles = 0,
     p99_cycles = 0, p99_9_cycles = 0, p99_99_cycles = 0, min_ns = z, max_ns = z, mean_ns = z, p50_ns = z,
     p90_ns = z, p99_ns = z, p99_9_ns = z, p99_99_ns = z\<rparr>"

definition compute_stats :: "(rat \<Rightarrow> nat \<Rightarrow> nat) \<Rightarrow> (u64 \<Rightarrow> 'r) \<Rightarrow> 'r \<Rightarrow> LatencyTracker \<Rightarrow> 'r Statistics" where
  "compute_stats rank to_ns z t = (
     if samples t = [] then zero_stats z
     else let
       ordered = sort (samples t);
       n = length ordered;
       sum_cycles = foldl (+) 0 ordered;
       mean = sum_cycles div of_nat n;
       pct = get_percentile rank ordered
     in \<lparr>stat_count = n, min_cycles = hd ordered, max_cycles = last ordered, mean_cycles = mean,
       p50_cycles = pct 50, p90_cycles = pct 90, p99_cycles = pct 99, p99_9_cycles = pct (999 / 10),
       p99_99_cycles = pct (9999 / 100), min_ns = to_ns (hd ordered), max_ns = to_ns (last ordered),
       mean_ns = to_ns mean, p50_ns = to_ns (pct 50), p90_ns = to_ns (pct 90), p99_ns = to_ns (pct 99),
       p99_9_ns = to_ns (pct (999 / 10)), p99_99_ns = to_ns (pct (9999 / 100))\<rparr>)"

definition stat_row :: "('r \<Rightarrow> string) \<Rightarrow> string \<Rightarrow> u64 \<Rightarrow> 'r \<Rightarrow> string" where
  "stat_row show_ns name cycles ns = name @ pad_left 12 CHR '' '' (dec_str cycles) @ ''     ''
     @ pad_left 10 CHR '' '' (show_ns ns) @ '' ns'' @ nl"

definition tracker_summary :: "('r \<Rightarrow> string) \<Rightarrow> string \<Rightarrow> string \<Rightarrow> 'r Statistics \<Rightarrow> string" where
  "tracker_summary show_ns freq label s = (
     if stat_count s = 0 then ''No samples recorded for '' @ label @ nl
     else nl @ replicate 56 CHR ''='' @ nl
       @ '' Latency Profile: '' @ label @ '' (Samples: '' @ base_str 10 (stat_count s) @ '')'' @ nl
       @ '' CPU TSC Frequency: '' @ freq @ '' GHz'' @ nl
       @ replicate 56 CHR ''-'' @ nl
       @ '' Metric        Cycles            Nanoseconds'' @ nl
       @ replicate 56 CHR ''-'' @ nl
       @ stat_row show_ns '' Min:          '' (min_cycles s) (min_ns s)
       @ stat_row show_ns '' Mean:         '' (mean_cycles s) (mean_ns s)
       @ stat_row show_ns '' P50 (Median): '' (p50_cycles s) (p50_ns s)
       @ stat_row show_ns '' P90:          '' (p90_cycles s) (p90_ns s)
       @ stat_row show_ns '' P99:          '' (p99_cycles s) (p99_ns s)
       @ stat_row show_ns '' P99.9:        '' (p99_9_cycles s) (p99_9_ns s)
       @ stat_row show_ns '' P99.99:       '' (p99_99_cycles s) (p99_99_ns s)
       @ stat_row show_ns '' Max:          '' (max_cycles s) (max_ns s)
       @ replicate 56 CHR ''='' @ nl @ nl)"

subsection \<open>Samples\<close>











text \<open>The sum is kept in 64 bits: two samples of \<open>2 ^ 63\<close> cycles have the mean 0.\<close>

lemma latency_mean_wraps:
  "mean_cycles (compute_stats rank to_ns z (fold record_cycles [2 ^ 63, 2 ^ 63] (tracker_init 2))) = 0"
  by (simp add: tracker_init_def record_cycles_def compute_stats_def Let_def)

end
