(* ===== verification/Crash_Probe.thy ===== *)
theory Crash_Probe
  imports Text_Format
begin

text \<open>
  The crash probe (\<^verbatim>\<open>crash_probe.hpp\<close>): its formatters, the report it builds on the stack of the signal
  handler, and what installation and the handler do, given the outcomes of the system calls. A pointer into the
  report buffer is the text written so far; that it stays inside the buffer is a theorem. The registers
  are a function from the names in the report.
\<close>

subsection \<open>Formatters\<close>

definition HEX_MAP :: string where
  "HEX_MAP = ''0123456789abcdef''"

definition write_str :: "string \<Rightarrow> string \<Rightarrow> string" where
  "write_str dst str = dst @ takeWhile (\<lambda>c. c \<noteq> CHR 0x00) str"

fun probe_hex_loop :: "nat \<Rightarrow> string \<Rightarrow> u64 \<Rightarrow> string" where
  "probe_hex_loop 0 dst val = dst"
| "probe_hex_loop (Suc k) dst val = probe_hex_loop k (dst @ [HEX_MAP ! unat (drop_bit (4 * k) val AND 0x0F)]) val"

definition probe_hex64 :: "string \<Rightarrow> u64 \<Rightarrow> string" where
  "probe_hex64 dst val = probe_hex_loop 16 (dst @ ''0x'') val"

function uint_digits :: "string \<Rightarrow> u64 \<Rightarrow> string" where
  "uint_digits temp val = (if val > 0 then uint_digits (temp @ [char_of (48 + unat (val mod 10))]) (val div 10) else temp)"
  by auto
termination
proof (relation "measure (\<lambda>(temp, val). unat val)")
  show "((temp @ [char_of (48 + unat (val mod 10))], val div 10), temp, val) \<in> measure (\<lambda>(temp, val). unat val)"
    if "0 < val" for temp and val :: u64
  proof -
    have "0 < unat val" using that by (simp add: word_less_nat_alt)
    then show ?thesis by (simp add: unat_div_distrib)
  qed
qed simp

declare uint_digits.simps [simp del]

definition write_uint :: "string \<Rightarrow> u64 \<Rightarrow> string" where
  "write_uint dst val = (
     let temp = (if val = 0 then ''0'' else uint_digits [] val) in dst @ rev temp)"

subsection \<open>The report\<close>

definition quote :: string where
  "quote = [CHR 0x22]"

definition signal_name :: "nat \<Rightarrow> string" where
  "signal_name sig = (
     if sig = 11 then ''SIGSEGV'' else if sig = 7 then ''SIGBUS'' else if sig = 8 then ''SIGFPE''
     else if sig = 4 then ''SIGILL'' else if sig = 6 then ''SIGABRT'' else ''UNKNOWN'')"

text \<open>The keys with the blanks that align the values behind them.\<close>

definition register_keys :: "(string \<times> string) list" where
  "register_keys = [(''rip'', ''''), (''rsp'', ''''), (''rbp'', ''''), (''rax'', ''''), (''rbx'', ''''), (''rcx'', ''''),
     (''rdx'', ''''), (''rsi'', ''''), (''rdi'', ''''), (''r8'', '' ''), (''r9'', '' ''), (''r10'', ''''), (''r11'', ''''),
     (''r12'', ''''), (''r13'', ''''), (''r14'', ''''), (''r15'', ''''), (''efl'', '''')]"

definition register_row :: "(string \<Rightarrow> u64) \<Rightarrow> string \<times> string \<Rightarrow> string" where
  "register_row gregs k = write_str (probe_hex64 (write_str []
     (''      '' @ quote @ fst k @ quote @ '': '' @ snd k @ quote)) (gregs (fst k))) quote"

definition registers_text :: "(string \<Rightarrow> u64) \<Rightarrow> string" where
  "registers_text gregs = concat (map (\<lambda>k. register_row gregs k @ '','' @ nl) (butlast register_keys))
     @ register_row gregs (last register_keys) @ nl"

definition report_head :: "nat \<Rightarrow> u64 \<Rightarrow> string" where
  "report_head sig fault_addr = (
     let p = write_str [] (''{'' @ nl @ ''  '' @ quote @ ''crash_report'' @ quote @ '': {'' @ nl);
       p = write_str p (''    '' @ quote @ ''signal'' @ quote @ '': '');
       p = write_uint p (of_nat sig);
       p = write_str p ('','' @ nl @ ''    '' @ quote @ ''signal_name'' @ quote @ '': '' @ quote);
       p = write_str p (signal_name sig);
       p = write_str p (quote @ '','' @ nl @ ''    '' @ quote @ ''fault_address'' @ quote @ '': '' @ quote);
       p = probe_hex64 p fault_addr
     in write_str p (quote @ '','' @ nl @ ''    '' @ quote @ ''registers'' @ quote @ '': {'' @ nl))"

definition crash_report :: "nat \<Rightarrow> u64 \<Rightarrow> (string \<Rightarrow> u64) \<Rightarrow> string" where
  "crash_report sig fault_addr gregs =
     write_str (report_head sig fault_addr @ registers_text gregs) (''    }'' @ nl @ ''  }'' @ nl @ ''}'' @ nl)"

subsection \<open>Installation and the handler\<close>

record CrashProbe =
  dump_path :: string
  handlers :: "nat list"

text \<open>\<open>mapped\<close> and \<open>stack_set\<close> are the outcomes of mapping and of setting the alternate stack.\<close>

definition probe_install :: "bool \<Rightarrow> bool \<Rightarrow> string option \<Rightarrow> CrashProbe \<Rightarrow> bool \<times> CrashProbe" where
  "probe_install mapped stack_set output_json_path p = (
     let p = (case output_json_path of
           Some path \<Rightarrow> if length path < 256 then p\<lparr>dump_path := path\<rparr> else p
         | None \<Rightarrow> p)
     in if \<not> mapped then (False, p)
        else if \<not> stack_set then (False, p)
        else (True, p\<lparr>handlers := [11, 7, 8, 4, 6]\<rparr>))"

text \<open>What reaches the error stream, what reaches the dump file, and the exit status.\<close>

definition crash_handler :: "bool \<Rightarrow> nat \<Rightarrow> u64 \<Rightarrow> (string \<Rightarrow> u64) \<Rightarrow> CrashProbe \<Rightarrow> string \<times> (string \<times> string) option \<times> nat" where
  "crash_handler opened sig fault_addr gregs p = (
     let buf = crash_report sig fault_addr gregs
     in (buf, if opened then Some (dump_path p, buf) else None, 128 + sig))"

subsection \<open>Formatters, proved\<close>

lemma write_str_plain: "CHR 0x00 \<notin> set s \<Longrightarrow> write_str dst s = dst @ s"
  by (simp add: write_str_def) (metis takeWhile_eq_all_conv)

lemma HEX_MAP_digit:
  assumes "d < 16"
  shows "HEX_MAP ! d = digit_char d"
proof -
  have h: "HEX_MAP = map digit_char [0..<16]" by code_simp
  show ?thesis unfolding h using assms nth_map [of d "[0..<16]" digit_char] nth_upt [of 0 d 16]
    by (simp del: upt_rec_numeral)
qed

lemma nibble: "unat (drop_bit (4 * k) (val :: u64) AND 0x0F) = unat val div 16 ^ k mod 16"
proof -
  have m: "(0x0F :: u64) = mask 4" by (simp add: mask_eq_exp_minus_1)
  have "unat (drop_bit (4 * k) val) = unat val div 2 ^ (4 * k)" unfolding unat_drop_bit_eq by (rule drop_bit_eq_div)
  then show ?thesis unfolding m unat_mask_pow2 by (simp add: power_mult)
qed

lemma probe_hex_loop_digits:
  "probe_hex_loop k dst val = dst @ map (\<lambda>j. digit_char (unat val div 16 ^ (k - Suc j) mod 16)) [0..<k]"
proof (induction k arbitrary: dst)
  case 0
  then show ?case by simp
next
  case (Suc k)
  have "HEX_MAP ! unat (drop_bit (4 * k) val AND 0x0F) = digit_char (unat val div 16 ^ k mod 16)"
    by (simp add: nibble HEX_MAP_digit)
  then show ?case by (simp add: Suc map_upt_Suc del: upt_Suc)
qed

lemma base_value_digits:
  "n < 16 ^ k \<Longrightarrow> base_value 16 (map (\<lambda>j. digit_char (n div 16 ^ (k - Suc j) mod 16)) [0..<k]) = n"
proof (induction k arbitrary: n)
  case 0
  then show ?case by (simp add: base_value_def)
next
  case (Suc k)
  have e: "map (\<lambda>j. digit_char (n div 16 ^ (Suc k - Suc j) mod 16)) [0..<k]
      = map (\<lambda>j. digit_char (n div 16 div 16 ^ (k - Suc j) mod 16)) [0..<k]"
    by (rule map_cong) (auto simp: div_mult2_eq [symmetric] Suc_diff_Suc simp flip: power_Suc)
  have "n div 16 < 16 ^ k" using Suc.prems by (simp add: less_mult_imp_div_less mult.commute)
  then have "base_value 16 (map (\<lambda>j. digit_char (n div 16 ^ (Suc k - Suc j) mod 16)) [0..<k]) = n div 16"
    unfolding e by (rule Suc.IH)
  then show ?case by (simp add: base_value_def digit_of_char)
qed

lemma probe_hex64_field:
  obtains h where "probe_hex64 dst val = dst @ ''0x'' @ h" "length h = 16" "base_value 16 h = unat val"
proof
  show "probe_hex64 dst val = dst @ ''0x'' @ map (\<lambda>j. digit_char (unat val div 16 ^ (16 - Suc j) mod 16)) [0..<16]"
    by (simp add: probe_hex64_def probe_hex_loop_digits del: upt_rec_numeral)
  have "unat val < 16 ^ 16" using unat_u64_less [of val] by simp
  then show "base_value 16 (map (\<lambda>j. digit_char (unat val div 16 ^ (16 - Suc j) mod 16)) [0..<16]) = unat val"
    by (rule base_value_digits)
qed simp

lemma uint_digits_base: "uint_digits temp val = temp @ (if val = 0 then [] else rev (base_str 10 (unat val)))"
proof (induction temp val rule: uint_digits.induct)
  case (1 temp val)
  show ?case
  proof (cases "val > 0")
    case True
    have d: "char_of (48 + unat (val mod 10)) = digit_char (unat val mod 10)"
      by (simp add: digit_char_def unat_mod_distrib)
    have u: "unat (val div 10) = unat val div 10" by (simp add: unat_div_distrib)
    have z: "val div 10 = 0 \<longleftrightarrow> unat val < 10" using u by (metis div_eq_0_iff unat_eq_0 zero_neq_numeral)
    show ?thesis using 1 [OF True] True
      by (subst uint_digits.simps) (auto simp: d z u base_str_step not_less)
  next
    case False
    then show ?thesis by (subst uint_digits.simps) (simp add: word_neq_0_conv)
  qed
qed

lemma write_uint_base: "write_uint dst val = dst @ base_str 10 (unat val)"
proof (cases "val = 0")
  case True
  have "digit_char 0 = CHR ''0''" by code_simp
  then show ?thesis using True by (simp add: write_uint_def)
next
  case False
  then show ?thesis by (simp add: write_uint_def uint_digits_base)
qed

subsection \<open>Properties\<close>

lemmas report_texts = write_str_plain quote_def nl_def

lemma register_row_field:
  assumes "k \<in> set register_keys"
  obtains h where "register_row g k = ''      '' @ quote @ fst k @ quote @ '': '' @ snd k @ quote @ ''0x'' @ h @ quote"
    "length h = 16" "base_value 16 h = unat (g (fst k))"
proof -
  have plain: "CHR 0x00 \<notin> set (fst k) \<union> set (snd k)" using assms by (auto simp: register_keys_def)
  obtain h where h: "probe_hex64 (write_str [] (''      '' @ quote @ fst k @ quote @ '': '' @ snd k @ quote)) (g (fst k))
      = write_str [] (''      '' @ quote @ fst k @ quote @ '': '' @ snd k @ quote) @ ''0x'' @ h"
    "length h = 16" "base_value 16 h = unat (g (fst k))" by (rule probe_hex64_field)
  show ?thesis
  proof (rule that)
    show "register_row g k = ''      '' @ quote @ fst k @ quote @ '': '' @ snd k @ quote @ ''0x'' @ h @ quote"
      unfolding register_row_def h using plain by (simp add: report_texts)
  qed (use h in simp_all)
qed

lemma register_key_width: "k \<in> set register_keys \<Longrightarrow> length (fst k) + length (snd k) = 3"
  by (auto simp: register_keys_def)

lemma register_row_width:
  assumes "k \<in> set register_keys"
  shows "length (register_row g k) = 33"
proof -
  obtain h where "register_row g k = ''      '' @ quote @ fst k @ quote @ '': '' @ snd k @ quote @ ''0x'' @ h @ quote"
    "length h = 16" "base_value 16 h = unat (g (fst k))" using assms by (rule register_row_field)
  then show ?thesis using register_key_width [OF assms] by (simp add: quote_def)
qed

lemma register_row_value:
  assumes "k \<in> set register_keys"
  shows "base_value 16 (take 16 (drop 16 (register_row g k @ t))) = unat (g (fst k))"
proof -
  obtain h where h: "register_row g k = ''      '' @ quote @ fst k @ quote @ '': '' @ snd k @ quote @ ''0x'' @ h @ quote"
    "length h = 16" "base_value 16 h = unat (g (fst k))" using assms by (rule register_row_field)
  define a where "a = ''      '' @ quote @ fst k @ quote @ '': '' @ snd k @ quote @ ''0x''"
  have "length a = 16" using register_key_width [OF assms] by (simp add: a_def quote_def)
  moreover have row: "register_row g k @ t = a @ h @ quote @ t" by (simp add: h(1) a_def)
  ultimately show ?thesis unfolding row using h(2,3) by simp
qed

lemma drop_exact: "length a = n \<Longrightarrow> drop (n + m) (a @ b) = drop m b"
  by simp

lemma length_rows:
  "set ks \<subseteq> set register_keys \<Longrightarrow> length (concat (map (\<lambda>k. register_row g k @ '','' @ nl) ks)) = 35 * length ks"
  by (induction ks) (simp_all add: register_row_width nl_def)

lemma register_keys_split: "set (butlast register_keys) \<subseteq> set register_keys" "length (butlast register_keys) = 17"
  "last register_keys \<in> set register_keys" "length register_keys = 18"
  by (simp_all add: register_keys_def)

lemma length_registers_text: "length (registers_text g) = 629"
  using length_rows [OF register_keys_split(1)] register_keys_split(2) register_row_width [OF register_keys_split(3)]
  by (simp add: registers_text_def nl_def)

lemma rows_value:
  assumes "set ks \<subseteq> set register_keys" "i < length ks"
  shows "base_value 16 (take 16 (drop (35 * i + 16) (concat (map (\<lambda>k. register_row g k @ '','' @ nl) ks) @ t)))
    = unat (g (fst (ks ! i)))"
  using assms
proof (induction ks arbitrary: i)
  case Nil
  then show ?case by simp
next
  case (Cons k ks)
  have len: "length (register_row g k @ '','' @ nl) = 35" using Cons.prems by (simp add: register_row_width nl_def)
  show ?case
  proof (cases i)
    case 0
    then show ?thesis using Cons.prems register_row_value [of k g "'','' @ nl @ concat (map (\<lambda>k. register_row g k @ '','' @ nl) ks) @ t"]
      by simp
  next
    case (Suc j)
    have "drop (35 * i + 16) ((register_row g k @ '','' @ nl) @ concat (map (\<lambda>k. register_row g k @ '','' @ nl) ks) @ t)
        = drop (35 * j + 16) (concat (map (\<lambda>k. register_row g k @ '','' @ nl) ks) @ t)"
      using drop_exact [OF len, of "35 * j + 16"] by (simp only: Suc mult_Suc_right add.assoc)
    then show ?thesis using Cons Suc by simp
  qed
qed

text \<open>
  C33: The report of any signal, fault address and register contents fits the buffer of 2048
  characters on the stack of the handler.
\<close>

theorem crash_report_fits: "length (crash_report sig fault_addr gregs) \<le> 2048"
proof -
  have "unat (of_nat sig :: u64) < 10 ^ 20" using unat_u64_less [of "of_nat sig"] by simp
  then have s: "length (base_str 10 (unat (of_nat sig :: u64))) \<le> 20" by (intro length_base_str) simp_all
  have n: "length (signal_name sig) \<le> 7" "CHR 0x00 \<notin> set (signal_name sig)" by (simp_all add: signal_name_def)
  have h: "length (probe_hex64 dst fault_addr) = length dst + 18" for dst
  proof -
    obtain t where "probe_hex64 dst fault_addr = dst @ ''0x'' @ t" "length t = 16"
      "base_value 16 t = unat fault_addr" by (rule probe_hex64_field)
    then show ?thesis by simp
  qed
  have "length (report_head sig fault_addr) \<le> 200"
    using s n by (simp add: report_head_def Let_def h write_uint_base report_texts)
  then show ?thesis by (simp add: crash_report_def length_registers_text report_texts)
qed

text \<open>
  Every register of the report reads back: at the place of its row stand sixteen digits whose value is the
  register's.
\<close>

theorem crash_report_registers:
  "map (\<lambda>i. base_value 16 (take 16 (drop (35 * i + 16) (registers_text gregs)))) [0..<18]
   = map (\<lambda>k. unat (gregs (fst k))) register_keys"
proof (rule nth_equalityI)
  show "length (map (\<lambda>i. base_value 16 (take 16 (drop (35 * i + 16) (registers_text gregs)))) [0..<18])
      = length (map (\<lambda>k. unat (gregs (fst k))) register_keys)" by (simp add: register_keys_def)
  fix i
  assume i: "i < length (map (\<lambda>i. base_value 16 (take 16 (drop (35 * i + 16) (registers_text gregs)))) [0..<18])"
  then have i18: "i < 18" by (simp del: upt_rec_numeral)
  have "base_value 16 (take 16 (drop (35 * i + 16) (registers_text gregs))) = unat (gregs (fst (register_keys ! i)))"
  proof (cases "i < 17")
    case True
    then have "butlast register_keys ! i = register_keys ! i" using register_keys_split(2) by (intro nth_butlast) simp
    then show ?thesis using rows_value [OF register_keys_split(1), of i gregs] True register_keys_split(2)
      by (simp only: registers_text_def)
  next
    case False
    then have e: "i = 17" "register_keys ! i = last register_keys" using i18 by (simp_all add: register_keys_def)
    have "drop (35 * 17 + 16) (registers_text gregs) = drop 16 (register_row gregs (last register_keys) @ nl)"
      unfolding registers_text_def using length_rows [OF register_keys_split(1), of gregs] register_keys_split(2)
      by (intro drop_exact) simp
    then show ?thesis using register_row_value [OF register_keys_split(3), of gregs nl] e by (simp only:)
  qed
  then show "map (\<lambda>i. base_value 16 (take 16 (drop (35 * i + 16) (registers_text gregs)))) [0..<18] ! i
      = map (\<lambda>k. unat (gregs (fst k))) register_keys ! i"
    using i18 register_keys_split(4) by (simp del: upt_rec_numeral)
qed

end
