(* ===== verification/Epoll_Server.thy ===== *)
theory Epoll_Server
  imports Sys_Prelude "HOL-Library.Sublist"
begin

text \<open>
  The edge-triggered echo server (\<^verbatim>\<open>epoll_server.hpp\<close>). What the system calls return is given as lists of
  outcomes, consumed in order; what the server does to descriptors is the list of its actions. A
  handler that has used up its outcomes without returning is \<open>None\<close>.
\<close>

subsection \<open>Outcomes and actions\<close>

datatype read_outcome = Data bytes | Eof | Read_again | Read_failed

datatype write_outcome = Written nat | Write_again | Write_failed

datatype accept_outcome = Accepted int bool | Accept_again | Accept_failed

datatype server_action =
  Opened int
| Closed int
| Registered int
| Unregistered int
| Wrote int bytes

record EpollEchoServer =
  listen_fd :: int
  epoll_fd :: int
  running :: bool
  total_bytes_echoed :: u64
  total_connections :: u64

definition server_new :: EpollEchoServer where
  "server_new = \<lparr>listen_fd = -1, epoll_fd = -1, running = False, total_bytes_echoed = 0, total_connections = 0\<rparr>"

subsection \<open>Starting and stopping\<close>

text \<open>The results of \<^verbatim>\<open>socket\<close> and \<^verbatim>\<open>epoll_create1\<close>, and whether the other three calls succeed.\<close>

definition server_init :: "int \<Rightarrow> bool \<Rightarrow> bool \<Rightarrow> int \<Rightarrow> bool \<Rightarrow> EpollEchoServer \<Rightarrow> bool \<times> EpollEchoServer \<times> server_action list" where
  "server_init sock bound listening ep added s = (
     let s = s\<lparr>listen_fd := sock\<rparr> in
     if sock < 0 then (False, s, [])
     else if \<not> bound then (False, s\<lparr>listen_fd := -1\<rparr>, [Opened sock, Closed sock])
     else if \<not> listening then (False, s\<lparr>listen_fd := -1\<rparr>, [Opened sock, Closed sock])
     else let s = s\<lparr>epoll_fd := ep\<rparr> in
     if ep < 0 then (False, s\<lparr>listen_fd := -1\<rparr>, [Opened sock, Closed sock])
     else if \<not> added
     then (False, s\<lparr>epoll_fd := -1, listen_fd := -1\<rparr>, [Opened sock, Opened ep, Closed ep, Closed sock])
     else (True, s, [Opened sock, Opened ep, Registered sock]))"

definition server_stop :: "EpollEchoServer \<Rightarrow> EpollEchoServer \<times> server_action list" where
  "server_stop s = (
     let s = s\<lparr>running := False\<rparr>;
       a1 = (if epoll_fd s \<ge> 0 then [Closed (epoll_fd s)] else []);
       a2 = (if listen_fd s \<ge> 0 then [Closed (listen_fd s)] else [])
     in (s\<lparr>epoll_fd := (if epoll_fd s \<ge> 0 then -1 else epoll_fd s),
           listen_fd := (if listen_fd s \<ge> 0 then -1 else listen_fd s)\<rparr>, a1 @ a2))"

subsection \<open>Handlers\<close>

definition close_client :: "int \<Rightarrow> server_action list" where
  "close_client fd = [Unregistered fd, Closed fd]"

fun handle_accept :: "accept_outcome list \<Rightarrow> EpollEchoServer \<Rightarrow> (EpollEchoServer \<times> server_action list) option" where
  "handle_accept [] s = None"
| "handle_accept (Accept_again # os) s = Some (s, [])"
| "handle_accept (Accept_failed # os) s = Some (s, [])"
| "handle_accept (Accepted fd added # os) s = (
     let (s, a) = (if added then (s\<lparr>total_connections := total_connections s + 1\<rparr>, [Opened fd, Registered fd])
       else (s, [Opened fd, Closed fd]))
     in map_option (\<lambda>(s', as). (s', a @ as)) (handle_accept os s))"

text \<open>The loop that writes a chunk: what was written, whether it succeeded, and the outcomes left.\<close>

fun echo_chunk :: "write_outcome list \<Rightarrow> bytes \<Rightarrow> (bytes \<times> bool \<times> write_outcome list) option" where
  "echo_chunk ws [] = Some ([], True, ws)"
| "echo_chunk [] (b # bs) = None"
| "echo_chunk (Write_again # ws) (b # bs) = echo_chunk ws (b # bs)"
| "echo_chunk (Write_failed # ws) (b # bs) = Some ([], False, ws)"
| "echo_chunk (Written n # ws) (b # bs) =
     map_option (\<lambda>(out, ok, ws'). (take n (b # bs) @ out, ok, ws')) (echo_chunk ws (drop n (b # bs)))"

fun handle_read :: "int \<Rightarrow> read_outcome list \<Rightarrow> write_outcome list \<Rightarrow> EpollEchoServer
    \<Rightarrow> (EpollEchoServer \<times> server_action list) option" where
  "handle_read fd [] ws s = None"
| "handle_read fd (Eof # rs) ws s = Some (s, close_client fd)"
| "handle_read fd (Read_again # rs) ws s = Some (s, [])"
| "handle_read fd (Read_failed # rs) ws s = Some (s, close_client fd)"
| "handle_read fd (Data bs # rs) ws s = (
     let s = s\<lparr>total_bytes_echoed := total_bytes_echoed s + of_nat (length bs)\<rparr> in
     case echo_chunk ws bs of
       None \<Rightarrow> None
     | Some (out, ok, ws') \<Rightarrow>
         if ok then map_option (\<lambda>(s', as). (s', Wrote fd out # as)) (handle_read fd rs ws' s)
         else Some (s, Wrote fd out # close_client fd))"

subsection \<open>The event loop\<close>

record epoll_event =
  ev_fd :: int
  ev_events :: u32
  ev_accepts :: "accept_outcome list"
  ev_reads :: "read_outcome list"
  ev_writes :: "write_outcome list"

definition handle_event :: "epoll_event \<Rightarrow> EpollEchoServer \<Rightarrow> (EpollEchoServer \<times> server_action list) option" where
  "handle_event e s = (
     if ev_events e AND (0x8 OR 0x10 OR 0x2000) \<noteq> 0 then Some (s, close_client (ev_fd e))
     else if ev_fd e = listen_fd s then handle_accept (ev_accepts e) s
     else if ev_events e AND 0x1 \<noteq> 0 then handle_read (ev_fd e) (ev_reads e) (ev_writes e) s
     else Some (s, []))"

fun handle_events :: "epoll_event list \<Rightarrow> EpollEchoServer \<Rightarrow> (EpollEchoServer \<times> server_action list) option" where
  "handle_events [] s = Some (s, [])"
| "handle_events (e # es) s = (case handle_event e s of
     None \<Rightarrow> None
   | Some (s, a) \<Rightarrow> map_option (\<lambda>(s', as). (s', a @ as)) (handle_events es s))"

datatype wait_outcome = Ready "epoll_event list" | Interrupted | Wait_failed | Told_to_stop

fun server_loop :: "wait_outcome list \<Rightarrow> EpollEchoServer \<Rightarrow> (EpollEchoServer \<times> server_action list) option" where
  "server_loop [] s = None"
| "server_loop (Told_to_stop # os) s = Some (s\<lparr>running := False\<rparr>, [])"
| "server_loop (Wait_failed # os) s = Some (s, [])"
| "server_loop (Interrupted # os) s = server_loop os s"
| "server_loop (Ready es # os) s = (case handle_events es s of
     None \<Rightarrow> None
   | Some (s, a) \<Rightarrow> map_option (\<lambda>(s', as). (s', a @ as)) (server_loop os s))"

definition server_run :: "wait_outcome list \<Rightarrow> EpollEchoServer \<Rightarrow> (EpollEchoServer \<times> server_action list) option" where
  "server_run os s = server_loop os (s\<lparr>running := True\<rparr>)"

subsection \<open>What the actions amount to\<close>

fun open_after :: "server_action list \<Rightarrow> int set \<Rightarrow> int set" where
  "open_after [] F = F"
| "open_after (Opened fd # as) F = open_after as (insert fd F)"
| "open_after (Closed fd # as) F = open_after as (F - {fd})"
| "open_after (_ # as) F = open_after as F"

fun written_to :: "int \<Rightarrow> server_action list \<Rightarrow> bytes" where
  "written_to fd [] = []"
| "written_to fd (Wrote g bs # as) = (if g = fd then bs else []) @ written_to fd as"
| "written_to fd (_ # as) = written_to fd as"

fun data_of :: "read_outcome \<Rightarrow> bytes" where
  "data_of (Data bs) = bs"
| "data_of _ = []"

fun is_data :: "read_outcome \<Rightarrow> bool" where
  "is_data (Data bs) = True"
| "is_data _ = False"

lemma open_after_append [simp]: "open_after (a @ b) F = open_after b (open_after a F)"
  by (induction a F rule: open_after.induct) simp_all

lemma written_to_append [simp]: "written_to fd (a @ b) = written_to fd a @ written_to fd b"
  by (induction fd a rule: written_to.induct) simp_all

lemma written_to_close [simp]: "written_to fd (close_client g) = []"
  by (simp add: close_client_def)

lemma echo_chunk_exact:
  "echo_chunk ws bs = Some (out, ok, ws') \<Longrightarrow> prefix out bs \<and> (ok \<longrightarrow> out = bs) \<and> suffix ws' ws
    \<and> (\<not> ok \<longrightarrow> Write_failed \<in> set ws)"
proof (induction ws bs arbitrary: out rule: echo_chunk.induct)
  case (5 n ws b bs)
  then obtain out' where o: "echo_chunk ws (drop n (b # bs)) = Some (out', ok, ws')" "out = take n (b # bs) @ out'"
    by (auto simp del: take_Suc_Cons drop_Suc_Cons)
  note IH = "5.IH" [OF o(1)]
  have "prefix (take n (b # bs) @ out') (take n (b # bs) @ drop n (b # bs))" using IH by (simp add: same_prefix_prefix del: append_take_drop_id)
  then show ?case using IH o(2) by (auto simp: suffix_Cons)
qed (auto simp: suffix_Cons)

subsection \<open>Properties\<close>

definition received :: "read_outcome list \<Rightarrow> bytes" where
  "received rs = concat (map data_of (takeWhile is_data rs))"

lemma received_simps [simp]:
  "received [] = []" "received (Data bs # rs) = bs @ received rs" "received (Eof # rs) = []"
  "received (Read_again # rs) = []" "received (Read_failed # rs) = []"
  by (simp_all add: received_def)

lemma handle_read_prefix:
  "handle_read fd rs ws s = Some (s', as) \<Longrightarrow> prefix (written_to fd as) (received rs)"
proof (induction fd rs ws s arbitrary: s' as rule: handle_read.induct)
  case (5 fd bs rs ws s)
  then obtain out ok ws' where e: "echo_chunk ws bs = Some (out, ok, ws')"
    by (auto simp: Let_def split: option.splits)
  note x = echo_chunk_exact [OF e]
  show ?case
  proof (cases ok)
    case True
    then obtain as' where "handle_read fd rs ws' (s\<lparr>total_bytes_echoed := total_bytes_echoed s + of_nat (length bs)\<rparr>) = Some (s', as')"
        "as = Wrote fd out # as'"
      using "5.prems" e by (auto simp: Let_def)
    then show ?thesis using "5.IH" [OF refl e refl refl True] x True by simp
  next
    case False
    then have "written_to fd as = out" using "5.prems" e by (auto simp: Let_def)
    then show ?thesis using x by (simp add: prefix_prefix)
  qed
qed simp_all

lemma handle_read_complete:
  "handle_read fd rs ws s = Some (s', as) \<Longrightarrow> Write_failed \<notin> set ws \<Longrightarrow>
     written_to fd as = received rs
     \<and> s' = s\<lparr>total_bytes_echoed := total_bytes_echoed s + of_nat (length (received rs))\<rparr>
     \<and> (Closed fd \<in> set as \<longleftrightarrow> hd (dropWhile is_data rs) \<in> {Eof, Read_failed})"
proof (induction fd rs ws s arbitrary: s' as rule: handle_read.induct)
  case (5 fd bs rs ws s)
  then obtain out ok ws' where e: "echo_chunk ws bs = Some (out, ok, ws')"
    by (auto simp: Let_def split: option.splits)
  note x = echo_chunk_exact [OF e]
  have ok: ok using x "5.prems"(2) by blast
  have nf: "Write_failed \<notin> set ws'" using x "5.prems"(2) set_mono_suffix by blast
  obtain as' where r: "handle_read fd rs ws' (s\<lparr>total_bytes_echoed := total_bytes_echoed s + of_nat (length bs)\<rparr>) = Some (s', as')"
      "as = Wrote fd out # as'"
    using "5.prems"(1) e ok by (auto simp: Let_def)
  show ?case using "5.IH" [OF refl e refl refl ok r(1) nf] x ok r(2) by (simp add: add.assoc)
qed (simp_all add: close_client_def)

text \<open>
  C30: What a readable client gets back is a prefix of the bytes read from it, in order; and if no write
  fails it is all of them, however the kernel splits the reads and writes and however often a write
  must be repeated. Then the byte counter grows by exactly that number, and the client is closed
  exactly when reading ended with the end of the stream or an error.
\<close>

theorem epoll_echo_exact:
  assumes "handle_read fd rs ws s = Some (s', as)"
  shows "prefix (written_to fd as) (received rs)
    \<and> (Write_failed \<notin> set ws \<longrightarrow> written_to fd as = received rs
      \<and> s' = s\<lparr>total_bytes_echoed := total_bytes_echoed s + of_nat (length (received rs))\<rparr>
      \<and> (Closed fd \<in> set as \<longleftrightarrow> hd (dropWhile is_data rs) \<in> {Eof, Read_failed}))"
  using handle_read_prefix [OF assms] handle_read_complete [OF assms] by blast

theorem epoll_echo_exact_witness:
  "\<exists>s' as. handle_read 7 [Data [1, 2, 3], Data [4], Eof] [Written 2, Write_again, Written 1, Written 1] server_new = Some (s', as)
     \<and> written_to 7 as = [1, 2, 3, 4] \<and> Closed 7 \<in> set as"
proof -
  obtain s' as where r: "handle_read 7 [Data [1, 2, 3], Data [4], Eof] [Written 2, Write_again, Written 1, Written 1] server_new = Some (s', as)"
    by (simp add: Let_def numeral_2_eq_2)
  show ?thesis using epoll_echo_exact [OF r] r by auto
qed

text \<open>
  Whatever the system calls of the initialisation return, the server that is stopped afterwards
  has closed every descriptor it opened, and it holds descriptors in between exactly when it reported success.
\<close>

theorem epoll_init_stop_no_leak:
  "case server_init sock bound listening ep added server_new of (ok, s, as) \<Rightarrow>
     open_after as {} = (if ok then {sock, ep} else {})
     \<and> open_after (as @ snd (server_stop s)) {} = {}
     \<and> listen_fd (fst (server_stop s)) < 0 \<and> epoll_fd (fst (server_stop s)) < 0"
  by (auto simp: server_init_def server_stop_def server_new_def Let_def)

text \<open>
  A client that sends and then shuts down its side is reported readable and hung up at once; the
  server closes it without reading, so nothing of what it sent is echoed.
\<close>

theorem epoll_half_close_unanswered:
  assumes "ev_events e = 0x1 OR 0x2000"
  shows "handle_event e s = Some (s, close_client (ev_fd e)) \<and> written_to (ev_fd e) (close_client (ev_fd e)) = []"
  using assms by (simp add: handle_event_def)

theorem epoll_half_close_unanswered_witness:
  "handle_event \<lparr>ev_fd = 7, ev_events = 0x1 OR 0x2000, ev_accepts = [], ev_reads = [Data [1, 2], Eof], ev_writes = [Written 2]\<rparr>
     server_new = Some (server_new, close_client 7)"
  using epoll_half_close_unanswered [of "\<lparr>ev_fd = 7, ev_events = 0x1 OR 0x2000, ev_accepts = [],
    ev_reads = [Data [1, 2], Eof], ev_writes = [Written 2]\<rparr>" server_new] by simp

end
