(* ===== verification/Iouring_Reactor.thy ===== *)
theory Iouring_Reactor
  imports Ring_Fifo "HOL-Library.Multiset"
begin

text \<open>
  The echo reactor on \<^verbatim>\<open>io_uring\<close> (\<^verbatim>\<open>iouring_reactor.hpp\<close>). The submission ring keeps its free-running 32-bit
  counters and its mask; connection contexts live on a heap of addresses, because the code hands
  their addresses to the kernel and deletes them by hand. The kernel is the environment of a step
  relation: it takes entries from the ring, completes operations in any order with any result,
  and the reactor handles the completions in order.
\<close>

subsection \<open>State\<close>

datatype EventType = ACCEPT | READ | WRITE

record ConnectionContext =
  ctx_fd :: int
  ctx_type :: EventType
  bytes_transferred :: u32

record io_uring_sqe =
  opcode :: EventType
  sqe_fd :: int
  sqe_len :: u32
  user_data :: nat

record IoUringReactor =
  listen_fd :: int
  sq_entries :: u32
  sq_mask :: u32
  sq_head :: u32
  sq_tail :: u32
  pending_sqes :: u32
  sqes :: "io_uring_sqe list"
  contexts :: "nat \<Rightarrow> ConnectionContext option"
  fresh :: nat
  closed_fds :: "int list"
  total_bytes_echoed :: u64

subsection \<open>Submission\<close>

definition get_sqe :: "IoUringReactor \<Rightarrow> (nat \<times> IoUringReactor) option" where
  "get_sqe r = (
     let tail = sq_tail r; head = sq_head r in
     if tail - head \<ge> sq_entries r then None
     else Some (unat (tail AND sq_mask r), r\<lparr>sq_tail := tail + 1, pending_sqes := pending_sqes r + 1\<rparr>))"

definition new_context :: "ConnectionContext \<Rightarrow> IoUringReactor \<Rightarrow> nat \<times> IoUringReactor" where
  "new_context c r = (fresh r, r\<lparr>contexts := (contexts r)(fresh r \<mapsto> c), fresh := Suc (fresh r)\<rparr>)"

definition delete_context :: "nat \<Rightarrow> IoUringReactor \<Rightarrow> IoUringReactor" where
  "delete_context a r = r\<lparr>contexts := (contexts r)(a := None)\<rparr>"

definition submit_accept :: "IoUringReactor \<Rightarrow> IoUringReactor" where
  "submit_accept r = (case get_sqe r of
     None \<Rightarrow> r
   | Some (i, r) \<Rightarrow>
       let (a, r) = new_context \<lparr>ctx_fd = listen_fd r, ctx_type = ACCEPT, bytes_transferred = 0\<rparr> r
       in r\<lparr>sqes := (sqes r)[i := \<lparr>opcode = ACCEPT, sqe_fd = listen_fd r, sqe_len = 0, user_data = a\<rparr>]\<rparr>)"

definition submit_read :: "nat \<Rightarrow> IoUringReactor \<Rightarrow> IoUringReactor" where
  "submit_read a r = (case get_sqe r of
     None \<Rightarrow> r
   | Some (i, r) \<Rightarrow>
       let c = the (contexts r a)
       in r\<lparr>contexts := (contexts r)(a \<mapsto> c\<lparr>ctx_type := READ\<rparr>),
            sqes := (sqes r)[i := \<lparr>opcode = READ, sqe_fd = ctx_fd c, sqe_len = 2048, user_data = a\<rparr>]\<rparr>)"

definition submit_write :: "nat \<Rightarrow> u32 \<Rightarrow> IoUringReactor \<Rightarrow> IoUringReactor" where
  "submit_write a len r = (case get_sqe r of
     None \<Rightarrow> r
   | Some (i, r) \<Rightarrow>
       let c = the (contexts r a)
       in r\<lparr>contexts := (contexts r)(a \<mapsto> c\<lparr>ctx_type := WRITE, bytes_transferred := len\<rparr>),
            sqes := (sqes r)[i := \<lparr>opcode = WRITE, sqe_fd = ctx_fd c, sqe_len = len, user_data = a\<rparr>]\<rparr>)"

subsection \<open>Completion\<close>

text \<open>\<open>None\<close> when the context was deleted before: its type would be read from freed memory.\<close>

definition handle_completion :: "nat \<Rightarrow> int \<Rightarrow> IoUringReactor \<Rightarrow> IoUringReactor option" where
  "handle_completion a res r = (case contexts r a of
     None \<Rightarrow> None
   | Some ctx \<Rightarrow> Some (case ctx_type ctx of
       ACCEPT \<Rightarrow>
         let r = (if res \<ge> 0
           then let (b, r) = new_context \<lparr>ctx_fd = res, ctx_type = ACCEPT, bytes_transferred = 0\<rparr> r
                in submit_read b r
           else r)
         in delete_context a (submit_accept r)
     | READ \<Rightarrow>
         if res > 0
         then submit_write a (of_int res)
           (r\<lparr>total_bytes_echoed := total_bytes_echoed r + of_int res\<rparr>)
         else delete_context a (r\<lparr>closed_fds := ctx_fd ctx # closed_fds r\<rparr>)
     | WRITE \<Rightarrow>
         if res > 0 then submit_read a r
         else delete_context a (r\<lparr>closed_fds := ctx_fd ctx # closed_fds r\<rparr>)))"

subsection \<open>Ring, kernel and completions\<close>

definition ring_of :: "IoUringReactor \<Rightarrow> io_uring_sqe list" where
  "ring_of r = map (\<lambda>i. sqes r ! unat ((sq_head r + of_nat i) AND sq_mask r)) [0..<unat (sq_tail r - sq_head r)]"

record uring_world =
  reactor :: IoUringReactor
  in_kernel :: "io_uring_sqe list"
  completions :: "(nat \<times> int) list"

definition uring_enter :: "nat \<Rightarrow> uring_world \<Rightarrow> uring_world" where
  "uring_enter n w = (let r = reactor w in
     w\<lparr>reactor := r\<lparr>sq_head := sq_head r + of_nat n, pending_sqes := 0\<rparr>,
       in_kernel := in_kernel w @ take n (ring_of r)\<rparr>)"

text \<open>
  With \<open>roomy\<close> the completions are handled only while the ring has two free entries, which is what
  the handler may need.
\<close>

inductive uring_step :: "bool \<Rightarrow> uring_world \<Rightarrow> uring_world option \<Rightarrow> bool" for roomy where
  Enter: "n \<le> length (ring_of (reactor w)) \<Longrightarrow> uring_step roomy w (Some (uring_enter n w))"
| Complete: "in_kernel w = xs @ e # ys \<Longrightarrow>
    uring_step roomy w (Some (w\<lparr>in_kernel := xs @ ys, completions := completions w @ [(user_data e, res)]\<rparr>))"
| Handle: "completions w = (a, res) # cs \<Longrightarrow>
    (roomy \<Longrightarrow> length (ring_of (reactor w)) + 2 \<le> unat (sq_entries (reactor w))) \<Longrightarrow>
    uring_step roomy w (map_option (\<lambda>r. w\<lparr>reactor := r, completions := cs\<rparr>) (handle_completion a res (reactor w)))"

definition reactor_init :: "int \<Rightarrow> nat \<Rightarrow> IoUringReactor" where
  "reactor_init lfd k = submit_accept \<lparr>listen_fd = lfd, sq_entries = 2 ^ k, sq_mask = mask k, sq_head = 0, sq_tail = 0,
     pending_sqes = 0, sqes = replicate (2 ^ k) \<lparr>opcode = ACCEPT, sqe_fd = 0, sqe_len = 0, user_data = 0\<rparr>,
     contexts = Map.empty, fresh = 1, closed_fds = [], total_bytes_echoed = 0\<rparr>"

inductive uring_reach :: "bool \<Rightarrow> int \<Rightarrow> nat \<Rightarrow> uring_world option \<Rightarrow> bool" for roomy lfd k where
  Start: "uring_reach roomy lfd k (Some \<lparr>reactor = reactor_init lfd k, in_kernel = [], completions = []\<rparr>)"
| Next: "uring_reach roomy lfd k (Some w) \<Longrightarrow> uring_step roomy w x \<Longrightarrow> uring_reach roomy lfd k x"

subsection \<open>The submission ring\<close>

definition ring_inv :: "nat \<Rightarrow> IoUringReactor \<Rightarrow> bool" where
  "ring_inv k r \<longleftrightarrow> k < 32 \<and> sq_entries r = 2 ^ k \<and> sq_mask r = mask k \<and> length (sqes r) = 2 ^ k
     \<and> unat (sq_tail r - sq_head r) \<le> 2 ^ k"

lemma entries_u32: "k < 32 \<Longrightarrow> unat ((2::u32) ^ k) = 2 ^ k"
  using unat_of_nat_u32 [of "2 ^ k"] power_strict_increasing [of k 32 "2::nat"] by simp

lemma length_ring_of [simp]: "length (ring_of r) = unat (sq_tail r - sq_head r)"
  by (simp add: ring_of_def)

lemma get_sqe_None:
  assumes "ring_inv k r"
  shows "get_sqe r = None \<longleftrightarrow> length (ring_of r) = 2 ^ k"
  using assms entries_u32 [of k] by (auto simp: get_sqe_def ring_inv_def word_le_nat_alt Let_def)

lemma ring_of_push:
  assumes inv: "ring_inv k r" and room: "length (ring_of r) < 2 ^ k"
    and r': "sq_tail r' = sq_tail r + 1" "sq_head r' = sq_head r" "sq_mask r' = sq_mask r"
      "sqes r' = (sqes r)[unat (sq_tail r AND sq_mask r) := e]"
  shows "ring_of r' = ring_of r @ [e]"
proof -
  let ?n = "unat (sq_tail r - sq_head r)" and ?h = "sq_head r"
  have k: "k < 32" and m: "sq_mask r = mask k" and len: "length (sqes r) = 2 ^ k" using inv by (simp_all add: ring_inv_def)
  have n: "?n < 2 ^ k" using room by simp
  have pow: "(2::nat) ^ k < 2 ^ 32" using k by (rule power_strict_increasing) simp
  have suc: "unat (sq_tail r + 1 - ?h) = Suc ?n"
    using n pow by (intro unat_Suc_diff [where n = "2 ^ k"]) simp_all
  have idx: "unat ((?h + of_nat i) AND mask k) = (unat ?h + i) mod 2 ^ k" for i
    using unat_add_mask_pow2 [of k ?h i] k by simp
  have tl: "unat (sq_tail r AND mask k) = (unat ?h + ?n) mod 2 ^ k" using idx [of ?n] by simp
  have other: "(unat ?h + ?n) mod 2 ^ k \<noteq> (unat ?h + i) mod 2 ^ k" if "i < ?n" for i
    using that n by (intro add_mod_neq [symmetric]) auto
  have "map (\<lambda>i. (sqes r)[(unat ?h + ?n) mod 2 ^ k := e] ! ((unat ?h + i) mod 2 ^ k)) [0..<?n]
      = map (\<lambda>i. sqes r ! ((unat ?h + i) mod 2 ^ k)) [0..<?n]"
    using other by (intro map_cong) auto
  then show ?thesis unfolding ring_of_def r' m suc by (simp add: idx tl len)
qed

lemma ring_of_enter:
  assumes "n \<le> length (ring_of r)"
  shows "ring_of (r\<lparr>sq_head := sq_head r + of_nat n, pending_sqes := p\<rparr>) = drop n (ring_of r)"
proof -
  let ?h = "sq_head r" and ?t = "sq_tail r"
  have n: "n \<le> unat (?t - ?h)" using assms by simp
  have e: "?t - (?h + of_nat n) = (?t - ?h) - of_nat n" by (rule diff_diff_eq [symmetric])
  have u: "unat (of_nat n :: u32) = n"
    using n unat_u32_less [of "?t - ?h"] by (intro unat_of_nat_u32) linarith
  have d: "unat (?t - (?h + of_nat n)) = unat (?t - ?h) - n"
    unfolding e using n u by (simp add: unat_sub word_le_nat_alt)
  show ?thesis unfolding ring_of_def by (rule nth_equalityI) (simp_all add: d ac_simps)
qed

text \<open>The three submissions: nothing happens on a full ring, otherwise one entry is added.\<close>

lemma submit_accept_cases:
  assumes inv: "ring_inv k r"
  obtains (full) "length (ring_of r) = 2 ^ k" "submit_accept r = r"
  | (added) e where "length (ring_of r) < 2 ^ k" "ring_inv k (submit_accept r)" "user_data e = fresh r"
      "ring_of (submit_accept r) = ring_of r @ [e]" "fresh (submit_accept r) = Suc (fresh r)"
      "contexts (submit_accept r) = (contexts r)(fresh r \<mapsto>
         \<lparr>ctx_fd = listen_fd r, ctx_type = ACCEPT, bytes_transferred = 0\<rparr>)"
      "listen_fd (submit_accept r) = listen_fd r"
proof (cases "length (ring_of r) = 2 ^ k")
  case True
  then show ?thesis using full get_sqe_None [OF inv] by (simp add: submit_accept_def)
next
  case False
  then have lt: "length (ring_of r) < 2 ^ k" using inv by (simp add: ring_inv_def)
  obtain i r1 where g: "get_sqe r = Some (i, r1)" using False get_sqe_None [OF inv] by (cases "get_sqe r") auto
  let ?e = "\<lparr>opcode = ACCEPT, sqe_fd = listen_fd r, sqe_len = 0, user_data = fresh r\<rparr>"
  have r: "i = unat (sq_tail r AND sq_mask r)" "r1 = r\<lparr>sq_tail := sq_tail r + 1, pending_sqes := pending_sqes r + 1\<rparr>"
    using g by (auto simp: get_sqe_def Let_def split: if_splits)
  have push: "ring_of (submit_accept r) = ring_of r @ [?e]"
    by (rule ring_of_push [OF inv lt]) (simp_all add: submit_accept_def g r new_context_def)
  have "length (ring_of (submit_accept r)) \<le> 2 ^ k" using lt unfolding push by simp
  then have "ring_inv k (submit_accept r)" using inv
    unfolding ring_inv_def length_ring_of by (simp add: submit_accept_def g r new_context_def)
  then show ?thesis using lt push by (intro added [of ?e]) (simp_all add: submit_accept_def g r new_context_def)
qed

lemma submit_read_cases:
  assumes inv: "ring_inv k r" and c: "contexts r a = Some c"
  obtains (full) "length (ring_of r) = 2 ^ k" "submit_read a r = r"
  | (added) e where "length (ring_of r) < 2 ^ k" "ring_inv k (submit_read a r)" "user_data e = a"
      "ring_of (submit_read a r) = ring_of r @ [e]" "fresh (submit_read a r) = fresh r"
      "contexts (submit_read a r) = (contexts r)(a \<mapsto> c\<lparr>ctx_type := READ\<rparr>)"
proof (cases "length (ring_of r) = 2 ^ k")
  case True
  then show ?thesis using full get_sqe_None [OF inv] by (simp add: submit_read_def)
next
  case False
  then have lt: "length (ring_of r) < 2 ^ k" using inv by (simp add: ring_inv_def)
  obtain i r1 where g: "get_sqe r = Some (i, r1)" using False get_sqe_None [OF inv] by (cases "get_sqe r") auto
  let ?e = "\<lparr>opcode = READ, sqe_fd = ctx_fd c, sqe_len = 2048, user_data = a\<rparr>"
  have r: "i = unat (sq_tail r AND sq_mask r)" "r1 = r\<lparr>sq_tail := sq_tail r + 1, pending_sqes := pending_sqes r + 1\<rparr>"
    using g by (auto simp: get_sqe_def Let_def split: if_splits)
  have push: "ring_of (submit_read a r) = ring_of r @ [?e]"
    by (rule ring_of_push [OF inv lt]) (simp_all add: submit_read_def g r c)
  have "length (ring_of (submit_read a r)) \<le> 2 ^ k" using lt unfolding push by simp
  then have "ring_inv k (submit_read a r)" using inv
    unfolding ring_inv_def length_ring_of by (simp add: submit_read_def g r c)
  then show ?thesis using lt push by (intro added [of ?e]) (simp_all add: submit_read_def g r c)
qed

lemma submit_write_cases:
  assumes inv: "ring_inv k r" and c: "contexts r a = Some c"
  obtains (full) "length (ring_of r) = 2 ^ k" "submit_write a n r = r"
  | (added) e where "length (ring_of r) < 2 ^ k" "ring_inv k (submit_write a n r)" "user_data e = a"
      "ring_of (submit_write a n r) = ring_of r @ [e]" "fresh (submit_write a n r) = fresh r"
      "contexts (submit_write a n r) = (contexts r)(a \<mapsto> c\<lparr>ctx_type := WRITE, bytes_transferred := n\<rparr>)"
proof (cases "length (ring_of r) = 2 ^ k")
  case True
  then show ?thesis using full get_sqe_None [OF inv] by (simp add: submit_write_def)
next
  case False
  then have lt: "length (ring_of r) < 2 ^ k" using inv by (simp add: ring_inv_def)
  obtain i r1 where g: "get_sqe r = Some (i, r1)" using False get_sqe_None [OF inv] by (cases "get_sqe r") auto
  let ?e = "\<lparr>opcode = WRITE, sqe_fd = ctx_fd c, sqe_len = n, user_data = a\<rparr>"
  have r: "i = unat (sq_tail r AND sq_mask r)" "r1 = r\<lparr>sq_tail := sq_tail r + 1, pending_sqes := pending_sqes r + 1\<rparr>"
    using g by (auto simp: get_sqe_def Let_def split: if_splits)
  have push: "ring_of (submit_write a n r) = ring_of r @ [?e]"
    by (rule ring_of_push [OF inv lt]) (simp_all add: submit_write_def g r c)
  have "length (ring_of (submit_write a n r)) \<le> 2 ^ k" using lt unfolding push by simp
  then have "ring_inv k (submit_write a n r)" using inv
    unfolding ring_inv_def length_ring_of by (simp add: submit_write_def g r c)
  then show ?thesis using lt push by (intro added [of ?e]) (simp_all add: submit_write_def g r c)
qed

subsection \<open>Ownership of contexts\<close>

text \<open>
  A context has one owner: the ring, the kernel or the completion queue; \<open>os\<close> are the addresses the latter
  two hold. All owned contexts are alive, and addresses are never reused.
\<close>

definition owned :: "IoUringReactor \<Rightarrow> nat list \<Rightarrow> nat list" where
  "owned r os = map user_data (ring_of r) @ os"

definition owners_ok :: "nat \<Rightarrow> IoUringReactor \<Rightarrow> nat list \<Rightarrow> bool" where
  "owners_ok k r os \<longleftrightarrow> ring_inv k r \<and> distinct (owned r os) \<and> set (owned r os) \<subseteq> dom (contexts r)
     \<and> (\<forall>a\<in>dom (contexts r). a < fresh r)"

lemma owners_okD:
  assumes "owners_ok k r os"
  shows "ring_inv k r" "distinct (owned r os)" "a \<in> set (owned r os) \<Longrightarrow> a \<in> dom (contexts r)"
    "a \<in> dom (contexts r) \<Longrightarrow> a < fresh r" "fresh r \<notin> set (owned r os)" "fresh r \<notin> dom (contexts r)"
  using assms by (auto simp: owners_ok_def)

lemma owned_simps [simp]:
  "owned (r\<lparr>contexts := h\<rparr>) os = owned r os" "owned (r\<lparr>fresh := n\<rparr>) os = owned r os"
  "owned (r\<lparr>closed_fds := cl\<rparr>) os = owned r os" "owned (r\<lparr>total_bytes_echoed := t\<rparr>) os = owned r os"
  by (simp_all add: owned_def ring_of_def)

lemma ring_inv_simps [simp]:
  "ring_inv k (r\<lparr>contexts := h\<rparr>) = ring_inv k r" "ring_inv k (r\<lparr>fresh := n\<rparr>) = ring_inv k r"
  "ring_inv k (r\<lparr>closed_fds := cl\<rparr>) = ring_inv k r" "ring_inv k (r\<lparr>total_bytes_echoed := t\<rparr>) = ring_inv k r"
  by (simp_all add: ring_inv_def)

lemma owners_ok_simps [simp]:
  "owners_ok k (r\<lparr>closed_fds := cl\<rparr>) os = owners_ok k r os"
  "owners_ok k (r\<lparr>total_bytes_echoed := t\<rparr>) os = owners_ok k r os"
  by (simp_all add: owners_ok_def)

lemma new_context_ok: "owners_ok k r os \<Longrightarrow> owners_ok k (snd (new_context c r)) os"
  unfolding owners_ok_def new_context_def by (auto simp: dom_def less_SucI)

lemma delete_context_ok: "owners_ok k r (a # os) \<Longrightarrow> owners_ok k (delete_context a r) os"
  by (auto simp: owners_ok_def delete_context_def owned_def ring_of_def)

lemma forget_ok: "owners_ok k r (a # os) \<Longrightarrow> owners_ok k r os \<and> a \<notin> set (owned r os) \<and> a \<in> dom (contexts r)"
  by (auto simp: owners_ok_def owned_def)

lemma pushed_ok:
  assumes ok: "owners_ok k r os" and inv: "ring_inv k r'" and ring: "ring_of r' = ring_of r @ [e]"
    and e: "user_data e = a" and new: "a \<notin> set (owned r os)" and ctx: "contexts r' = (contexts r)(a \<mapsto> c)"
    and fr: "fresh r \<le> fresh r'" "a < fresh r'"
  shows "owners_ok k r' os"
proof -
  have o: "set (owned r' os) = insert a (set (owned r os))" "distinct (owned r' os)"
    using owners_okD(2) [OF ok] new e by (auto simp: owned_def ring)
  have "b < fresh r'" if b: "b \<in> dom (contexts r')" for b
  proof (cases "b = a")
    case False
    then have "b < fresh r" using b owners_okD(4) [OF ok, of b] by (simp add: ctx dom_def)
    then show ?thesis using fr by linarith
  qed (simp add: fr)
  moreover have "set (owned r' os) \<subseteq> dom (contexts r')" using o owners_okD(3) [OF ok] by (auto simp: ctx)
  ultimately show ?thesis using o inv by (simp add: owners_ok_def)
qed

lemma submit_read_ok:
  assumes ok: "owners_ok k r os" and a: "a \<notin> set (owned r os)" "a \<in> dom (contexts r)"
  shows "owners_ok k (submit_read a r) os"
proof -
  obtain c where c: "contexts r a = Some c" using a(2) by auto
  show ?thesis
  proof (cases rule: submit_read_cases [OF owners_okD(1) [OF ok] c])
    case 1
    then show ?thesis using ok by simp
  next
    case (2 e)
    show ?thesis
      by (rule pushed_ok [OF ok 2(2,4,3) a(1) 2(6)]) (simp_all add: 2(5) owners_okD(4) [OF ok a(2)])
  qed
qed

lemma submit_write_ok:
  assumes ok: "owners_ok k r os" and a: "a \<notin> set (owned r os)" "a \<in> dom (contexts r)"
  shows "owners_ok k (submit_write a n r) os"
proof -
  obtain c where c: "contexts r a = Some c" using a(2) by auto
  show ?thesis
  proof (cases rule: submit_write_cases [OF owners_okD(1) [OF ok] c, of n])
    case 1
    then show ?thesis using ok by simp
  next
    case (2 e)
    show ?thesis
      by (rule pushed_ok [OF ok 2(2,4,3) a(1) 2(6)]) (simp_all add: 2(5) owners_okD(4) [OF ok a(2)])
  qed
qed

lemma submit_accept_ok:
  assumes ok: "owners_ok k r os"
  shows "owners_ok k (submit_accept r) os"
proof (cases rule: submit_accept_cases [OF owners_okD(1) [OF ok]])
  case 1
  then show ?thesis using ok by simp
next
  case (2 e)
  show ?thesis by (rule pushed_ok [OF ok 2(2,4,3) owners_okD(5) [OF ok] 2(6)]) (simp_all add: 2(5))
qed

lemma handle_completion_ok:
  assumes ok: "owners_ok k r (a # os)"
  shows "\<exists>r'. handle_completion a res r = Some r' \<and> owners_ok k r' os"
proof -
  obtain c where c: "contexts r a = Some c" using forget_ok [OF ok] by auto
  have del: "owners_ok k (delete_context a (r\<lparr>closed_fds := x\<rparr>)) os" for x
    by (rule delete_context_ok) (simp add: ok)
  show ?thesis
  proof (cases "ctx_type c")
    case ACCEPT
    define r1 where "r1 = (if res \<ge> 0 then submit_read (fresh r)
      (snd (new_context \<lparr>ctx_fd = res, ctx_type = ACCEPT, bytes_transferred = 0\<rparr> r)) else r)"
    have "owners_ok k r1 (a # os)"
    proof (cases "res \<ge> 0")
      case True
      then show ?thesis unfolding r1_def using owners_okD(5) [OF ok]
        by (simp only: if_True) (intro submit_read_ok new_context_ok ok; simp add: new_context_def)
    qed (simp add: r1_def ok)
    then have "owners_ok k (delete_context a (submit_accept r1)) os"
      by (intro delete_context_ok submit_accept_ok)
    moreover have "handle_completion a res r = Some (delete_context a (submit_accept r1))"
      by (simp add: handle_completion_def c ACCEPT r1_def new_context_def Let_def)
    ultimately show ?thesis by blast
  next
    case READ
    then show ?thesis using del forget_ok [OF ok]
      by (auto simp: handle_completion_def c intro!: submit_write_ok)
  next
    case WRITE
    then show ?thesis using del forget_ok [OF ok]
      by (auto simp: handle_completion_def c intro!: submit_read_ok)
  qed
qed

subsection \<open>No leak while the ring has room\<close>

definition accepting :: "IoUringReactor \<Rightarrow> nat set" where
  "accepting r = {a. \<exists>c. contexts r a = Some c \<and> ctx_type c = ACCEPT}"

definition owners_tight :: "IoUringReactor \<Rightarrow> nat list \<Rightarrow> bool" where
  "owners_tight r os \<longleftrightarrow> dom (contexts r) = set (owned r os) \<and> (\<exists>a. accepting r = {a})"

lemma accepting_upd: "contexts r' = (contexts r)(a \<mapsto> c) \<Longrightarrow>
    accepting r' = (if ctx_type c = ACCEPT then insert a (accepting r) else accepting r - {a})"
  by (auto simp: accepting_def)

lemma accepting_delete: "accepting (delete_context a r) = accepting r - {a}"
  by (auto simp: accepting_def delete_context_def)

lemma tight_delete:
  assumes ok: "owners_ok k r (a # os)" and t: "owners_tight r (a # os)" and na: "a \<notin> accepting r"
  shows "owners_tight (delete_context a (r\<lparr>closed_fds := x\<rparr>)) os"
proof -
  have "dom (contexts (delete_context a (r\<lparr>closed_fds := x\<rparr>))) = set (owned r (a # os)) - {a}"
    using t by (auto simp: owners_tight_def delete_context_def)
  also have "\<dots> = set (owned (delete_context a (r\<lparr>closed_fds := x\<rparr>)) os)"
    using owners_okD(2) [OF ok] by (auto simp: owned_def delete_context_def ring_of_def)
  finally show ?thesis using t na by (auto simp: owners_tight_def accepting_delete) (auto simp: accepting_def)
qed

lemma tight_push:
  assumes t: "owners_tight r (a # os)" and na: "a \<notin> accepting r" and ring: "ring_of r' = ring_of r @ [e]"
    and e: "user_data e = a" and ctx: "contexts r' = (contexts r)(a \<mapsto> c)" and ty: "ctx_type c \<noteq> ACCEPT"
  shows "owners_tight r' os"
proof -
  have "dom (contexts r') = set (owned r' os)"
    using t e by (auto simp: owners_tight_def owned_def ring ctx)
  moreover have "accepting r' = accepting r" using accepting_upd [OF ctx] ty na by simp
  ultimately show ?thesis using t by (simp add: owners_tight_def)
qed

lemma tight_accept:
  assumes ok: "owners_ok k r (a # os)" and dom: "dom (contexts r) = set (owned r (a # os))" and acc: "accepting r = {a}"
    and room: "length (ring_of r) < 2 ^ k"
  shows "owners_tight (delete_context a (submit_accept r)) os"
proof (cases rule: submit_accept_cases [OF owners_okD(1) [OF ok]])
  case 1
  then show ?thesis using room by simp
next
  case (2 e)
  have na: "a \<noteq> fresh r" using owners_okD(5) [OF ok] by (auto simp: owned_def)
  have "accepting (submit_accept r) = {fresh r, a}" using accepting_upd [OF 2(6)] acc by simp
  then have "accepting (delete_context a (submit_accept r)) = {fresh r}" using na by (simp add: accepting_delete insert_Diff_if)
  moreover have "a \<notin> set (owned (submit_accept r) os)"
    using owners_okD(2) [OF ok] na 2(3) by (auto simp: owned_def 2(4))
  moreover have "dom (contexts (submit_accept r)) = insert a (set (owned (submit_accept r) os))"
    using dom 2(3) by (auto simp: 2(6) owned_def 2(4))
  ultimately show ?thesis by (auto simp: owners_tight_def delete_context_def owned_def ring_of_def)
qed

lemma tight_read_done:
  assumes ok: "owners_ok k r (a # os)" and t: "owners_tight r (a # os)" and room: "length (ring_of r) + 2 \<le> 2 ^ k"
    and c: "contexts r a = Some c" "ctx_type c = READ" and h: "handle_completion a res r = Some r'"
  shows "owners_tight r' os"
proof -
  have na: "a \<notin> accepting r" using c by (simp add: accepting_def)
  show ?thesis
  proof (cases "res > 0")
    case True
    let ?r = "r\<lparr>total_bytes_echoed := total_bytes_echoed r + of_int res\<rparr>"
    have r': "r' = submit_write a (of_int res) ?r" using h c True by (simp add: handle_completion_def)
    have i: "ring_inv k ?r" "contexts ?r a = Some c" using owners_okD(1) [OF ok] c by simp_all
    show ?thesis unfolding r'
    proof (cases rule: submit_write_cases [OF i, of "of_int res"])
      case 1
      then show "owners_tight (submit_write a (of_int res) ?r) os" using room by (simp add: ring_of_def)
    next
      case (2 e)
      show "owners_tight (submit_write a (of_int res) ?r) os"
        by (rule tight_push [OF t na _ 2(3), where c = "c\<lparr>ctx_type := WRITE, bytes_transferred := of_int res\<rparr>"])
          (simp_all add: 2(4,6), simp add: ring_of_def)
    qed
  next
    case False
    then have "r' = delete_context a (r\<lparr>closed_fds := ctx_fd c # closed_fds r\<rparr>)"
      using h c by (simp add: handle_completion_def)
    then show ?thesis using tight_delete [OF ok t na] by simp
  qed
qed

lemma tight_write_done:
  assumes ok: "owners_ok k r (a # os)" and t: "owners_tight r (a # os)" and room: "length (ring_of r) + 2 \<le> 2 ^ k"
    and c: "contexts r a = Some c" "ctx_type c = WRITE" and h: "handle_completion a res r = Some r'"
  shows "owners_tight r' os"
proof -
  have na: "a \<notin> accepting r" using c by (simp add: accepting_def)
  show ?thesis
  proof (cases "res > 0")
    case True
    then have r': "r' = submit_read a r" using h c by (simp add: handle_completion_def)
    show ?thesis unfolding r'
    proof (cases rule: submit_read_cases [OF owners_okD(1) [OF ok] c(1)])
      case 1
      then show "owners_tight (submit_read a r) os" using room by simp
    next
      case (2 e)
      show "owners_tight (submit_read a r) os" by (rule tight_push [OF t na 2(4,3,6)]) simp
    qed
  next
    case False
    then have "r' = delete_context a (r\<lparr>closed_fds := ctx_fd c # closed_fds r\<rparr>)"
      using h c by (simp add: handle_completion_def)
    then show ?thesis using tight_delete [OF ok t na] by simp
  qed
qed

text \<open>Accepting a client: its context is allocated and read from before the next accept is submitted.\<close>

lemma tight_accepted:
  assumes ok: "owners_ok k r (a # os)" and dom: "dom (contexts r) = set (owned r (a # os))" and acc: "accepting r = {a}"
    and room: "length (ring_of r) + 2 \<le> 2 ^ k"
    and r1: "r1 = snd (new_context \<lparr>ctx_fd = fd, ctx_type = ACCEPT, bytes_transferred = 0\<rparr> r)"
    and r2: "r2 = submit_read (fresh r) r1"
  shows "owners_tight (delete_context a (submit_accept r2)) os"
proof -
  have f1: "owners_ok k r1 (a # os)"
      "contexts r1 = (contexts r)(fresh r \<mapsto> \<lparr>ctx_fd = fd, ctx_type = ACCEPT, bytes_transferred = 0\<rparr>)"
      "ring_of r1 = ring_of r" "owned r1 (a # os) = owned r (a # os)"
    using new_context_ok [OF ok] by (simp_all add: r1 new_context_def ring_of_def owned_def)
  have fr: "fresh r \<notin> set (owned r1 (a # os))"
      "contexts r1 (fresh r) = Some \<lparr>ctx_fd = fd, ctx_type = ACCEPT, bytes_transferred = 0\<rparr>"
    using owners_okD(5) [OF ok] by (simp_all add: f1)
  have ok2: "owners_ok k r2 (a # os)" unfolding r2 using fr by (intro submit_read_ok f1(1)) auto
  have na: "a \<noteq> fresh r" using owners_okD(5) [OF ok] by (auto simp: owned_def)
  show ?thesis
  proof (cases rule: submit_read_cases [OF owners_okD(1) [OF f1(1)] fr(2)])
    case 1
    then show ?thesis using room unfolding f1(3) by linarith
  next
    case (2 e)
    have acc2: "accepting r2 = {a}"
      using accepting_upd [OF 2(6)] accepting_upd [OF f1(2)] acc na by (auto simp: r2)
    have "dom (contexts r2) = set (owned r2 (a # os))"
      using dom 2(3) by (auto simp: r2 2(6) f1(2,3) owned_def 2(4))
    moreover have "length (ring_of r2) < 2 ^ k"
      using room unfolding r2 2(4) f1(3) by simp
    ultimately show ?thesis using tight_accept [OF ok2] acc2 by blast
  qed
qed

lemma handle_completion_tight:
  assumes ok: "owners_ok k r (a # os)" and t: "owners_tight r (a # os)" and room: "length (ring_of r) + 2 \<le> 2 ^ k"
    and h: "handle_completion a res r = Some r'"
  shows "owners_tight r' os"
proof -
  obtain c where c: "contexts r a = Some c" using forget_ok [OF ok] by auto
  show ?thesis
  proof (cases "ctx_type c")
    case ACCEPT
    then have "a \<in> accepting r" using c by (simp add: accepting_def)
    moreover obtain b where "accepting r = {b}" using t by (auto simp: owners_tight_def)
    ultimately have acc: "accepting r = {a}" by simp
    have dom: "dom (contexts r) = set (owned r (a # os))" using t by (simp add: owners_tight_def)
    show ?thesis
    proof (cases "res \<ge> 0")
      case True
      then show ?thesis using h c ACCEPT tight_accepted [OF ok dom acc room refl refl, of res]
        by (simp add: handle_completion_def new_context_def Let_def)
    next
      case False
      then have "r' = delete_context a (submit_accept r)" using h c ACCEPT by (simp add: handle_completion_def Let_def)
      then show ?thesis using tight_accept [OF ok dom acc] room by simp
    qed
  qed (use tight_read_done [OF ok t room c _ h] tight_write_done [OF ok t room c _ h] in simp_all)
qed

subsection \<open>Every reachable state\<close>

definition holders :: "uring_world \<Rightarrow> nat list" where
  "holders w = map user_data (in_kernel w) @ map fst (completions w)"

lemma owners_ok_moved:
  assumes "owners_ok k r os" "mset (owned r' os') = mset (owned r os)" "contexts r' = contexts r" "fresh r' = fresh r"
    "ring_inv k r'"
  shows "owners_ok k r' os'"
  using assms mset_eq_setD [OF assms(2)] mset_eq_imp_distinct_iff [OF assms(2)] by (simp add: owners_ok_def)

lemma owners_tight_moved:
  assumes "owners_tight r os" "mset (owned r' os') = mset (owned r os)" "contexts r' = contexts r"
  shows "owners_tight r' os'"
  using assms mset_eq_setD [OF assms(2)] by (simp add: owners_tight_def accepting_def)

lemma enter_moves:
  assumes n: "n \<le> length (ring_of (reactor w))"
  shows "mset (owned (reactor (uring_enter n w)) (holders (uring_enter n w))) = mset (owned (reactor w) (holders w))"
proof -
  define xs where "xs = ring_of (reactor w)"
  have "mset (map user_data (drop n xs)) + mset (map user_data (take n xs)) = mset (map user_data xs)"
    by (metis append_take_drop_id map_append mset_append union_commute)
  then show ?thesis using ring_of_enter [OF n]
    by (simp add: owned_def holders_def uring_enter_def Let_def xs_def)
qed

lemma enter_ring_inv:
  assumes "ring_inv k (reactor w)" "n \<le> length (ring_of (reactor w))"
  shows "ring_inv k (reactor (uring_enter n w))"
proof -
  have "length (ring_of (reactor (uring_enter n w))) \<le> length (ring_of (reactor w))"
    using ring_of_enter [OF assms(2)] by (simp only: uring_enter_def Let_def uring_world.simps) simp
  then show ?thesis using assms(1) by (simp add: ring_inv_def uring_enter_def Let_def)
qed

definition world_inv :: "bool \<Rightarrow> nat \<Rightarrow> uring_world \<Rightarrow> bool" where
  "world_inv roomy k w \<longleftrightarrow> owners_ok k (reactor w) (holders w) \<and> (roomy \<longrightarrow> owners_tight (reactor w) (holders w))"

lemma world_inv_moved:
  assumes inv: "world_inv roomy k w" and m: "mset (owned r' os') = mset (owned (reactor w) (holders w))"
    and f: "contexts r' = contexts (reactor w)" "fresh r' = fresh (reactor w)" "ring_inv k r'"
  shows "owners_ok k r' os' \<and> (roomy \<longrightarrow> owners_tight r' os')"
proof -
  have "owners_ok k (reactor w) (holders w)" using inv by (simp add: world_inv_def)
  then have "owners_ok k r' os'" using m f by (rule owners_ok_moved)
  moreover have "owners_tight r' os'" if roomy
  proof -
    have "owners_tight (reactor w) (holders w)" using inv that by (simp add: world_inv_def)
    then show ?thesis using m f(1) by (rule owners_tight_moved)
  qed
  ultimately show ?thesis by blast
qed

lemma world_ring_inv: "world_inv roomy k w \<Longrightarrow> ring_inv k (reactor w)"
  by (simp add: world_inv_def owners_ok_def)

lemma handle_world_inv:
  assumes inv: "world_inv roomy k w" and comp: "completions w = (a, res) # cs"
    and room: "roomy \<Longrightarrow> length (ring_of (reactor w)) + 2 \<le> unat (sq_entries (reactor w))"
  shows "\<exists>r. handle_completion a res (reactor w) = Some r \<and> world_inv roomy k (w\<lparr>reactor := r, completions := cs\<rparr>)"
proof -
  define os where "os = map user_data (in_kernel w) @ map fst cs"
  have m: "mset (owned (reactor w) (a # os)) = mset (owned (reactor w) (holders w))"
    by (simp add: holders_def owned_def comp os_def)
  have ok: "owners_ok k (reactor w) (a # os)" and tight: "roomy \<longrightarrow> owners_tight (reactor w) (a # os)"
    using world_inv_moved [OF inv m refl refl world_ring_inv [OF inv]] by blast+
  obtain r where r: "handle_completion a res (reactor w) = Some r" "owners_ok k r os"
    using handle_completion_ok [OF ok] by blast
  have "owners_tight r os" if roomy
  proof (rule handle_completion_tight [OF ok _ _ r(1)])
    show "owners_tight (reactor w) (a # os)" using tight that by blast
    have "unat (sq_entries (reactor w)) = 2 ^ k"
      using world_ring_inv [OF inv] entries_u32 [of k] by (simp add: ring_inv_def)
    then show "length (ring_of (reactor w)) + 2 \<le> 2 ^ k" using room [OF that] by simp
  qed
  then show ?thesis using r by (simp add: world_inv_def holders_def os_def)
qed

lemma step_world_inv:
  assumes step: "uring_step roomy w x" and inv: "world_inv roomy k w"
  shows "\<exists>w'. x = Some w' \<and> world_inv roomy k w'"
  using step
proof cases
  case (Enter n)
  have "owners_ok k (reactor (uring_enter n w)) (holders (uring_enter n w))
      \<and> (roomy \<longrightarrow> owners_tight (reactor (uring_enter n w)) (holders (uring_enter n w)))"
    by (rule world_inv_moved [OF inv enter_moves [OF Enter(2)] _ _ enter_ring_inv [OF world_ring_inv [OF inv] Enter(2)]])
      (simp_all add: uring_enter_def Let_def)
  then show ?thesis using Enter(1) by (simp add: world_inv_def)
next
  case (Complete xs e ys res)
  define w' where "w' = w\<lparr>in_kernel := xs @ ys, completions := completions w @ [(user_data e, res)]\<rparr>"
  have "mset (owned (reactor w) (holders w')) = mset (owned (reactor w) (holders w))"
    by (simp add: w'_def holders_def owned_def Complete(2))
  from world_inv_moved [OF inv this refl refl world_ring_inv [OF inv]]
  have "world_inv roomy k w'" by (simp add: world_inv_def w'_def)
  then show ?thesis using Complete(1) by (simp add: w'_def)
next
  case (Handle a res cs)
  then show ?thesis using handle_world_inv [OF inv Handle(2,3)] by auto
qed

lemma init_world_inv:
  assumes k: "k < 32"
  shows "world_inv roomy k \<lparr>reactor = reactor_init lfd k, in_kernel = [], completions = []\<rparr>"
proof -
  define r where "r = \<lparr>listen_fd = lfd, sq_entries = 2 ^ k, sq_mask = mask k, sq_head = 0, sq_tail = 0,
     pending_sqes = 0, sqes = replicate (2 ^ k) \<lparr>opcode = ACCEPT, sqe_fd = 0, sqe_len = 0, user_data = 0\<rparr>,
     contexts = Map.empty, fresh = 1, closed_fds = [], total_bytes_echoed = 0\<rparr>"
  have init: "reactor_init lfd k = submit_accept r" by (simp add: reactor_init_def r_def)
  have f: "ring_of r = []" "contexts r = Map.empty" "ring_inv k r" "fresh r = 1"
    using k by (simp_all add: r_def ring_of_def ring_inv_def)
  have ok: "owners_ok k r []" by (simp add: owners_ok_def f owned_def)
  have "owners_tight (submit_accept r) []"
  proof (cases rule: submit_accept_cases [OF f(3)])
    case 1
    then show ?thesis unfolding f(1) by simp
  next
    case (2 e)
    then show ?thesis using accepting_upd [OF 2(6)] f by (auto simp: owners_tight_def owned_def accepting_def)
  qed
  then show ?thesis using submit_accept_ok [OF ok] by (simp add: world_inv_def holders_def init)
qed

lemma reach_world_inv:
  assumes "k < 32" "uring_reach roomy lfd k x"
  shows "\<exists>w. x = Some w \<and> world_inv roomy k w"
  using assms(2)
proof induction
  case Start
  then show ?case using init_world_inv [OF assms(1)] by simp
next
  case (Next w x)
  then show ?case using step_world_inv by blast
qed

subsection \<open>Properties\<close>

text \<open>
  C19: Whatever the kernel completes, in whatever order and with whatever results, and however full the
  submission ring gets, no completion is handled with a deleted context and no context is given to
  the kernel twice at a time. If the ring always has two free entries when a completion is handled,
  then moreover no context is lost: exactly the contexts in the ring, in the kernel or among
  the completions are allocated, and exactly one of them is waiting for the next client.
\<close>

theorem uring_contexts_owned:
  assumes "k < 32" "uring_reach roomy lfd k x"
  shows "\<exists>w. x = Some w \<and> distinct (owned (reactor w) (holders w))
    \<and> set (owned (reactor w) (holders w)) \<subseteq> dom (contexts (reactor w))
    \<and> (roomy \<longrightarrow> dom (contexts (reactor w)) = set (owned (reactor w) (holders w))
        \<and> (\<exists>a. accepting (reactor w) = {a}))"
  using reach_world_inv [OF assms] by (auto simp: world_inv_def owners_ok_def owners_tight_def)

theorem uring_contexts_owned_witness:
  "\<exists>w. uring_reach True 3 9 (Some w) \<and> distinct (owned (reactor w) (holders w))
    \<and> (\<exists>a. accepting (reactor w) = {a})"
proof -
  have r: "uring_reach True 3 9 (Some \<lparr>reactor = reactor_init 3 9, in_kernel = [], completions = []\<rparr>)" by (rule Start)
  show ?thesis using uring_contexts_owned [OF _ r] r by auto
qed

text \<open>
  When the ring is full a client whose bytes were just read is lost: its context is neither
  freed nor owned by anybody, its descriptor stays open, and nothing is written back.
\<close>

theorem uring_full_ring_loses_client:
  assumes ok: "owners_ok k r (a # os)" and full: "length (ring_of r) = 2 ^ k"
    and c: "contexts r a = Some c" "ctx_type c = READ" and res: "res > 0"
  shows "\<exists>r'. handle_completion a res r = Some r' \<and> ring_of r' = ring_of r \<and> closed_fds r' = closed_fds r
    \<and> a \<in> dom (contexts r') \<and> a \<notin> set (owned r' os)"
proof -
  let ?r = "r\<lparr>total_bytes_echoed := total_bytes_echoed r + of_int res\<rparr>"
  have inv: "ring_inv k ?r" using owners_okD(1) [OF ok] by simp
  have "ring_of ?r = ring_of r" by (simp add: ring_of_def)
  then have "get_sqe ?r = None" using get_sqe_None [OF inv] full by simp
  then have "handle_completion a res r = Some ?r"
    using c res by (simp add: handle_completion_def submit_write_def)
  moreover have "a \<notin> set (owned r os)" using forget_ok [OF ok] by blast
  ultimately show ?thesis using c(1) \<open>ring_of ?r = ring_of r\<close> by auto
qed

definition full_reactor :: IoUringReactor where
  "full_reactor = \<lparr>listen_fd = 3, sq_entries = 1, sq_mask = 0, sq_head = 0, sq_tail = 1, pending_sqes = 1,
     sqes = [\<lparr>opcode = ACCEPT, sqe_fd = 3, sqe_len = 0, user_data = 1\<rparr>],
     contexts = [1 \<mapsto> \<lparr>ctx_fd = 3, ctx_type = ACCEPT, bytes_transferred = 0\<rparr>,
       2 \<mapsto> \<lparr>ctx_fd = 7, ctx_type = READ, bytes_transferred = 0\<rparr>],
     fresh = 3, closed_fds = [], total_bytes_echoed = 0\<rparr>"

theorem uring_full_ring_loses_client_witness:
  "\<exists>r'. handle_completion 2 5 full_reactor = Some r' \<and> ring_of r' = ring_of full_reactor \<and> closed_fds r' = []
    \<and> 2 \<in> dom (contexts r') \<and> 2 \<notin> set (owned r' [])"
proof -
  have ring: "ring_of full_reactor = [\<lparr>opcode = ACCEPT, sqe_fd = 3, sqe_len = 0, user_data = 1\<rparr>]"
    by (simp add: ring_of_def full_reactor_def)
  have "owners_ok 0 full_reactor [2]"
    by (auto simp: owners_ok_def owned_def ring ring_inv_def, simp_all add: full_reactor_def split: if_splits)
  moreover have "length (ring_of full_reactor) = 2 ^ 0" unfolding ring by simp
  moreover have "contexts full_reactor 2 = Some \<lparr>ctx_fd = 7, ctx_type = READ, bytes_transferred = 0\<rparr>" "closed_fds full_reactor = []"
    by (simp_all add: full_reactor_def)
  ultimately show ?thesis
    using uring_full_ring_loses_client [of 0 full_reactor 2 "[]" "\<lparr>ctx_fd = 7, ctx_type = READ, bytes_transferred = 0\<rparr>" 5] by simp
qed

end
