(* ===== verification/Spec2Isabelle.thy ===== *)
theory Spec2Isabelle
  imports Spsc_Queue Shm_Feed Buffer_Pool Buddy_Allocator Slab_Allocator Wal_Engine Embedded_Db Txn_Engine
    Mpmc_Queue Futex_Mutex Latch_BTree Fast_Logger Elf_Inspector Fiber_Scheduler Memory_Utils
    Latency_Tracker Crash_Probe Epoll_Server Iouring_Reactor
begin

text \<open>
  \<^bold>\<open>What this is.\<close> A shallow embedding of the systems-programming projects under
  \<^verbatim>\<open>src/system-level-programming\<close>, with the theorems that make them correct. The repository is a
  collection of components; the development has one theory for each, and this root theory imports
  them all.

  \<^bold>\<open>Conventions.\<close> A class or structure is a record, an enumeration a datatype, a member function a
  definition that takes the state and returns it updated. Integers keep their width as words and
  wrap. What the code obtains from outside is an argument: the outcomes of system calls, the bytes
  transferred, the order in which a hash map or a directory is traversed, coin flips, the clock.
  Failures are \<open>None\<close> or the left side of a sum. Loops with a bound are functions with a termination
  proof; loops that chase pointers are partial functions whose value \<open>None\<close> means that they do not
  return, and their theorems say that they do. Operations that hold a lock are atomic steps; lock-free
  code is cut into its accesses to shared memory and the theorems quantify over all interleavings,
  under sequentially consistent atomics. Histories are lists of operations run from the initial state;
  a run is \<open>None\<close> when a client leaves the contract stated with it.

  \<^bold>\<open>Shared theories.\<close>
  \<^item> \<open>Sys_Prelude\<close>: word types, byte-addressed memory with little-endian accesses, alignment by masks,
    \<open>std::lower_bound\<close> and \<open>std::binary_search\<close>.
  \<^item> \<open>Ring_Fifo\<close>: rings indexed by masked free-running counters, and the interface of a bounded FIFO
    that the queue, the bus and the feed interpret.
  \<^item> \<open>Byte_Codec\<close>: the interface of a fixed-width encoding and what it gives for arrays; interpreted on
    64-bit words, on the pairs and index entries of the sorted-string table and on the log headers.

  \<^bold>\<open>Queues and shared memory.\<close>
  \<^item> \<open>Spsc_Queue\<close> (\<^verbatim>\<open>spsc_queue.hpp\<close>): emplace, pop, the destructor, and both cut into accesses. FIFO
    under every interleaving, no slot touched by both threads, bounded steps, no leak.
  \<^item> \<open>Mpmc_Queue\<close> (\<^verbatim>\<open>mpmc_queue.hpp\<close>): any number of producers and consumers, access by access, with
    spurious failures of the weak exchange. Every claimed value is read exactly once and in order of the
    claims; alone, an operation is that of a bounded queue; the capacity is the least power of two.
    Histories are shorter than \<open>2 ^ 62\<close> accesses so that positions do not wrap.
  \<^item> \<open>Shm_Ipc_Bus\<close> (\<^verbatim>\<open>shm_ipc_bus.hpp\<close>): create, attach, publish, consume, moves and destruction of the
    handle. FIFO for power-of-two capacities, and the message lost for capacity 3.
  \<^item> \<open>Futex_Mutex\<close> (\<^verbatim>\<open>futex_mutex.hpp\<close>): a step relation over any number of processes with early
    wake-ups. Mutual exclusion and no lost wake-up.
  \<^item> \<open>Order_Book\<close>, \<open>Shm_Feed\<close> (\<^verbatim>\<open>01-shm-orderbook-feed\<close>): the ladder of price levels as a map, the
    shared-memory feed, and the composition of both: the engine's book is the book after a prefix of the
    published events.

  \<^bold>\<open>Memory.\<close>
  \<^item> \<open>Buddy_Allocator\<close> (\<^verbatim>\<open>buddy_allocator.hpp\<close>): live blocks are aligned and disjoint, a refusal means that
    no aligned range is free, and everything freed gives back the initial free lists.
  \<^item> \<open>Slab_Allocator\<close> (\<^verbatim>\<open>slab_allocator.hpp\<close>): the free list threaded through the chunks themselves;
    chunks handed out are disjoint and keep their bytes.

  \<^bold>\<open>Storage.\<close>
  \<^item> \<open>Slotted_Page\<close> (\<^verbatim>\<open>slotted_page.hpp\<close>): the 4096 bytes of a page with insert, read, update, delete and
    compaction; histories of operations, no refusal without need, no uninitialised byte exposed.
  \<^item> \<open>Lru_K\<close>, \<open>Disk_Manager\<close>, \<open>Buffer_Pool\<close> (\<^verbatim>\<open>concurrent_buffer_pool_manager\<close>): the victim of the
    replacement policy, the file of pages, and the pool over both through the interface of a
    replacer: no update is lost, pinned pages stay, flushing reaches the disk; and the new page whose
    header is lost.
  \<^item> \<open>Bloom_Filter\<close>, \<open>Skip_List\<close>, \<open>SSTable\<close>, \<open>Lsm_Engine\<close> (\<^verbatim>\<open>concurrent_lsm_tree_engine\<close>): no false
    negatives; the skip list on its heap of nodes is the sorted map, for all coin flips; build and open
    round trip on the bytes of the file; the engine is the map of the last values.
  \<^item> \<open>Wal_Engine\<close>, \<open>Embedded_Db\<close> (\<^verbatim>\<open>02-embedded-lsm-kv-database\<close>): recovery from every prefix of the log
    and the database that survives a crash; and the writes lost behind a torn block.
  \<^item> \<open>Txn_Engine\<close> (\<^verbatim>\<open>mvcc_undo_log.hpp\<close>, \<^verbatim>\<open>mini_transactional_engine\<close>): snapshot reads for histories
    whose aborts are isolated, recovery of exactly the committed writes from every prefix of the log,
    and the abort that exposes an aborted value.
  \<^item> \<open>Latch_BTree\<close> (\<^verbatim>\<open>latch_crabbing_btree.hpp\<close>): the tree on its heap of nodes is the map of the last
    values, operations terminate and use their latches hand over hand.

  \<^bold>\<open>Event engines and fibers.\<close>
  \<^item> \<open>Fiber_Scheduler\<close> (\<^verbatim>\<open>fiber_scheduler.hpp\<close>): scheduler, mutex and channel with fibers as trees of calls.
    Running always returns, by the multiset order on what the fibers have left to do, and then every
    fiber has finished or waits with reason; channels are FIFO and mutexes exclusive after every number of steps.
  \<^item> \<open>Epoll_Server\<close> (\<^verbatim>\<open>epoll_server.hpp\<close>): all handlers over lists of outcomes of the system calls. The echo is
    exact for every splitting of reads and writes; initialisation and stop leave nothing open; and the half-closed
    client whose bytes are not echoed.
  \<^item> \<open>Iouring_Reactor\<close> (\<^verbatim>\<open>iouring_reactor.hpp\<close>): the submission ring with 32-bit counters and the
    connection contexts the code allocates and deletes by hand, against an arbitrary kernel. No use after
    free, no double submission, no leak while the ring has two free entries; and the client lost when it is full.

  \<^bold>\<open>Inspection and support.\<close>
  \<^item> \<open>Text_Format\<close>: numbers and padding of the reports, and reading them back.
  \<^item> \<open>Elf_Inspector\<close> (\<^verbatim>\<open>lightweight_elf_inspector\<close>): parser, report and program. Every well-formed image is decoded
    exactly; constructed inspectors are well typed; and exactly when the wrapped table check lets the
    parser read outside its buffer. Buffers are shorter than \<open>2 ^ 63\<close> bytes, the bound of a vector.
  \<^item> \<open>Memory_Utils\<close> (\<^verbatim>\<open>memory_utils.hpp\<close>): alignment, the hex dump that reads back, the padding report.
  \<^item> \<open>Latency_Tracker\<close> (\<^verbatim>\<open>rdtsc_timer.hpp\<close>): the scoped timer and the statistics, ordered and within the samples, for
    every monotone rounding of ranks; and the mean that wraps.
  \<^item> \<open>Crash_Probe\<close> (\<^verbatim>\<open>crash_probe.hpp\<close>): the report always fits its buffer and every register reads back.
  \<^item> \<open>Fast_Logger\<close> (\<^verbatim>\<open>logger.hpp\<close>): exact number formatting, the raw writer, the ring of records as a
    bounded queue of lines, and the record that overruns its payload.

  \<^bold>\<open>Not modelled.\<close> Code whose content is a sequence of machine instructions or of system calls has no
  state of its own to reason about: the raw system calls and the program without a runtime, the page-fault
  tracker, the cycle counter and its floating-point calibration, the cache-control intrinsics, and the
  kernel tracing example. The vector kernels compute with IEEE arithmetic and intrinsics, the memory-order drills
  need a weak memory model; the theories available here provide neither. Of the reactor the contents of the
  connection buffers are left out, of the logger concurrent producers. Benchmarks, tests, drivers and the notes of
  the other directories only print or measure. Destructors that only close descriptors, and the
  background compaction thread that only calls a modelled function, are left out as well.
\<close>

end
